(* ===== verification/Prelude.thy ===== *)
theory Prelude
  imports "HOL-Library.Word" "HOL-Library.Char_ord" "HOL-Library.List_Lexorder"
    "HOL-Library.Sublist"
begin

text \<open>
  The vocabulary the component theories share: bytes and strings, the ways a C++ call can
  end other than by returning (an exception, or undefined behaviour), and the functions of
  the C++ standard library the sources call on strings (\<open>find\<close>, \<open>substr\<close>, \<open>c_str\<close>,
  \<open>to_string\<close>, \<open>atoi\<close>, \<open>stoul\<close>), with the lemmas about them.

  A \<open>char\<close> of HOL is one 8-bit byte, so a \<open>std::string\<close> and a
  \<open>std::vector<unsigned char>\<close> are both a list of \<open>char\<close>, and the casts between the
  two types in the sources are the identity. The order on strings is the lexicographic
  order on unsigned bytes, which is what \<open>std::less<std::string>\<close> compares by.
\<close>

section \<open>Shared vocabulary\<close>

named_theorems call_simps "unfoldings of the calls of the modelled operations"
named_theorems wf_intros "introduction rules for the components' well-formedness predicates"

type_synonym byte = char
type_synonym bytes = "char list"

abbreviation NUL :: char where "NUL \<equiv> CHR 0x00"
abbreviation HT :: char where "HT \<equiv> CHR 0x09"
abbreviation LF :: char where "LF \<equiv> CHR 0x0A"
abbreviation CR :: char where "CR \<equiv> CHR 0x0D"
abbreviation SP :: char where "SP \<equiv> CHR '' ''"
abbreviation CRLF :: string where "CRLF \<equiv> [CR, LF]"

subsection \<open>How a call ends\<close>

text \<open>
  \<open>Undefined\<close> is the outcome of an execution the C++ standard gives no meaning to (a read
  before the start of a vector, a null dereference). It is a value of the model, so that
  a theorem that an operation returns also says that it has no undefined behaviour.
\<close>

datatype exn =
    Bad_variant_access
  | Bad_optional_access
  | Bad_function_call
  | Out_of_range
  | Logic_error string

datatype 'a outcome = Returns 'a | Throws exn | Undefined

fun bind_outcome :: "'a outcome \<Rightarrow> ('a \<Rightarrow> 'b outcome) \<Rightarrow> 'b outcome" where
  "bind_outcome (Returns a) f = f a"
| "bind_outcome (Throws e) f = Throws e"
| "bind_outcome Undefined f = Undefined"

lemma bind_outcome_Returns_iff:
  "bind_outcome m f = Returns b \<longleftrightarrow> (\<exists>a. m = Returns a \<and> f a = Returns b)"
  by (cases m) auto

lemma bind_outcome_assoc:
  "bind_outcome (bind_outcome m f) g = bind_outcome m (\<lambda>a. bind_outcome (f a) g)"
  by (cases m) auto

lemma bind_outcome_cong [fundef_cong]:
  "m = m' \<Longrightarrow> (\<And>a. m' = Returns a \<Longrightarrow> f a = g a) \<Longrightarrow> bind_outcome m f = bind_outcome m' g"
  by (cases m') auto

subsection \<open>Strings\<close>

text \<open>\<open>std::string::find(char, pos)\<close>: the index of the first match at or after \<open>pos\<close>.\<close>

fun find_char :: "char \<Rightarrow> string \<Rightarrow> nat option" where
  "find_char c [] = None"
| "find_char c (x # xs) = (if x = c then Some 0 else map_option Suc (find_char c xs))"

definition find_char_from :: "char \<Rightarrow> string \<Rightarrow> nat \<Rightarrow> nat option" where
  "find_char_from c s pos = map_option ((+) pos) (find_char c (drop pos s))"

text \<open>\<open>std::string::find_last_of(char)\<close>.\<close>

definition find_last_of :: "char \<Rightarrow> string \<Rightarrow> nat option" where
  "find_last_of c s = map_option (\<lambda>i. length s - Suc i) (find_char c (rev s))"

text \<open>\<open>std::string::substr(pos)\<close> throws \<open>std::out_of_range\<close> when \<open>pos > size()\<close>.\<close>

definition substr :: "string \<Rightarrow> nat \<Rightarrow> string outcome" where
  "substr s pos = (if pos \<le> length s then Returns (drop pos s) else Throws Out_of_range)"

text \<open>What a \<open>const char *\<close> taken from a string shows: the bytes up to the first NUL.\<close>

definition c_str :: "string \<Rightarrow> string" where
  "c_str s = takeWhile (\<lambda>c. c \<noteq> NUL) s"

lemma find_char_None_iff: "find_char c s = None \<longleftrightarrow> c \<notin> set s"
  by (induction s) auto

lemma find_char_append:
  "c \<notin> set xs \<Longrightarrow> find_char c (xs @ c # ys) = Some (length xs)"
  by (induction xs) auto

lemma find_char_Some_split:
  "find_char c s = Some i \<Longrightarrow>
     i < length s \<and> s = take i s @ c # drop (Suc i) s \<and> c \<notin> set (take i s)"
  by (induction s arbitrary: i) (auto split: if_splits)

lemma find_char_from_append:
  "length xs = n \<Longrightarrow> c \<notin> set ys \<Longrightarrow>
     find_char_from c (xs @ ys @ c # zs) n = Some (n + length ys)"
  by (simp add: find_char_from_def find_char_append)

lemma substr_Returns [simp]: "pos \<le> length s \<Longrightarrow> substr s pos = Returns (drop pos s)"
  by (simp add: substr_def)

lemma substr_Throws [simp]: "length s < pos \<Longrightarrow> substr s pos = Throws Out_of_range"
  by (simp add: substr_def)

lemma c_str_id [simp]: "NUL \<notin> set s \<Longrightarrow> c_str s = s"
  by (induction s) (auto simp: c_str_def)

lemma c_str_append: "NUL \<notin> set s \<Longrightarrow> c_str (s @ t) = s @ c_str t"
  by (induction s) (auto simp: c_str_def)

lemma c_str_no_NUL [simp]: "NUL \<notin> set (c_str s)"
  by (auto simp: c_str_def dest: set_takeWhileD)

lemma length_c_str: "length (c_str s) \<le> length s"
  by (simp add: c_str_def length_takeWhile_le)

subsection \<open>Decimal numbers\<close>

definition is_digit :: "char \<Rightarrow> bool" where
  "is_digit c \<longleftrightarrow> CHR ''0'' \<le> c \<and> c \<le> CHR ''9''"

definition digit_val :: "char \<Rightarrow> nat" where
  "digit_val c = of_char c - 48"

definition digit_char :: "nat \<Rightarrow> char" where
  "digit_char d = char_of (48 + d)"

definition is_space :: "char \<Rightarrow> bool" where
  "is_space c \<longleftrightarrow> c \<in> {SP, HT, LF, CHR 0x0B, CHR 0x0C, CR}"

text \<open>\<open>std::to_string\<close> on an unsigned value.\<close>

fun to_string :: "nat \<Rightarrow> string" where
  "to_string n =
     (if n < 10 then [digit_char n] else to_string (n div 10) @ [digit_char (n mod 10)])"

declare to_string.simps [simp del]

text \<open>The value of the longest prefix of digits, as \<open>strtol\<close> and \<open>strtoul\<close> read it.\<close>

fun read_digits :: "string \<Rightarrow> nat \<Rightarrow> nat" where
  "read_digits [] acc = acc"
| "read_digits (c # cs) acc =
     (if is_digit c then read_digits cs (10 * acc + digit_val c) else acc)"

definition split_sign :: "string \<Rightarrow> bool \<times> string" where
  "split_sign s = (case s of
       [] \<Rightarrow> (False, [])
     | c # cs \<Rightarrow> if c = CHR ''-'' then (True, cs) else if c = CHR ''+'' then (False, cs)
                else (False, c # cs))"

text \<open>
  \<open>std::atoi\<close> as the C library of the build platform computes it: \<open>strtol\<close> with its
  result clamped to 64 bits, then converted to a 32-bit \<open>int\<close>.
\<close>

definition atoi :: "string \<Rightarrow> int" where
  "atoi s =
     (let (neg, t) = split_sign (dropWhile is_space s);
          v = (if neg then - int (read_digits t 0) else int (read_digits t 0));
          clamped = max (- (2 ^ 63)) (min (2 ^ 63 - 1) v)
      in sint (word_of_int clamped :: 32 word))"

text \<open>
  \<open>std::stoul\<close>: \<open>None\<close> is one of its two exceptions, \<open>invalid_argument\<close> (no digit) or
  \<open>out_of_range\<close> (the digits exceed 64 bits). A minus sign negates modulo \<open>2 ^ 64\<close>.
\<close>

definition stoul :: "string \<Rightarrow> nat option" where
  "stoul s =
     (let (neg, t) = split_sign (dropWhile is_space s)
      in if t = [] \<or> \<not> is_digit (hd t) then None
         else let v = read_digits t 0
              in if 2 ^ 64 \<le> v then None
                 else Some (if neg then (2 ^ 64 - v) mod 2 ^ 64 else v))"

lemma digit_chars:
  "digit_char 0 = CHR ''0''" "digit_char 1 = CHR ''1''" "digit_char 2 = CHR ''2''"
  "digit_char 8 = CHR ''8''"
  by code_simp+

lemma digit_char_digit: "d < 10 \<Longrightarrow> is_digit (digit_char d) \<and> digit_val (digit_char d) = d"
  by (simp add: is_digit_def digit_char_def digit_val_def less_eq_char_def)

lemma to_string_digits: "c \<in> set (to_string n) \<Longrightarrow> is_digit c"
proof (induction n rule: to_string.induct)
  case (1 n)
  then show ?case
    by (subst (asm) (2) to_string.simps) (auto simp: digit_char_digit split: if_splits)
qed

lemma to_string_nonempty [simp]: "to_string n \<noteq> []"
  by (subst to_string.simps) simp

lemma read_digits_append:
  "\<forall>c \<in> set xs. is_digit c \<Longrightarrow> read_digits (xs @ ys) acc = read_digits ys (read_digits xs acc)"
  by (induction xs arbitrary: acc) auto

lemma read_digits_to_string: "read_digits (to_string n) 0 = n"
proof (induction n rule: to_string.induct)
  case (1 n)
  show ?case
  proof (cases "n < 10")
    case True
    then show ?thesis by (subst to_string.simps) (simp add: digit_char_digit)
  next
    case False
    then have "read_digits (to_string n) 0 = 10 * (n div 10) + n mod 10"
      using 1 by (subst to_string.simps)
        (simp add: read_digits_append to_string_digits digit_char_digit)
    then show ?thesis by simp
  qed
qed

lemma digit_props:
  "is_digit c \<Longrightarrow> \<not> is_space c"
  "is_digit c \<Longrightarrow> c \<noteq> CHR ''-''"
  "is_digit c \<Longrightarrow> c \<noteq> CHR ''+''"
  "is_digit c \<Longrightarrow> c \<noteq> NUL"
  "is_digit c \<Longrightarrow> c \<noteq> SP"
  "is_digit c \<Longrightarrow> c \<noteq> CR"
  "is_digit c \<Longrightarrow> c \<noteq> LF"
  by (auto simp: is_digit_def is_space_def)

lemma split_sign_to_string:
  "split_sign (dropWhile is_space (to_string n)) = (False, to_string n)"
proof -
  obtain c cs where c: "to_string n = c # cs" by (meson list.exhaust to_string_nonempty)
  then have "is_digit c" using to_string_digits [of c n] by simp
  then show ?thesis by (simp add: c split_sign_def digit_props)
qed

lemma stoul_to_string: "n < 2 ^ 64 \<Longrightarrow> stoul (to_string n) = Some n"
proof -
  assume n: "n < 2 ^ 64"
  have "is_digit (hd (to_string n))" by (meson list.set_sel(1) to_string_digits to_string_nonempty)
  with n show ?thesis
    by (simp add: stoul_def split_sign_to_string read_digits_to_string)
qed

lemma stoul_bound: "stoul s = Some n \<Longrightarrow> n < 2 ^ 64"
  by (auto simp: stoul_def Let_def split: if_splits prod.splits)

lemma atoi_to_string: "n < 2 ^ 31 \<Longrightarrow> atoi (to_string n) = int n"
proof -
  assume n: "n < 2 ^ 31"
  then have *: "max (- (2 ^ 63)) (min (2 ^ 63 - 1) (int n)) = int n" by simp
  have "sint (word_of_int (int n) :: 32 word) = int n"
    using n by (simp only: sint_sbintrunc') (simp add: signed_take_bit_int_eq_self)
  then show ?thesis
    unfolding atoi_def Let_def split_sign_to_string prod.case if_False read_digits_to_string * .
qed

lemma atoi_bounds: "- (2 ^ 31) \<le> atoi s \<and> atoi s < 2 ^ 31"
  using sint_ge [where ?'a = 32] sint_lt [where ?'a = 32]
  by (simp add: atoi_def Let_def split: prod.splits)

lemma c_str_append_no_NUL: "\<forall>c \<in> set s. c \<noteq> NUL \<Longrightarrow> c_str (s @ t) = s @ c_str t"
  by (induction s) (simp_all add: c_str_def)

text \<open>\<open>atoi\<close> stops at the first character after the digits.\<close>

lemma read_digits_stop:
  "t = [] \<or> \<not> is_digit (hd t) \<Longrightarrow> read_digits (to_string n @ t) 0 = n"
proof -
  assume t: "t = [] \<or> \<not> is_digit (hd t)"
  have "read_digits (to_string n @ t) 0 = read_digits t (read_digits (to_string n) 0)"
    by (rule read_digits_append) (simp add: to_string_digits)
  also have "\<dots> = n" using t by (cases t) (simp_all add: read_digits_to_string)
  finally show ?thesis .
qed

lemma atoi_to_string_append:
  assumes "n < 2 ^ 31" and "t = [] \<or> \<not> is_digit (hd t)"
  shows "atoi (to_string n @ t) = int n"
proof -
  obtain c cs where c: "to_string n = c # cs" by (meson list.exhaust to_string_nonempty)
  then have "is_digit c" using to_string_digits [of c n] by simp
  then have "split_sign (dropWhile is_space (to_string n @ t)) = (False, to_string n @ t)"
    by (simp add: c split_sign_def digit_props)
  moreover have "split_sign (dropWhile is_space (to_string n)) = (False, to_string n)"
    by (rule split_sign_to_string)
  ultimately have "atoi (to_string n @ t) = atoi (to_string n)"
    by (simp add: atoi_def read_digits_stop [OF assms(2)] read_digits_to_string)
  then show ?thesis by (simp only: atoi_to_string [OF assms(1)])
qed

end
