(* ===== verification/Std_Map.thy ===== *)
theory Std_Map
  imports Prelude
begin

text \<open>
  \<open>std::map<K, V>\<close>, which the sources iterate in key order: an association list with
  strictly increasing keys. \<open>operator[]\<close> followed by an assignment is \<open>map_insert\<close>,
  \<open>operator[]\<close> followed by \<open>push_back\<close> on a vector value is \<open>map_push\<close>, \<open>find\<close>
  is \<open>map_find\<close>; iteration is the list itself. The locales state the contract the other
  components rely on, and the interpretation at the end provides it.
\<close>

section \<open>Ordered maps\<close>

type_synonym ('k, 'v) std_map = "('k \<times> 'v) list"

fun map_insert :: "'k::linorder \<Rightarrow> 'v \<Rightarrow> ('k, 'v) std_map \<Rightarrow> ('k, 'v) std_map" where
  "map_insert k v [] = [(k, v)]"
| "map_insert k v (e # es) =
     (if fst e < k then e # map_insert k v es
      else if k < fst e then (k, v) # e # es
      else (k, v) # es)"

definition map_find :: "'k \<Rightarrow> ('k, 'v) std_map \<Rightarrow> 'v option" where
  "map_find k m = map_of m k"

definition map_wf :: "('k::linorder, 'v) std_map \<Rightarrow> bool" where
  "map_wf m \<longleftrightarrow> sorted_wrt (<) (map fst m)"

definition map_push :: "'k::linorder \<Rightarrow> 'v \<Rightarrow> ('k, 'v list) std_map \<Rightarrow> ('k, 'v list) std_map" where
  "map_push k v m = map_insert k ((case map_find k m of None \<Rightarrow> [] | Some vs \<Rightarrow> vs) @ [v]) m"

subsection \<open>The contract\<close>

locale string_map =
  fixes empty :: "'m"
    and find :: "'k \<Rightarrow> 'm \<Rightarrow> 'v option"
    and ins :: "'k \<Rightarrow> 'v \<Rightarrow> 'm \<Rightarrow> 'm"
    and wf :: "'m \<Rightarrow> bool"
  assumes find_empty: "find k empty = None"
    and wf_empty: "wf empty"
    and find_ins: "wf m \<Longrightarrow> find k (ins k' v m) = (if k = k' then Some v else find k m)"
    and wf_ins: "wf m \<Longrightarrow> wf (ins k v m)"
    and extensional: "wf m \<Longrightarrow> wf m' \<Longrightarrow> (\<And>k. find k m = find k m') \<Longrightarrow> m = m'"
begin

lemma wf_fold: "wf m \<Longrightarrow> wf (fold (\<lambda>(k, v). ins k v) kvs m)"
  by (induction kvs arbitrary: m) (auto simp: wf_ins split: prod.splits)

text \<open>Later insertions win.\<close>

lemma find_fold:
  "wf m \<Longrightarrow> find k (fold (\<lambda>(k, v). ins k v) kvs m) =
     (case map_of (rev kvs) k of None \<Rightarrow> find k m | Some v \<Rightarrow> Some v)"
proof (induction kvs arbitrary: m)
  case Nil
  then show ?case by simp
next
  case (Cons kv kvs)
  obtain k' v where kv: "kv = (k', v)" by (cases kv)
  from Cons.prems have "wf (ins k' v m)" by (rule wf_ins)
  from Cons.IH [OF this] Cons.prems show ?case
    by (simp add: kv find_ins map_add_def split: option.split)
qed

lemma ins_commute:
  assumes "wf m" and "k \<noteq> k'"
  shows "ins k v (ins k' v' m) = ins k' v' (ins k v m)"
  using assms by (intro extensional) (auto simp: wf_ins find_ins)

lemma ins_overwrite: "wf m \<Longrightarrow> ins k v (ins k v' m) = ins k v m"
  by (intro extensional) (auto simp: wf_ins find_ins)

end

text \<open>A map whose entries can be iterated, each key once.\<close>

locale iterable_map = string_map +
  fixes entries :: "'b \<Rightarrow> ('a \<times> 'c) list"
  assumes find_entries: "wf m \<Longrightarrow> map_of (entries m) k = find k m"
    and distinct_entries: "wf m \<Longrightarrow> distinct (map fst (entries m))"
begin

text \<open>Inserting the entries of a map into an empty map rebuilds it.\<close>

lemma rebuild:
  assumes "wf m"
  shows "fold (\<lambda>(k, v). ins k v) (entries m) empty = m"
proof (rule extensional)
  show "wf (fold (\<lambda>(k, v). ins k v) (entries m) empty)" by (rule wf_fold [OF wf_empty])
  show "wf m" by fact
  fix k
  have "map_of (rev (entries m)) = map_of (entries m)"
    using distinct_entries [OF assms]
    by (subst map_of_inject_set) (simp_all add: rev_map [symmetric])
  then show "find k (fold (\<lambda>(k, v). ins k v) (entries m) empty) = find k m"
    by (simp add: find_fold [OF wf_empty] find_empty find_entries assms split: option.split)
qed

end

subsection \<open>The sorted list implements it\<close>

lemma map_wf_Nil [simp]: "map_wf []"
  by (simp add: map_wf_def)

lemma map_wf_Cons: "map_wf ((k, v) # m) \<longleftrightarrow> (\<forall>k' \<in> fst ` set m. k < k') \<and> map_wf m"
  by (auto simp: map_wf_def)

lemma map_insert_keys: "fst ` set (map_insert k v m) = insert k (fst ` set m)"
  by (induction m) auto

lemma map_insert_wf: "map_wf m \<Longrightarrow> map_wf (map_insert k v m)"
proof (induction m)
  case Nil
  then show ?case by (simp add: map_wf_def)
next
  case (Cons e es)
  obtain k' v' where e: "e = (k', v')" by (cases e)
  show ?case
    using Cons by (auto simp: e map_wf_Cons map_insert_keys not_less_iff_gr_or_eq)
qed

lemma map_wf_notin: "map_wf ((k, v) # m) \<Longrightarrow> k' \<le> k \<Longrightarrow> map_of m k' = None"
  by (force simp: map_wf_Cons map_of_eq_None_iff)

lemma map_insert_find:
  "map_wf m \<Longrightarrow> map_find k (map_insert k' v m) = (if k = k' then Some v else map_find k m)"
proof (induction m)
  case Nil
  then show ?case by (simp add: map_find_def)
next
  case (Cons e es)
  obtain k0 v0 where e: "e = (k0, v0)" by (cases e)
  have tail: "k' < k0 \<Longrightarrow> map_of es k' = None"
    using Cons.prems by (auto simp: e intro: map_wf_notin)
  from Cons.prems have "map_wf es" by (simp add: e map_wf_Cons)
  then have "map_find k (map_insert k' v es) = (if k = k' then Some v else map_find k es)"
    by (rule Cons.IH)
  then show ?case
    using tail by (cases "k = k'") (auto simp: e map_find_def)
qed

lemma map_wf_extensional:
  "map_wf m \<Longrightarrow> map_wf m' \<Longrightarrow> (\<And>k. map_find k m = map_find k m') \<Longrightarrow> m = m'"
proof -
  assume wf: "map_wf m" "map_wf m'" and eq: "\<And>k. map_find k m = map_find k m'"
  have d: "distinct (map fst m)" "distinct (map fst m')"
    using wf by (auto simp: map_wf_def strict_sorted_iff)
  have "map_of m = map_of m'" using eq by (simp add: map_find_def fun_eq_iff)
  then have sets: "set m = set m'" using d by (simp add: map_of_inject_set)
  have "inj_on fst (set m \<union> set m')"
    using d(1) sets by (simp add: distinct_map)
  then show "m = m'"
    using d wf sets
    by (intro map_sorted_distinct_set_unique [where f = fst])
      (simp_all add: map_wf_def strict_sorted_iff)
qed

interpretation smap: iterable_map "[] :: ('k::linorder, 'v) std_map" map_find map_insert map_wf "\<lambda>m. m"
proof unfold_locales
  fix m m' :: "('k::linorder, 'v) std_map" and k k' :: 'k and v :: 'v
  show "map_find k ([] :: ('k, 'v) std_map) = None" by (simp add: map_find_def)
  show "map_wf ([] :: ('k, 'v) std_map)" by simp
  show "map_wf m \<Longrightarrow> map_find k (map_insert k' v m) = (if k = k' then Some v else map_find k m)"
    by (rule map_insert_find)
  show "map_wf m \<Longrightarrow> map_wf (map_insert k v m)" by (rule map_insert_wf)
  show "map_wf m \<Longrightarrow> map_wf m' \<Longrightarrow> (\<And>k. map_find k m = map_find k m') \<Longrightarrow> m = m'"
    by (rule map_wf_extensional)
  show "map_wf m \<Longrightarrow> map_of m k = map_find k m" by (simp add: map_find_def)
  show "map_wf m \<Longrightarrow> distinct (map fst m)" by (auto simp: map_wf_def strict_sorted_iff)
qed

subsection \<open>Lemmas for the clients\<close>

lemma map_insert_entry: "map_wf m \<Longrightarrow> (k, v) \<in> set (map_insert k v m)"
  by (induction m) (auto simp: map_wf_Cons)

lemma map_insert_set: "set (map_insert k v m) \<subseteq> insert (k, v) (set m)"
  by (induction m) auto

lemma map_insert_nonempty [simp]: "map_insert k v m \<noteq> []"
  by (cases m) auto

lemma map_push_wf [wf_intros]: "map_wf m \<Longrightarrow> map_wf (map_push k v m)"
  by (simp add: map_push_def map_insert_wf)

lemma map_push_find:
  "map_wf m \<Longrightarrow> map_find k (map_push k' v m) =
     (if k = k' then Some ((case map_find k m of None \<Rightarrow> [] | Some vs \<Rightarrow> vs) @ [v])
      else map_find k m)"
  by (simp add: map_push_def map_insert_find)

lemma map_push_nonempty [simp]: "map_push k v m \<noteq> []"
  by (simp add: map_push_def)

text \<open>A property of the pushed values, kept by every entry of the map.\<close>

lemma map_push_all:
  assumes "\<forall>(k, vs) \<in> set m. vs \<noteq> [] \<and> (\<forall>v \<in> set vs. P k v)" and "P k v"
  shows "\<forall>(k, vs) \<in> set (map_push k v m). vs \<noteq> [] \<and> (\<forall>v \<in> set vs. P k v)"
proof -
  define vs where "vs = (case map_find k m of None \<Rightarrow> [] | Some vs \<Rightarrow> vs) @ [v]"
  have old: "\<forall>v' \<in> set vs. P k v'"
  proof (cases "map_find k m")
    case None
    then show ?thesis using assms(2) by (simp add: vs_def)
  next
    case (Some us)
    then have "(k, us) \<in> set m" by (simp add: map_find_def map_of_SomeD)
    with assms Some show ?thesis by (auto simp: vs_def)
  qed
  have "set (map_insert k vs m) \<subseteq> insert (k, vs) (set m)" by (rule map_insert_set)
  moreover have "\<forall>(k', us) \<in> insert (k, vs) (set m). us \<noteq> [] \<and> (\<forall>u \<in> set us. P k' u)"
    using assms(1) old by (simp add: vs_def)
  ultimately show ?thesis
    unfolding map_push_def vs_def [symmetric] by blast
qed

lemma map_find_in: "map_find k m = Some v \<Longrightarrow> (k, v) \<in> set m"
  by (simp add: map_find_def map_of_SomeD)

text \<open>A multimap, flattened to its entries in order, is rebuilt by pushing them.\<close>

definition map_flat :: "('k, 'v list) std_map \<Rightarrow> ('k \<times> 'v) list" where
  "map_flat m = concat (map (\<lambda>(k, vs). map (Pair k) vs) m)"

lemma push_all_wf: "map_wf m \<Longrightarrow> map_wf (fold (\<lambda>(k, v). map_push k v) kvs m)"
  by (induction kvs arbitrary: m) (auto simp: map_push_wf split: prod.splits)

lemma push_all_find:
  "map_wf m \<Longrightarrow> map_find k (fold (\<lambda>(k, v). map_push k v) kvs m) =
     (let vs = map snd (filter (\<lambda>e. fst e = k) kvs)
      in if vs = [] then map_find k m
         else Some ((case map_find k m of None \<Rightarrow> [] | Some us \<Rightarrow> us) @ vs))"
  by (induction kvs arbitrary: m)
    (auto simp: map_push_wf map_push_find Let_def split: option.split)

lemma map_flat_at:
  "distinct (map fst m) \<Longrightarrow> map snd (filter (\<lambda>e. fst e = k) (map_flat m)) =
     (case map_of m k of None \<Rightarrow> [] | Some vs \<Rightarrow> vs)"
proof (induction m)
  case Nil
  then show ?case by (simp add: map_flat_def)
next
  case (Cons e m)
  obtain k' vs where e: "e = (k', vs)" by (cases e)
  have own: "filter (\<lambda>e. fst e = k) (map (Pair k') vs) = (if k' = k then map (Pair k') vs else [])"
    by (induction vs) auto
  have flat: "map_flat ((k', vs) # m) = map (Pair k') vs @ map_flat m" by (simp add: map_flat_def)
  have "k' = k \<Longrightarrow> map_of m k = None" using Cons.prems by (auto simp: e map_of_eq_None_iff)
  then show ?case
    using Cons by (auto simp: flat own e comp_def)
qed

lemma map_flat_rebuild:
  assumes "map_wf m" and "\<forall>(k, vs) \<in> set m. vs \<noteq> []"
  shows "fold (\<lambda>(k, v). map_push k v) (map_flat m) [] = m"
proof (rule map_wf_extensional [OF push_all_wf [OF map_wf_Nil] assms(1)])
  fix k
  have d: "distinct (map fst m)" using assms(1) by (auto simp: map_wf_def strict_sorted_iff)
  show "map_find k (fold (\<lambda>(k, v). map_push k v) (map_flat m) []) = map_find k m"
  proof (cases "map_of m k")
    case None
    then show ?thesis
      using push_all_find [of "[]" k "map_flat m"] by (simp add: map_flat_at [OF d] map_find_def)
  next
    case (Some vs)
    with assms(2) have "vs \<noteq> []" using map_of_SomeD by fastforce
    with Some show ?thesis
      using push_all_find [of "[]" k "map_flat m"] by (simp add: map_flat_at [OF d] map_find_def)
  qed
qed

end
