(* ===== verification/Res.thy ===== *)
theory Res
  imports Prelude
begin

text \<open>
  \<open>ft::Res<T, E>\<close> of \<open>async-core/util/Result.hpp\<close>: a value or an error. The class keeps
  a \<open>std::variant\<close> and a flag \<open>_is_ok\<close>; each public constructor sets both together, so
  the pair is one datatype. The accessors throw \<open>std::bad_variant_access\<close> on the other
  alternative.
\<close>

section \<open>Results\<close>

datatype ('t, 'e) res = Ok 't | Err 'e

fun is_ok :: "('t, 'e) res \<Rightarrow> bool" where
  "is_ok (Ok v) = True"
| "is_ok (Err e) = False"

fun is_err :: "('t, 'e) res \<Rightarrow> bool" where
  "is_err r = (\<not> is_ok r)"

fun get_val :: "('t, 'e) res \<Rightarrow> 't outcome" where
  "get_val (Ok v) = Returns v"
| "get_val (Err e) = Throws Bad_variant_access"

fun get_err :: "('t, 'e) res \<Rightarrow> 'e outcome" where
  "get_err (Ok v) = Throws Bad_variant_access"
| "get_err (Err e) = Returns e"

fun map_res :: "('t, 'e) res \<Rightarrow> ('t \<Rightarrow> 'r) \<Rightarrow> ('r, 'e) res" where
  "map_res (Ok v) f = Ok (f v)"
| "map_res (Err e) f = Err e"

fun flat_map :: "('t, 'e) res \<Rightarrow> ('t \<Rightarrow> ('r, 'e) res) \<Rightarrow> ('r, 'e) res" where
  "flat_map (Ok v) f = f v"
| "flat_map (Err e) f = Err e"

fun or_default :: "('t, 'e) res \<Rightarrow> 't \<Rightarrow> 't" where
  "or_default (Ok v) d = v"
| "or_default (Err e) d = d"

fun ok_opt :: "('t, 'e) res \<Rightarrow> 't option" where
  "ok_opt (Ok v) = Some v"
| "ok_opt (Err e) = None"

text \<open>
  \<open>err()\<close> is declared with the result type \<open>std::optional<T>\<close>, not \<open>std::optional<E>\<close>:
  it compiles only where \<open>E\<close> converts to \<open>T\<close>, and then returns the converted error. The
  conversion is an argument.
\<close>

fun err_opt :: "('e \<Rightarrow> 't) \<Rightarrow> ('t, 'e) res \<Rightarrow> 't option" where
  "err_opt conv (Ok v) = None"
| "err_opt conv (Err e) = Some (conv e)"

lemma flat_map_cong [fundef_cong]:
  "m = m' \<Longrightarrow> (\<And>a. m' = Ok a \<Longrightarrow> f a = g a) \<Longrightarrow> flat_map m f = flat_map m' g"
  by (cases m') auto

lemma flat_map_Ok_iff: "flat_map m f = Ok b \<longleftrightarrow> (\<exists>a. m = Ok a \<and> f a = Ok b)"
  by (cases m) auto

lemma flat_map_Err_iff:
  "flat_map m f = Err e \<longleftrightarrow> m = Err e \<or> (\<exists>a. m = Ok a \<and> f a = Err e)"
  by (cases m) auto

text \<open>Visiting the elements of a vector in order, stopping at the first error.\<close>

fun fold_res :: "('a \<Rightarrow> 's \<Rightarrow> ('s, 'e) res) \<Rightarrow> 'a list \<Rightarrow> 's \<Rightarrow> ('s, 'e) res" where
  "fold_res f [] s = Ok s"
| "fold_res f (x # xs) s = flat_map (f x s) (fold_res f xs)"

lemma fold_res_append:
  "fold_res f (xs @ ys) s = flat_map (fold_res f xs s) (fold_res f ys)"
proof (induction xs arbitrary: s)
  case Nil
  then show ?case by simp
next
  case (Cons x xs)
  then show ?case by (cases "f x s") auto
qed

lemma fold_res_invariant:
  assumes "fold_res f xs s = Ok t" and "P s"
    and "\<And>x s s'. x \<in> set xs \<Longrightarrow> P s \<Longrightarrow> f x s = Ok s' \<Longrightarrow> P s'"
  shows "P t"
  using assms
proof (induction xs arbitrary: s)
  case Nil
  then show ?case by simp
next
  case (Cons x xs)
  from Cons.prems(1) obtain s' where s': "f x s = Ok s'" and rest: "fold_res f xs s' = Ok t"
    by (auto simp: flat_map_Ok_iff)
  have "P s'" using Cons.prems(2,3) s' by (meson list.set_intros(1))
  with Cons.IH [OF rest] Cons.prems(3) show ?case by (meson list.set_intros(2))
qed

text \<open>
  The combinators of \<open>Res\<close> are lawful and total on both alternatives. Chaining
  \<open>flat_map\<close> is associative, \<open>map\<close> is \<open>flat_map\<close> with a wrapped function and keeps the
  alternative, and of the two accessors exactly one returns while the other throws
  \<open>bad_variant_access\<close>, as the flag \<open>is_ok\<close> says.
\<close>

lemma res_combinators:
  "flat_map (flat_map r f) g = flat_map r (\<lambda>v. flat_map (f v) g) \<and>
   map_res r h = flat_map r (\<lambda>v. Ok (h v)) \<and>
   is_ok (map_res r h) = is_ok r \<and>
   get_val r = (if is_ok r then Returns (or_default r d) else Throws Bad_variant_access) \<and>
   (get_err r = Throws Bad_variant_access) = is_ok r \<and>
   ok_opt r = (if is_err r then None else Some (or_default r d))"
  by (cases r) auto

end
