(* ===== verification/Io_Error.thy ===== *)
theory Io_Error
  imports Res
begin

text \<open>
  The error types: \<open>ft::io::Error\<close> with its conversion from \<open>errno\<close> and its
  descriptions (\<open>async-core/io/error\<close>), and \<open>ft::http::Error\<close>
  (\<open>http/error/Result.hpp\<close>), which holds a kind and, for I/O failures, an
  \<open>ft::io::Error\<close>.
\<close>

section \<open>Errors\<close>

datatype io_error =
    IO_UNDEFINED
  | CONNECTION_ABORTED
  | INTERRUPTED
  | OPEN_FD_LIMIT_PROC
  | OPEN_FD_LIMIT_SYS
  | BUF_OUT_MEMORY
  | LOGIC
  | PORT_ALREADY_USE
  | AGAIN
  | CONNECTION_CLOSED

fun error_code :: "io_error \<Rightarrow> nat" where
  "error_code IO_UNDEFINED = 0"
| "error_code CONNECTION_ABORTED = 1"
| "error_code INTERRUPTED = 2"
| "error_code OPEN_FD_LIMIT_PROC = 3"
| "error_code OPEN_FD_LIMIT_SYS = 4"
| "error_code BUF_OUT_MEMORY = 5"
| "error_code LOGIC = 6"
| "error_code PORT_ALREADY_USE = 7"
| "error_code AGAIN = 8"
| "error_code CONNECTION_CLOSED = 9"

text \<open>The enumerators are ordered by their values, as a C++ scoped enumeration compares.\<close>

lemma error_code_inject: "error_code a = error_code b \<Longrightarrow> a = b"
  by (cases a; cases b) simp_all

instantiation io_error :: linorder
begin

definition less_eq_io_error :: "io_error \<Rightarrow> io_error \<Rightarrow> bool" where
  "less_eq_io_error a b \<longleftrightarrow> error_code a \<le> error_code b"

definition less_io_error :: "io_error \<Rightarrow> io_error \<Rightarrow> bool" where
  "less_io_error a b \<longleftrightarrow> error_code a < error_code b"

instance
proof
  fix a b :: io_error
  show "a \<le> b \<Longrightarrow> b \<le> a \<Longrightarrow> a = b"
    by (simp add: less_eq_io_error_def error_code_inject)
qed (auto simp: less_eq_io_error_def less_io_error_def)

end

definition io_descriptions :: "string list" where
  "io_descriptions =
     [''undefined error'',
      ''a connection has been aborted'',
      ''the system call was interrupted by a signal'',
      ''the per-process limit on the number of open fd has been reached'',
      ''the system-wide limit on the total number of open files has been reached'',
      ''Not enough free memory'',
      ''logic error'',
      ''given port already in use'',
      ''eagain'',
      ''connection was closed'']"

text \<open>An index outside the table would be an out-of-bounds read.\<close>

definition error_description :: "io_error \<Rightarrow> string outcome" where
  "error_description e =
     (if error_code e < length io_descriptions
      then Returns (io_descriptions ! error_code e) else Undefined)"

text \<open>The values of the \<open>errno\<close> macros on the build platform (Linux).\<close>

definition ECONNABORTED :: int where "ECONNABORTED = 103"
definition EINTR :: int where "EINTR = 4"
definition EMFILE :: int where "EMFILE = 24"
definition ENFILE :: int where "ENFILE = 23"
definition ENOMEM :: int where "ENOMEM = 12"
definition EADDRINUSE :: int where "EADDRINUSE = 98"
definition EAGAIN :: int where "EAGAIN = 11"
definition EINVAL :: int where "EINVAL = 22"
definition EBADF :: int where "EBADF = 9"
definition ENOTSOCK :: int where "ENOTSOCK = 88"

lemmas errno_defs = ECONNABORTED_def EINTR_def EMFILE_def ENFILE_def ENOMEM_def
  EADDRINUSE_def EAGAIN_def EINVAL_def EBADF_def ENOTSOCK_def

definition from_errno :: "int \<Rightarrow> io_error" where
  "from_errno err =
     (if err = ECONNABORTED then CONNECTION_ABORTED
      else if err = EINTR then INTERRUPTED
      else if err = EMFILE then OPEN_FD_LIMIT_PROC
      else if err = ENFILE then OPEN_FD_LIMIT_SYS
      else if err = ENOMEM then BUF_OUT_MEMORY
      else if err = EADDRINUSE then PORT_ALREADY_USE
      else if err = EAGAIN then AGAIN
      else if err = EINVAL \<or> err = EBADF \<or> err = ENOTSOCK then LOGIC
      else IO_UNDEFINED)"

text \<open>The result of \<open>read\<close> or \<open>write\<close>: a byte count, or \<open>-1\<close> with the value of \<open>errno\<close>.\<close>

datatype 'a sys = Sys_ok 'a | Sys_errno int

subsection \<open>HTTP errors\<close>

datatype http_err =
    HTTP_REQUEST_PARSE
  | HTTP_RESPONSE_PARSE
  | UNDEFINED
  | INCOMPLETE
  | INVALID_STATUC_CODE
  | IO_ERROR

record http_error =
  kind :: http_err
  io_err :: io_error

definition http_error_of_io :: "io_error \<Rightarrow> http_error" where
  "http_error_of_io e = \<lparr>kind = IO_ERROR, io_err = e\<rparr>"

definition http_error_of :: "http_err \<Rightarrow> http_error" where
  "http_error_of k = \<lparr>kind = k, io_err = IO_UNDEFINED\<rparr>"

text \<open>
  Error reporting is total. Every error has a description (the table is never
  read out of bounds) and different errors have different ones; every \<open>errno\<close> value
  converts to an error, and the conversion never yields \<open>CONNECTION_CLOSED\<close>, which is kept
  for closed peers, so the two causes stay apart.
\<close>

lemma error_descriptions_total:
  "(\<exists>d. error_description e = Returns d) \<and>
   (error_description e = error_description e' \<longleftrightarrow> e = e') \<and>
   from_errno n \<noteq> CONNECTION_CLOSED"
proof (intro conjI)
  show "\<exists>d. error_description e = Returns d"
    by (cases e) (simp_all add: error_description_def io_descriptions_def)
  show "error_description e = error_description e' \<longleftrightarrow> e = e'"
    by (cases e; cases e') (simp_all add: error_description_def io_descriptions_def)
  show "from_errno n \<noteq> CONNECTION_CLOSED"
    by (simp add: from_errno_def)
qed

end
