(* ===== verification/Event.thy ===== *)
theory Event
  imports Prelude
begin

text \<open>
  \<open>ft::io::detail::_event\<close> of \<open>low-lewel/event.hpp\<close>: a file descriptor and an event type
  packed in 64 bits, the descriptor above, the type below. Descriptors are the 32-bit
  \<open>int\<close> of the code; \<open>static_cast<uint64_t>(fd)\<close> sign-extends. The conversion back to
  the enumeration keeps the low 32 bits (the enumeration's underlying type is
  \<open>unsigned int\<close>); a value that is no enumerator is \<open>None\<close>.
\<close>

section \<open>Events\<close>

unbundle bit_operations_syntax

type_synonym fd = "32 word"

datatype event_type = TO_READ | TO_WRITE | TO_ACCEPT | CLOSED | ERROR

fun type_code :: "event_type \<Rightarrow> nat" where
  "type_code TO_READ = 0"
| "type_code TO_WRITE = 1"
| "type_code TO_ACCEPT = 2"
| "type_code CLOSED = 3"
| "type_code ERROR = 4"

definition type_of_code :: "32 word \<Rightarrow> event_type option" where
  "type_of_code w =
     (if w = 0 then Some TO_READ else if w = 1 then Some TO_WRITE
      else if w = 2 then Some TO_ACCEPT else if w = 3 then Some CLOSED
      else if w = 4 then Some ERROR else None)"

definition mk_event :: "fd \<Rightarrow> event_type \<Rightarrow> 64 word" where
  "mk_event fd t = word_of_nat (type_code t) OR push_bit 32 (scast fd)"

definition event_fd :: "64 word \<Rightarrow> fd" where
  "event_fd data = ucast (drop_bit 32 data)"

definition right_half :: "64 word" where
  "right_half = push_bit 33 2 - 1"

definition masked_type :: "64 word \<Rightarrow> 64 word" where
  "masked_type data = data AND right_half"

definition event_type :: "64 word \<Rightarrow> event_type option" where
  "event_type data = type_of_code (ucast (masked_type data))"

lemma right_half_mask: "right_half = mask 34"
  by (simp add: right_half_def mask_eq_exp_minus_1)

lemma type_code_small: "type_code t < 8"
  by (cases t) simp_all

lemma type_code_high_bits: "3 \<le> i \<Longrightarrow> \<not> bit (type_code t) i"
proof -
  assume "3 \<le> i"
  then have "(2::nat) ^ 3 \<le> 2 ^ i" by (rule power_increasing) simp
  then have "type_code t < 2 ^ i" using type_code_small [of t] by simp
  then show ?thesis by (simp add: bit_iff_odd)
qed

lemma event_fd_mk: "event_fd (mk_event fd t) = fd"
proof (rule bit_word_eqI)
  fix i :: nat
  assume "i < LENGTH(32)"
  then show "bit (event_fd (mk_event fd t)) i = bit fd i"
    by (simp add: event_fd_def mk_event_def bit_simps type_code_high_bits)
qed

lemma event_type_mk: "event_type (mk_event fd t) = Some t"
proof -
  have "(ucast (masked_type (mk_event fd t)) :: 32 word) = word_of_nat (type_code t)"
  proof (rule bit_word_eqI)
    fix i :: nat
    assume "i < LENGTH(32)"
    then have i: "i < 32" by simp
    have "bit (word_of_nat (type_code t) :: 64 word) i = bit (word_of_nat (type_code t) :: 32 word) i"
      using i by (cases t) (simp_all add: bit_simps)
    then show "bit (ucast (masked_type (mk_event fd t)) :: 32 word) i
        = bit (word_of_nat (type_code t) :: 32 word) i"
      using i by (simp add: masked_type_def mk_event_def right_half_mask bit_simps)
  qed
  then show ?thesis by (cases t) (simp_all add: event_type_def type_of_code_def)
qed

text \<open>
  Packing an event loses nothing. For every 32-bit descriptor, negative ones
  included, and every event type, the accessors give back the descriptor and the type.
\<close>

lemma event_roundtrip:
  "event_fd (mk_event fd t) = fd \<and> event_type (mk_event fd t) = Some t"
  by (simp add: event_fd_mk event_type_mk)

text \<open>
  The mask \<open>right_half\<close> is 34 bits wide, not the 32 its comment says. The masked
  value that \<open>event_type()\<close> casts therefore holds the two low bits of the descriptor above
  the type: it is the type's own value exactly for the descriptors divisible by four, and
  it is the narrowing of the cast that discards the rest.
\<close>

lemma event_mask_width:
  "right_half = mask 34 \<and>
   (masked_type (mk_event fd t) = word_of_nat (type_code t) \<longleftrightarrow> fd AND 3 = 0)"
proof
  show "right_half = mask 34" by (rule right_half_mask)
  have bits: "bit (masked_type (mk_event fd t)) i =
      (bit (type_code t) i \<or> 32 \<le> i \<and> i < 34 \<and> bit fd (i - 32))" for i
    using type_code_high_bits [of i t]
    by (cases "i < 64"; cases "3 \<le> i")
      (auto simp: masked_type_def mk_event_def right_half_mask bit_simps)
  have three: "(3 :: fd) = mask 2" by (simp add: mask_eq_exp_minus_1)
  have "bit (fd AND 3) i \<longleftrightarrow> bit fd i \<and> i < 2" for i
    unfolding three by (auto simp: bit_simps)
  then have "fd AND 3 = 0 \<longleftrightarrow> (\<forall>i < 2. \<not> bit fd i)"
    by (metis bit_0_eq bot_apply bot_bool_def bit_word_eqI)
  then have low: "fd AND 3 = 0 \<longleftrightarrow> \<not> bit fd 0 \<and> \<not> bit fd 1"
    by (auto simp: less_2_cases_iff)
  show "masked_type (mk_event fd t) = word_of_nat (type_code t) \<longleftrightarrow> fd AND 3 = 0"
  proof
    assume eq: "masked_type (mk_event fd t) = word_of_nat (type_code t)"
    show "fd AND 3 = 0"
      using bits [of 32] bits [of 33] type_code_high_bits [of 32 t] type_code_high_bits [of 33 t]
      by (simp add: eq low bit_simps)
  next
    assume "fd AND 3 = 0"
    then show "masked_type (mk_event fd t) = word_of_nat (type_code t)"
      unfolding low
    proof (intro bit_word_eqI)
      fix i :: nat
      assume nb: "\<not> bit fd 0 \<and> \<not> bit fd 1" and i: "i < LENGTH(64)"
      have "\<not> (32 \<le> i \<and> i < 34 \<and> bit fd (i - 32))"
      proof
        assume a: "32 \<le> i \<and> i < 34 \<and> bit fd (i - 32)"
        then have "i = 32 \<or> i = 33" by linarith
        with a nb show False by auto
      qed
      with i show "bit (masked_type (mk_event fd t)) i = bit (word_of_nat (type_code t) :: 64 word) i"
        by (auto simp: bits bit_simps)
    qed
  qed
qed

end
