(* ===== verification/Entity.thy ===== *)
theory Entity
  imports Io_Error
begin

text \<open>
  The interfaces of \<open>async-core/io/EntityConcepts.hpp\<close>: the C++ concepts
  \<open>EntityCreator\<close> (a state machine that is fed received data until it is \<open>READY\<close> and then
  yields an entity) and \<open>EntitySerializer\<close> (a state machine that yields the parts of a
  message until it is \<open>READY\<close>), as locales. A concept of the code names the operations;
  the laws here are what \<open>FutRead\<close> and \<open>FutWrite\<close> rely on and what the HTTP parsers and
  serializers are shown to provide.
\<close>

section \<open>Entity creators and serializers\<close>

datatype io_state = PENDING | READY

text \<open>
  What a creator may see of the memory around its buffers, where the code reads outside
  them: the byte before the chunk it is given, and the bytes that follow its own buffer of
  unhandled data, up to the first NUL. A memory is \<open>tame\<close> when a NUL follows that buffer.
\<close>

record mem =
  before_chunk :: char
  after_pending :: string

definition tame :: "mem \<Rightarrow> bool" where
  "tame m \<longleftrightarrow> after_pending m = []"

locale entity_serializer =
  fixes get_data :: "'s \<Rightarrow> bytes \<times> 's"
    and state :: "'s \<Rightarrow> io_state"
    and parts :: "'s \<Rightarrow> bytes list"
  assumes ready_iff: "state s = READY \<longleftrightarrow> parts s = []"
    and get_part: "parts s = d # ds \<Longrightarrow> \<exists>s'. get_data s = (d, s') \<and> parts s' = ds"
begin

lemma pending_get:
  assumes "state s = PENDING"
  obtains d s' where "get_data s = (d, s')" and "parts s = d # parts s'"
proof (cases "parts s")
  case Nil
  with assms show ?thesis by (metis io_state.distinct(1) ready_iff)
next
  case (Cons d ds)
  with get_part [OF this] that show ?thesis by metis
qed

end

text \<open>
  A creator is fed chunks. \<open>wf\<close> is the invariant of its states, \<open>cut c y\<close> says that the
  creator, in state \<open>c\<close> after a chunk, may be given \<open>y\<close> as its next one. The laws: pending
  creators cannot tell two chunks from their concatenation, and once a creator has ended
  (ready, or by an exception) more data does not change the outcome.
\<close>

locale entity_creator =
  fixes feed :: "mem \<Rightarrow> bytes \<Rightarrow> 'c \<Rightarrow> (io_state \<times> 'c) outcome"
    and wf :: "'c \<Rightarrow> bool"
    and cut :: "'c \<Rightarrow> bytes \<Rightarrow> bool"
  assumes feed_wf: "wf c \<Longrightarrow> feed m x c = Returns (st, c') \<Longrightarrow> wf c'"
    and feed_append:
      "wf c \<Longrightarrow> tame m \<Longrightarrow> tame m' \<Longrightarrow> feed m x c = Returns (PENDING, c') \<Longrightarrow> cut c' y \<Longrightarrow>
         feed m' y c' = feed m (x @ y) c"
    and feed_final:
      "wf c \<Longrightarrow> tame m \<Longrightarrow> (\<And>c'. feed m x c \<noteq> Returns (PENDING, c')) \<Longrightarrow>
         feed m (x @ y) c = feed m x c"
    and cut_prefix: "cut c (y @ z) \<Longrightarrow> cut c y"

end
