(* ===== verification/Fut_Io.thy ===== *)
theory Fut_Io
  imports Entity Event
begin

text \<open>
  The asynchronous readers and writers, \<open>async-core/io/FutRead.hpp\<close> and
  \<open>FutWrite.hpp\<close>, over the \<open>read_part\<close> and \<open>write_part\<close> of a socket or a pipe. Each of
  these functions registers a handler, and its continuation runs when the event loop calls
  the handler. A run is therefore a function of the list of wake-ups the operation gets: the
  event, and what the system call of the handler returned. The list running out means the
  future is still pending (\<open>None\<close>).

  A \<open>write\<close> wake-up holds the number of bytes the kernel has room for; \<open>write(2)\<close> takes at
  most that many and at most what it is given.
\<close>

section \<open>Reading and writing entities\<close>

subsection \<open>One system call\<close>

definition FT_BUFFER_SIZE :: nat where "FT_BUFFER_SIZE = 4096"

definition socket_read_part :: "bytes sys \<Rightarrow> (bytes, io_error) res" where
  "socket_read_part r =
     (case r of
        Sys_errno n \<Rightarrow> if n = EAGAIN then Ok [] else Err (from_errno n)
      | Sys_ok data \<Rightarrow> Ok data)"

definition socket_write_part :: "nat sys \<Rightarrow> nat \<Rightarrow> (nat, io_error) res" where
  "socket_write_part r buf_size =
     (case r of
        Sys_errno n \<Rightarrow> if n = EAGAIN then Ok 0 else Err (from_errno n)
      | Sys_ok room \<Rightarrow> Ok (min room buf_size))"

text \<open>The ends of a pipe do the same, so that the loops below serve both.\<close>

definition pipe_read_part :: "bytes sys \<Rightarrow> (bytes, io_error) res" where
  "pipe_read_part r =
     (case r of
        Sys_errno n \<Rightarrow> if n = EAGAIN then Ok [] else Err (from_errno n)
      | Sys_ok data \<Rightarrow> Ok data)"

definition pipe_write_part :: "nat sys \<Rightarrow> nat \<Rightarrow> (nat, io_error) res" where
  "pipe_write_part r buf_size =
     (case r of
        Sys_errno n \<Rightarrow> if n = EAGAIN then Ok 0 else Err (from_errno n)
      | Sys_ok room \<Rightarrow> Ok (min room buf_size))"

lemma pipe_parts: "pipe_read_part = socket_read_part" "pipe_write_part = socket_write_part"
  by (simp_all add: fun_eq_iff pipe_read_part_def socket_read_part_def pipe_write_part_def socket_write_part_def)

subsection \<open>One wake-up\<close>

record read_wakeup =
  r_event :: event_type
  r_result :: "bytes sys"
  r_mem :: mem

type_synonym write_wakeup = "event_type \<times> nat sys"

definition read_part :: "read_wakeup \<Rightarrow> (bytes, io_error) res" where
  "read_part w =
     (if r_event w = CLOSED then Err CONNECTION_CLOSED
      else if r_event w = ERROR then Err IO_UNDEFINED
      else socket_read_part (r_result w))"

definition write_part :: "write_wakeup \<Rightarrow> nat \<Rightarrow> (nat, io_error) res" where
  "write_part w count =
     (if fst w = CLOSED then Err CONNECTION_CLOSED
      else if fst w = ERROR then Err IO_UNDEFINED
      else socket_write_part (snd w) count)"

subsection \<open>The loops\<close>

fun read_until ::
  "read_wakeup list \<Rightarrow> (bytes \<Rightarrow> bool) \<Rightarrow> bytes \<Rightarrow> (bytes, io_error) res option" where
  "read_until [] predicate received = None"
| "read_until (w # ws) predicate received =
     (case read_part w of
        Err e \<Rightarrow> Some (Err e)
      | Ok part \<Rightarrow>
          if \<not> predicate (received @ part) then read_until ws predicate (received @ part)
          else Some (Ok (received @ part)))"

fun read_entity ::
  "(mem \<Rightarrow> bytes \<Rightarrow> 'c \<Rightarrow> (io_state \<times> 'c) outcome) \<Rightarrow> ('c \<Rightarrow> ('e, 'err) res outcome) \<Rightarrow>
   (io_error \<Rightarrow> 'err) \<Rightarrow> read_wakeup list \<Rightarrow> 'c \<Rightarrow> ('e, 'err) res outcome option" where
  "read_entity creator create_entity Error [] c = None"
| "read_entity creator create_entity Error (w # ws) c =
     (case read_part w of
        Err e \<Rightarrow> Some (Returns (Err (Error e)))
      | Ok data \<Rightarrow>
         (case creator (r_mem w) data c of
            Throws x \<Rightarrow> Some (Throws x)
          | Undefined \<Rightarrow> Some Undefined
          | Returns (PENDING, c) \<Rightarrow> read_entity creator create_entity Error ws c
          | Returns (READY, c) \<Rightarrow> Some (create_entity c)))"

text \<open>
  \<open>out\<close> is what the kernel has taken so far. The recursive call of \<open>write_all\<close> passes no
  \<open>sended\<close>, so the parameter's default, 0, applies.
\<close>

fun write_all ::
  "write_wakeup list \<Rightarrow> bytes \<Rightarrow> nat \<Rightarrow> nat \<Rightarrow> bytes \<Rightarrow>
   (nat, io_error) res option \<times> bytes \<times> write_wakeup list" where
  "write_all [] d from_pos sended out = (None, out, [])"
| "write_all (w # ws) d from_pos sended out =
     (case write_part w (length d - from_pos) of
        Err e \<Rightarrow> (Some (Err e), out, ws)
      | Ok send_cnt \<Rightarrow>
          let out = out @ take send_cnt (drop from_pos d);
              sended = sended + send_cnt
          in if from_pos + send_cnt \<noteq> length d then write_all ws d (from_pos + send_cnt) 0 out
             else (Some (Ok sended), out, ws))"

lemma write_all_progress:
  "write_all ws d from_pos sended out = (Some r, out', ws') \<Longrightarrow> length ws' < length ws"
  by (induction ws d from_pos sended out rule: write_all.induct)
    (auto simp: Let_def split: res.splits if_splits intro: less_SucI)

function write_entity ::
  "('s \<Rightarrow> bytes \<times> 's) \<Rightarrow> ('s \<Rightarrow> io_state) \<Rightarrow> write_wakeup list \<Rightarrow> 's \<Rightarrow> nat \<Rightarrow> bytes \<Rightarrow>
   (nat, io_error) res option \<times> bytes \<times> write_wakeup list" where
  "write_entity get_data state ws serializer sended out =
     (case state serializer of
        READY \<Rightarrow> (Some (Ok sended), out, ws)
      | PENDING \<Rightarrow>
          let (data, serializer) = get_data serializer in
          (case write_all ws data 0 0 out of
             (None, out, ws) \<Rightarrow> (None, out, ws)
           | (Some (Err e), out, ws) \<Rightarrow> (Some (Err e), out, ws)
           | (Some (Ok _), out, ws) \<Rightarrow> write_entity get_data state ws serializer sended out))"
  by pat_completeness auto
termination
  by (relation "measure (\<lambda>(g, st, ws, s, n, out). length ws)") (auto dest!: write_all_progress [OF sym])

declare write_entity.simps [simp del]

subsection \<open>What a write sends\<close>

text \<open>Whatever happens, the kernel has taken a prefix of the data; on success all of it.\<close>

lemma write_part_bound: "write_part w n = Ok k \<Longrightarrow> k \<le> n"
  by (auto simp: write_part_def socket_write_part_def split: if_splits sys.splits)

lemma write_all_sends:
  assumes "write_all ws d from_pos sended out = (r, out', ws')" and "from_pos \<le> length d"
  shows "\<exists>k. out' = out @ take k (drop from_pos d) \<and>
    (\<forall>n. r = Some (Ok n) \<longrightarrow> out' = out @ drop from_pos d)"
  using assms
proof (induction ws arbitrary: from_pos sended out)
  case Nil
  then show ?case by auto
next
  case (Cons w ws)
  show ?case
  proof (cases "write_part w (length d - from_pos)")
    case (Err e)
    with Cons.prems show ?thesis by auto
  next
    case (Ok n)
    then have n: "from_pos + n \<le> length d" using write_part_bound [OF Ok] Cons.prems(2) by simp
    show ?thesis
    proof (cases "from_pos + n = length d")
      case True
      with Ok Cons.prems(1) have "out' = out @ take n (drop from_pos d)" by simp
      moreover have "take n (drop from_pos d) = drop from_pos d" using True by simp
      ultimately show ?thesis by metis
    next
      case False
      with Ok Cons.prems(1)
      have "write_all ws d (from_pos + n) 0 (out @ take n (drop from_pos d)) = (r, out', ws')" by simp
      from Cons.IH [OF this n] obtain k where
        k: "out' = (out @ take n (drop from_pos d)) @ take k (drop (from_pos + n) d)"
          "\<forall>m. r = Some (Ok m) \<longrightarrow> out' = (out @ take n (drop from_pos d)) @ drop (from_pos + n) d"
        by blast
      have "take (n + k) (drop from_pos d) = take n (drop from_pos d) @ take k (drop (from_pos + n) d)"
        using take_add [of n k "drop from_pos d"] by (simp add: add.commute)
      moreover have "take n (drop from_pos d) @ drop (from_pos + n) d = drop from_pos d"
        by (metis add.commute append_take_drop_id drop_drop)
      ultimately show ?thesis using k by (metis append_assoc)
    qed
  qed
qed

text \<open>Progress: with room at every wake-up, as many wake-ups as bytes (and one) are enough.\<close>

definition has_room :: "write_wakeup \<Rightarrow> bool" where
  "has_room w \<longleftrightarrow> fst w = TO_WRITE \<and> (\<exists>n > 0. snd w = Sys_ok n)"

lemma write_all_enough:
  assumes "list_all has_room ws" and "length d - from_pos < length ws" and "from_pos \<le> length d"
  shows "\<exists>n out' ws'. write_all ws d from_pos sended out = (Some (Ok n), out', ws') \<and>
    list_all has_room ws' \<and> length ws \<le> length ws' + max 1 (length d - from_pos)"
  using assms
proof (induction ws arbitrary: from_pos sended out)
  case Nil
  then show ?case by simp
next
  case (Cons w ws)
  from Cons.prems(1) obtain room where room: "0 < room" "w = (TO_WRITE, Sys_ok room)"
    by (cases w) (auto simp: has_room_def)
  define n where "n = min room (length d - from_pos)"
  have part: "write_part w (length d - from_pos) = Ok n"
    by (simp add: write_part_def socket_write_part_def room n_def)
  show ?case
  proof (cases "from_pos + n = length d")
    case True
    with part Cons.prems(1) show ?thesis by auto
  next
    case False
    then have pos: "0 < n" "from_pos + n \<le> length d" using room Cons.prems(3) by (auto simp: n_def)
    then have "length d - (from_pos + n) < length ws" using Cons.prems(2) False by simp
    from Cons.IH [OF _ this pos(2)] Cons.prems(1) obtain m out' ws' where
      w: "write_all ws d (from_pos + n) 0 (out @ take n (drop from_pos d)) = (Some (Ok m), out', ws')"
        "list_all has_room ws'" "length ws \<le> length ws' + max 1 (length d - (from_pos + n))"
      by auto metis
    then show ?thesis
      using part False pos by (intro exI [of _ m] exI [of _ out'] exI [of _ ws']) (auto simp: Let_def)
  qed
qed

context entity_serializer
begin

text \<open>
  An entity is written part by part: what went out is a prefix of its bytes, on success all
  of them. The returned count is the one the call started with.
\<close>

lemma write_entity_sends:
  assumes "write_entity get_data state ws s sended out = (r, out', ws')"
  shows "\<exists>k. out' = out @ take k (concat (parts s)) \<and>
    (\<forall>n. r = Some (Ok n) \<longrightarrow> n = sended \<and> out' = out @ concat (parts s))"
  using assms
proof (induction "length ws" arbitrary: ws s out rule: less_induct)
  case less
  show ?case
  proof (cases "state s")
    case READY
    then have "parts s = []" by (simp add: ready_iff)
    with READY less.prems show ?thesis by (subst (asm) write_entity.simps) auto
  next
    case PENDING
    obtain d s' where get: "get_data s = (d, s')" and parts: "parts s = d # parts s'"
      using pending_get [OF PENDING] .
    obtain q o2 ws2 where wa: "write_all ws d 0 0 out = (q, o2, ws2)" by (cases "write_all ws d 0 0 out")
    from write_all_sends [OF wa] obtain k where
      k: "o2 = out @ take k d" "\<forall>n. q = Some (Ok n) \<longrightarrow> o2 = out @ d" unfolding drop_0 by blast
    have take: "\<exists>j. take k d = take j (concat (parts s))"
      by (rule exI [of _ "min k (length d)"]) (simp add: parts min_def)
    show ?thesis
    proof (cases "\<exists>n. q = Some (Ok n)")
      case True
      then obtain n where q: "q = Some (Ok n)" by blast
      with less.prems PENDING get wa
      have rec: "write_entity get_data state ws2 s' sended o2 = (r, out', ws')"
        by (subst (asm) write_entity.simps) simp
      have "length ws2 < length ws" using wa q by (auto dest: write_all_progress)
      from less.hyps [OF this rec] obtain j where
        j: "out' = o2 @ take j (concat (parts s'))"
          "\<forall>n. r = Some (Ok n) \<longrightarrow> n = sended \<and> out' = o2 @ concat (parts s')" by blast
      have "d @ take j (concat (parts s')) = take (length d + j) (concat (parts s))"
        by (simp add: parts)
      then show ?thesis using j k(2) q parts by (metis append_assoc concat.simps(2))
    next
      case False
      with less.prems PENDING get wa have "out' = o2 \<and> (\<forall>n. r \<noteq> Some (Ok n))"
        by (subst (asm) write_entity.simps) (auto split: option.splits res.splits)
      with k(1) take show ?thesis by auto
    qed
  qed
qed

text \<open>Enough wake-ups with room complete the write.\<close>

lemma write_entity_enough:
  assumes "list_all has_room ws"
    and "sum_list (map (\<lambda>d. max 1 (length d)) (parts s)) < length ws"
  shows "\<exists>out' ws'. write_entity get_data state ws s sended out = (Some (Ok sended), out', ws')"
  using assms
proof (induction "parts s" arbitrary: s ws out)
  case Nil
  then have "state s = READY" by (simp add: ready_iff)
  then show ?case by (subst write_entity.simps) simp
next
  case (Cons d ds)
  then have "state s = PENDING"
    using ready_iff by (metis io_state.exhaust list.distinct(1))
  obtain s' where get: "get_data s = (d, s')" and ds: "parts s' = ds"
    using get_part [OF Cons.hyps(2) [symmetric]] by blast
  have len: "length d - 0 < length ws" using Cons.prems(2) Cons.hyps(2) [symmetric] by simp
  obtain n o2 ws2 where w: "write_all ws d 0 0 out = (Some (Ok n), o2, ws2)"
    "list_all has_room ws2" "length ws \<le> length ws2 + max 1 (length d - 0)"
    using write_all_enough [OF Cons.prems(1) len, of 0 out] by auto
  have "sum_list (map (\<lambda>d. max 1 (length d)) (parts s')) < length ws2"
    using Cons.prems(2) Cons.hyps(2) [symmetric] w(3) ds by simp
  then obtain out' ws' where
    "write_entity get_data state ws2 s' sended o2 = (Some (Ok sended), out', ws')"
    using Cons.hyps(1) [OF ds [symmetric] w(2)] by blast
  then show ?case
    using \<open>state s = PENDING\<close> get w(1) by (subst write_entity.simps) simp
qed

end

subsection \<open>What a read yields\<close>

text \<open>A wake-up that delivers a chunk, with a tame memory.\<close>

definition delivers :: "read_wakeup \<Rightarrow> bytes \<Rightarrow> bool" where
  "delivers w data \<longleftrightarrow> read_part w = Ok data \<and> tame (r_mem w)"

context entity_creator
begin

text \<open>
  A message that arrives in chunks is read as if it came in one: if the whole of it makes
  the creator ready with the value \<open>v\<close>, the wake-ups that deliver its chunks do, provided
  each chunk is a permitted continuation.
\<close>

lemma read_chunks:
  assumes "wf c" and "list_all2 delivers ws xs" and "xs \<noteq> []"
    and "\<And>m. tame m \<Longrightarrow> \<exists>c'. feed m (concat xs) c = Returns (READY, c') \<and> create c' = v"
    and "\<And>n m c'. 0 < n \<Longrightarrow> n < length xs \<Longrightarrow> tame m \<Longrightarrow>
       feed m (concat (take n xs)) c = Returns (PENDING, c') \<Longrightarrow> cut c' (concat (drop n xs))"
  shows "read_entity feed create E ws c = Some v"
  using assms
proof (induction xs arbitrary: ws c)
  case Nil
  then show ?case by simp
next
  case (Cons x xs)
  from Cons.prems(2) obtain w us where ws: "ws = w # us" and d: "delivers w x"
    and us: "list_all2 delivers us xs"
    by (auto simp: list_all2_Cons2)
  from d have w: "read_part w = Ok x" "tame (r_mem w)" by (simp_all add: delivers_def)
  obtain c' where whole: "feed (r_mem w) (x @ concat xs) c = Returns (READY, c')" "create c' = v"
    using Cons.prems(4) [OF w(2)] by auto
  show ?case
  proof (cases "\<exists>c1. feed (r_mem w) x c = Returns (PENDING, c1)")
    case False
    then have "feed (r_mem w) x c = Returns (READY, c')"
      using feed_final [OF Cons.prems(1) w(2), of x "concat xs"] whole(1) by auto
    then show ?thesis using w(1) whole(2) by (simp add: ws)
  next
    case True
    then obtain c1 where p1: "feed (r_mem w) x c = Returns (PENDING, c1)" by blast
    have nonempty: "xs \<noteq> []" using p1 whole(1) by auto
    have cut1: "cut c1 (concat xs)"
      using Cons.prems(5) [of 1 "r_mem w" c1] w(2) p1 nonempty by simp
    have app: "feed m' y c1 = feed (r_mem w) (x @ y) c" if "tame m'" "cut c1 y" for m' y
      using feed_append [OF Cons.prems(1) w(2) that(1) p1 that(2)] .
    have "read_entity feed create E us c1 = Some v"
    proof (rule Cons.IH [OF feed_wf [OF Cons.prems(1) p1] us nonempty])
      show "\<exists>c'. feed m (concat xs) c1 = Returns (READY, c') \<and> create c' = v" if "tame m" for m
        using app [OF that cut1] whole by auto
      show "cut c2 (concat (drop n xs))"
        if n: "0 < n" "n < length xs" and m: "tame m"
          and p2: "feed m (concat (take n xs)) c1 = Returns (PENDING, c2)" for n m c2
      proof -
        have "concat xs = concat (take n xs) @ concat (drop n xs)"
          by (metis append_take_drop_id concat_append)
        with cut1 cut_prefix have "cut c1 (concat (take n xs))" by metis
        with app [OF m] p2 have "feed (r_mem w) (concat (take (Suc n) (x # xs))) c = Returns (PENDING, c2)"
          by simp
        then show ?thesis
          using Cons.prems(5) [of "Suc n" "r_mem w" c2] n w(2) by simp
      qed
    qed
    then show ?thesis using w(1) p1 by (simp add: ws)
  qed
qed

text \<open>The four ways a read can end, each with the wake-up that ended it.\<close>

lemma read_outcome:
  assumes "wf c" and "read_entity feed create E ws c = Some out"
  shows "\<exists>w \<in> set ws.
    (\<exists>e. read_part w = Err e \<and> out = Returns (Err (E e))) \<or>
    (\<exists>x c0. read_part w = Ok x \<and> wf c0 \<and>
       (case feed (r_mem w) x c0 of
          Returns (st, c') \<Rightarrow> st = READY \<and> out = create c'
        | Throws ex \<Rightarrow> out = Throws ex
        | Undefined \<Rightarrow> out = Undefined))"
  using assms
proof (induction ws arbitrary: c)
  case Nil
  then show ?case by simp
next
  case (Cons w ws)
  show ?case
  proof (cases "read_part w")
    case (Err e)
    with Cons.prems show ?thesis by auto
  next
    case (Ok x)
    show ?thesis
    proof (cases "\<exists>c'. feed (r_mem w) x c = Returns (PENDING, c')")
      case True
      then obtain c' where p: "feed (r_mem w) x c = Returns (PENDING, c')" by blast
      with Ok Cons.prems(2) have "read_entity feed create E ws c' = Some out" by simp
      from Cons.IH [OF feed_wf [OF Cons.prems(1) p] this] show ?thesis by auto
    next
      case False
      then have "case feed (r_mem w) x c of
          Returns (st, c') \<Rightarrow> st = READY \<and> out = create c'
        | Throws ex \<Rightarrow> out = Throws ex
        | Undefined \<Rightarrow> out = Undefined"
        using Ok Cons.prems(2) by (auto split: outcome.splits prod.splits io_state.splits)
      with Ok Cons.prems(1) show ?thesis by auto
    qed
  qed
qed

end

text \<open>
  A creator that an empty chunk leaves as it is waits for ever on a stream at its end, where
  every read returns 0 bytes.
\<close>

lemma read_entity_starves:
  assumes "\<And>m. creator m [] c = Returns (PENDING, c)"
    and "list_all (\<lambda>w. read_part w = Ok []) ws"
  shows "read_entity creator create E ws c = None"
  using assms(2) by (induction ws) (simp_all add: assms(1))

end
