(* ===== verification/Http_Message.thy ===== *)
theory Http_Message
  imports Std_Map Io_Error
begin

text \<open>
  The HTTP data of \<open>http/HttpRequest.hpp\<close> and \<open>http/HttpResponse.{hpp,cpp}\<close>: requests,
  responses, the status code with its checked constructors, and the response built from a
  file. The file system is a parameter: the content of the file at a path that can be
  opened.
\<close>

section \<open>Requests and responses\<close>

record request =
  req_method :: string
  req_path :: string
  req_version :: string
  req_headers :: "(string, string) std_map"
  req_body :: bytes

datatype status = Status (status_get: int)

definition status_from :: "int \<Rightarrow> (status, http_error) res" where
  "status_from val =
     (if val < 100 \<or> val \<ge> 600 then Err (http_error_of INVALID_STATUC_CODE) else Ok (Status val))"

definition status_from_string :: "string \<Rightarrow> (status, http_error) res" where
  "status_from_string s = status_from (atoi (c_str s))"

record response =
  resp_version :: string
  resp_code :: status
  resp_status :: string
  resp_headers :: "(string, string) std_map"
  resp_body :: bytes

text \<open>The default constructor.\<close>

definition response_init :: response where
  "response_init = \<lparr>resp_version = [], resp_code = Status 599, resp_status = [],
     resp_headers = [], resp_body = []\<rparr>"

definition status_valid :: "status \<Rightarrow> bool" where
  "status_valid c \<longleftrightarrow> 100 \<le> status_get c \<and> status_get c < 600"

definition content_type_of :: "string \<Rightarrow> (string, http_error) res" where
  "content_type_of file_path =
     (case find_last_of (CHR ''.'') file_path of
        None \<Rightarrow> Ok []
      | Some pos \<Rightarrow>
          (let extension = drop (pos + 1) file_path in
           if extension = ''html'' then Ok ''text/html''
           else if extension = ''txt'' then Ok ''text/plain''
           else Err (http_error_of UNDEFINED)))"

definition static_from :: "(string \<Rightarrow> bytes option) \<Rightarrow> string \<Rightarrow> (response, http_error) res" where
  "static_from file file_path =
     flat_map (content_type_of file_path) (\<lambda>content_type.
       case file (c_str file_path) of
         None \<Rightarrow> Err (http_error_of UNDEFINED)
       | Some data \<Rightarrow> flat_map (status_from 200) (\<lambda>code.
           Ok (response_init\<lparr>resp_body := data, resp_code := code, resp_status := ''OK'',
               resp_version := ''HTTP/1.1'',
               resp_headers := map_insert ''Content-Length'' (to_string (length data))
                 (map_insert ''Content-Type'' content_type [])\<rparr>)))"

lemma status_from_200 [simp]: "status_from 200 = Ok (Status 200)"
  by (simp add: status_from_def)

lemma status_from_valid: "status_from n = Ok c \<Longrightarrow> status_valid c \<and> status_get c = n"
  by (auto simp: status_from_def status_valid_def split: if_splits)

lemma status_from_string_valid: "status_from_string s = Ok c \<Longrightarrow> status_valid c"
  unfolding status_from_string_def using status_from_valid by blast

lemma status_from_string_to_string:
  assumes "status_valid c"
  shows "status_from_string (to_string (nat (status_get c))) = Ok c"
proof -
  let ?n = "nat (status_get c)"
  have r: "?n < 2 ^ 31" "int ?n = status_get c" "100 \<le> int ?n" "int ?n < 600"
    using assms by (auto simp: status_valid_def)
  have "NUL \<notin> set (to_string ?n)" using to_string_digits digit_props(4) by blast
  then have "atoi (c_str (to_string ?n)) = int ?n" using r(1) by (simp add: atoi_to_string)
  then show ?thesis using r by (simp add: status_from_string_def status_from_def)
qed

text \<open>
  The extension is what follows the last dot of the whole path, directories included.
\<close>

lemma find_last_of_append: "c \<notin> set ys \<Longrightarrow> find_last_of c (xs @ c # ys) = Some (length xs)"
  by (simp add: find_last_of_def find_char_append)

lemma content_type_of_ext:
  "CHR ''.'' \<notin> set ext \<Longrightarrow> content_type_of (base @ CHR ''.'' # ext) =
     (if ext = ''html'' then Ok ''text/html'' else if ext = ''txt'' then Ok ''text/plain''
      else Err (http_error_of UNDEFINED))"
  by (simp add: content_type_of_def find_last_of_append)

text \<open>What a static response that was built looks like.\<close>

lemma static_from_Ok:
  assumes "static_from file path = Ok r"
  obtains ct data where "content_type_of path = Ok ct" and "file (c_str path) = Some data"
    and "resp_body r = data" and "resp_code r = Status 200" and "resp_status r = ''OK''"
    and "resp_version r = ''HTTP/1.1''"
    and "resp_headers r = [(''Content-Length'', to_string (length data)), (''Content-Type'', ct)]"
proof -
  from assms obtain ct where ct: "content_type_of path = Ok ct"
    by (auto simp: static_from_def flat_map_Ok_iff)
  from assms ct obtain data where "file (c_str path) = Some data"
    by (auto simp: static_from_def split: option.splits)
  with assms ct that show ?thesis
    by (auto simp: static_from_def response_init_def)
qed


text \<open>
  Status codes stay in range. The checked constructor accepts exactly the codes
  100 to 599 and keeps the value; the one from a string never yields a code outside the
  range, whatever the text, and reads back what \<open>std::to_string\<close> printed.
\<close>

lemma status_codes:
  "(\<exists>c. status_from n = Ok c) = (100 \<le> n \<and> n < 600) \<and>
   (case status_from_string s of Ok c \<Rightarrow> status_valid c | Err e \<Rightarrow> kind e = INVALID_STATUC_CODE) \<and>
   (status_from n = Ok c \<longrightarrow> status_get c = n \<and> status_from_string (to_string (nat n)) = Ok c)"
proof (intro conjI impI)
  show "(\<exists>c. status_from n = Ok c) = (100 \<le> n \<and> n < 600)"
    by (auto simp: status_from_def)
  show "case status_from_string s of Ok c \<Rightarrow> status_valid c | Err e \<Rightarrow> kind e = INVALID_STATUC_CODE"
    by (auto simp: status_from_string_def status_from_def status_valid_def http_error_of_def)
  assume "status_from n = Ok c"
  then have "status_valid c" and "status_get c = n" by (auto dest: status_from_valid)
  then show "status_get c = n" and "status_from_string (to_string (nat n)) = Ok c"
    using status_from_string_to_string [of c] by auto
qed

lemma status_codes_witness:
  "status_get (Status 404) = 404 \<and> status_from_string (to_string (nat 404)) = Ok (Status 404)"
proof -
  have "status_from 404 = Ok (Status 404)" by (simp add: status_from_def)
  then show ?thesis using status_codes [of 404 "[]" "Status 404"] by blast
qed

end
