(* ===== verification/Http_Serializer.thy ===== *)
theory Http_Serializer
  imports Http_Message Fut_Io
begin

text \<open>
  The two \<open>EntitySerializer\<close>s of \<open>http/writers\<close>. A serializer prepares the header bytes in
  its constructor and hands out first the headers, then the body. \<open>back_inserter\<close> copies a
  \<open>const char *\<close>, so every piece of the head ends at its first NUL.
\<close>

section \<open>Serializers\<close>

datatype ser_state = SER_HEADERS | SER_BODY | SER_READY

record serializer =
  ser_state :: ser_state
  ser_headers :: bytes
  ser_body :: bytes

definition back_inserter :: "bytes \<Rightarrow> string \<Rightarrow> bytes" where
  "back_inserter out s = out @ c_str s"

definition insert_header :: "string \<times> string \<Rightarrow> bytes \<Rightarrow> bytes" where
  "insert_header header out =
     back_inserter (back_inserter (back_inserter (back_inserter out (fst header)) '': '')
       (snd header)) CRLF"

definition RequestSerializer :: "request \<Rightarrow> serializer" where
  "RequestSerializer req =
     (let out = back_inserter [] (req_method req);
          out = back_inserter out '' '';
          out = back_inserter out (req_path req);
          out = back_inserter out '' '';
          out = back_inserter out (req_version req);
          out = back_inserter out CRLF;
          out = fold insert_header (req_headers req) out;
          out = back_inserter out CRLF
      in \<lparr>ser_state = SER_HEADERS, ser_headers = out, ser_body = req_body req\<rparr>)"

text \<open>\<open>std::to_string(int)\<close>.\<close>

definition to_string_int :: "int \<Rightarrow> string" where
  "to_string_int i = (if i < 0 then CHR ''-'' # to_string (nat (- i)) else to_string (nat i))"

definition ResponseSerializer :: "response \<Rightarrow> serializer" where
  "ResponseSerializer resp =
     (let code = to_string_int (status_get (resp_code resp));
          out = back_inserter [] (resp_version resp);
          out = back_inserter out '' '';
          out = back_inserter out code;
          out = back_inserter out '' '';
          out = back_inserter out (resp_status resp);
          out = back_inserter out CRLF;
          out = fold insert_header (resp_headers resp) out;
          out = back_inserter out CRLF
      in \<lparr>ser_state = SER_HEADERS, ser_headers = out, ser_body = resp_body resp\<rparr>)"

text \<open>A moved-from vector is empty.\<close>

definition request_get_data :: "serializer \<Rightarrow> bytes \<times> serializer" where
  "request_get_data s =
     (case ser_state s of
        SER_HEADERS \<Rightarrow> (ser_headers s, s\<lparr>ser_state := SER_BODY, ser_headers := []\<rparr>)
      | SER_BODY \<Rightarrow> (ser_body s, s\<lparr>ser_state := SER_READY, ser_body := []\<rparr>)
      | SER_READY \<Rightarrow> ([], s))"

definition request_state :: "serializer \<Rightarrow> io_state" where
  "request_state s =
     (case ser_state s of SER_HEADERS \<Rightarrow> PENDING | SER_BODY \<Rightarrow> PENDING | SER_READY \<Rightarrow> READY)"

definition response_get_data :: "serializer \<Rightarrow> bytes \<times> serializer" where
  "response_get_data s =
     (case ser_state s of
        SER_HEADERS \<Rightarrow> (ser_headers s, s\<lparr>ser_state := SER_BODY, ser_headers := []\<rparr>)
      | SER_BODY \<Rightarrow> (ser_body s, s\<lparr>ser_state := SER_READY, ser_body := []\<rparr>)
      | SER_READY \<Rightarrow> ([], s))"

definition response_state :: "serializer \<Rightarrow> io_state" where
  "response_state s =
     (case ser_state s of SER_HEADERS \<Rightarrow> PENDING | SER_BODY \<Rightarrow> PENDING | SER_READY \<Rightarrow> READY)"

subsection \<open>Both provide the concept\<close>

text \<open>The parts a serializer has still to hand out: a ghost of its state.\<close>

definition ser_parts :: "serializer \<Rightarrow> bytes list" where
  "ser_parts s =
     (case ser_state s of
        SER_HEADERS \<Rightarrow> [ser_headers s, ser_body s]
      | SER_BODY \<Rightarrow> [ser_body s]
      | SER_READY \<Rightarrow> [])"

interpretation req_ser: entity_serializer request_get_data request_state ser_parts
  by unfold_locales
    (auto simp: request_get_data_def request_state_def ser_parts_def split: ser_state.splits)

interpretation resp_ser: entity_serializer response_get_data response_state ser_parts
  by unfold_locales
    (auto simp: response_get_data_def response_state_def ser_parts_def split: ser_state.splits)

subsection \<open>The bytes of a message\<close>

definition header_line :: "string \<times> string \<Rightarrow> bytes" where
  "header_line h = c_str (fst h) @ '': '' @ c_str (snd h) @ CRLF"

definition request_head :: "request \<Rightarrow> bytes" where
  "request_head r =
     c_str (req_method r) @ [SP] @ c_str (req_path r) @ [SP] @ c_str (req_version r) @ CRLF @
     concat (map header_line (req_headers r)) @ CRLF"

definition response_head :: "response \<Rightarrow> bytes" where
  "response_head r =
     c_str (resp_version r) @ [SP] @ to_string_int (status_get (resp_code r)) @ [SP] @
     c_str (resp_status r) @ CRLF @ concat (map header_line (resp_headers r)) @ CRLF"

lemma c_str_punctuation [simp]: "c_str '': '' = '': ''" "c_str CRLF = CRLF" "c_str '' '' = '' ''"
  by (simp_all add: c_str_def)

lemma fold_insert_header: "fold insert_header hs out = out @ concat (map header_line hs)"
  by (induction hs arbitrary: out)
    (simp_all add: insert_header_def back_inserter_def header_line_def)

lemma to_string_int_no_NUL: "NUL \<notin> set (to_string_int i)"
  using to_string_digits digit_props(4) by (auto simp: to_string_int_def)

lemma RequestSerializer_parts: "ser_parts (RequestSerializer r) = [request_head r, req_body r]"
  by (simp add: ser_parts_def RequestSerializer_def Let_def back_inserter_def fold_insert_header
      request_head_def)

lemma ResponseSerializer_parts: "ser_parts (ResponseSerializer r) = [response_head r, resp_body r]"
  using to_string_int_no_NUL
  by (simp add: ser_parts_def ResponseSerializer_def Let_def back_inserter_def fold_insert_header
      response_head_def)

text \<open>Two calls of \<open>get_data\<close> empty a serializer; a third one would give nothing.\<close>

fun drain :: "nat \<Rightarrow> (serializer \<Rightarrow> bytes \<times> serializer) \<Rightarrow> serializer \<Rightarrow> bytes \<times> serializer" where
  "drain 0 get s = ([], s)"
| "drain (Suc n) get s = (let (d, s') = get s; (ds, s'') = drain n get s' in (d @ ds, s''))"

text \<open>
  A serializer hands out exactly the message, once. It is pending before each of
  two calls of \<open>get_data\<close> and ready after them, the two parts are the head and then the
  body, and further calls return no bytes and leave it ready.
\<close>

lemma serializer_output:
  "request_state (RequestSerializer req) = PENDING \<and>
   drain (Suc (Suc n)) request_get_data (RequestSerializer req) =
     (request_head req @ req_body req, snd (drain 2 request_get_data (RequestSerializer req))) \<and>
   request_state (snd (drain 1 request_get_data (RequestSerializer req))) = PENDING \<and>
   request_state (snd (drain (Suc (Suc n)) request_get_data (RequestSerializer req))) = READY \<and>
   response_state (ResponseSerializer resp) = PENDING \<and>
   drain (Suc (Suc n)) response_get_data (ResponseSerializer resp) =
     (response_head resp @ resp_body resp, snd (drain 2 response_get_data (ResponseSerializer resp))) \<and>
   response_state (snd (drain (Suc (Suc n)) response_get_data (ResponseSerializer resp))) = READY"
proof -
  have done_req: "ser_state s = SER_READY \<Longrightarrow> drain n request_get_data s = ([], s)" for s
    by (induction n) (simp_all add: request_get_data_def)
  have done_resp: "ser_state s = SER_READY \<Longrightarrow> drain n response_get_data s = ([], s)" for s
    by (induction n) (simp_all add: response_get_data_def)
  have st: "ser_state (RequestSerializer req) = SER_HEADERS"
    "ser_headers (RequestSerializer req) = request_head req"
    "ser_body (RequestSerializer req) = req_body req"
    using RequestSerializer_parts [of req]
    by (simp_all add: ser_parts_def RequestSerializer_def Let_def)
  have st': "ser_state (ResponseSerializer resp) = SER_HEADERS"
    "ser_headers (ResponseSerializer resp) = response_head resp"
    "ser_body (ResponseSerializer resp) = resp_body resp"
    using ResponseSerializer_parts [of resp]
    by (simp_all add: ser_parts_def ResponseSerializer_def Let_def)
  show ?thesis
    by (simp add: st st' request_state_def response_state_def request_get_data_def
        response_get_data_def done_req done_resp numeral_2_eq_2)
qed

end
