(* ===== verification/Http_Parser.thy ===== *)
theory Http_Parser
  imports Http_Message Fut_Io
begin

text \<open>
  The two \<open>EntityCreator\<close>s of \<open>http/parsers\<close>, \<open>RequestParser\<close> and \<open>ResponseParser\<close>. The
  sources are the same but for the first line, the error constant and the \<open>GET\<close> shortcut of
  \<open>read_body\<close>, so the fields they share are one extensible record and the loop over the
  header lines is one function with those three as arguments; each parser's operations are
  its instances. Exceptions (\<open>substr\<close> past the end, \<open>value()\<close> of an empty optional) are
  outcomes.

  The code reads outside its buffers in two places: the byte before the first one of a
  chunk (\<open>*(line_end_it - 1)\<close>), and the bytes after \<open>not_handled_data\<close>, which is turned
  into a string without a terminating NUL. Both are read from the \<open>mem\<close> of the call.
\<close>

section \<open>Parser state\<close>

datatype parser_state = HEADERS_READ | BODY_READ

record parser =
  p_headers :: "(string, string) std_map"
  p_body :: bytes
  first_line_handled :: bool
  not_handled_data :: bytes
  content_length :: "nat option"
  p_err :: "(unit, http_error) res"
  p_state :: parser_state

record request_parser = parser +
  p_method :: string
  p_path :: string
  p_version :: string

record response_parser = parser +
  r_version :: string
  r_code :: "status option"
  r_status :: string

definition RequestParser :: request_parser where
  "RequestParser = \<lparr>p_headers = [], p_body = [], first_line_handled = False,
     not_handled_data = [], content_length = None, p_err = Ok (), p_state = HEADERS_READ,
     p_method = [], p_path = [], p_version = []\<rparr>"

definition ResponseParser :: response_parser where
  "ResponseParser = \<lparr>p_headers = [], p_body = [], first_line_handled = False,
     not_handled_data = [], content_length = None, p_err = Ok (), p_state = HEADERS_READ,
     r_version = [], r_code = None, r_status = []\<rparr>"

subsection \<open>Header lines\<close>

text \<open>The value starts two bytes after the colon; \<open>substr\<close> throws if the line ends at it.\<close>

definition parse_header :: "http_err \<Rightarrow> string \<Rightarrow> (string \<times> string, http_error) res outcome" where
  "parse_header e line =
     (case find_char (CHR '':'') line of
        None \<Rightarrow> Returns (Err (http_error_of e))
      | Some idx \<Rightarrow>
          bind_outcome (substr line (idx + 2)) (\<lambda>val. Returns (Ok (take idx line, val))))"

definition set_content_length ::
  "http_err \<Rightarrow> 'a parser_scheme \<Rightarrow> (unit, http_error) res \<times> 'a parser_scheme" where
  "set_content_length e p =
     (if content_length p \<noteq> None then (Ok (), p)
      else case map_find ''Content-Length'' (p_headers p) of
        None \<Rightarrow> (Err (http_error_of e), p)
      | Some s \<Rightarrow> (case stoul s of
            None \<Rightarrow> (Err (http_error_of e), p)
          | Some n \<Rightarrow> (Ok (), p\<lparr>content_length := Some n\<rparr>)))"

text \<open>
  The part of \<open>read_body\<close> both parsers have. The result of \<open>set_content_length\<close> is not
  looked at; \<open>content_length.value()\<close> then throws if there is none.
\<close>

definition collect_body ::
  "http_err \<Rightarrow> 'a parser_scheme \<Rightarrow> bytes \<Rightarrow> nat \<Rightarrow> (io_state \<times> 'a parser_scheme) outcome" where
  "collect_body e p data from =
     (let p = snd (set_content_length e p) in
      case content_length p of
        None \<Rightarrow> Throws Bad_optional_access
      | Some len \<Rightarrow>
          if len \<le> length data - from + length (p_body p) then
            (if len < length (p_body p) then Undefined
             else Returns (READY,
               p\<lparr>p_body := p_body p @ take (len - length (p_body p)) (drop from data)\<rparr>))
          else Returns (PENDING, p\<lparr>p_body := p_body p @ drop from data\<rparr>))"

definition request_read_body ::
  "request_parser \<Rightarrow> bytes \<Rightarrow> nat \<Rightarrow> (io_state \<times> request_parser) outcome" where
  "request_read_body p data from =
     (if p_method p = ''GET'' then Returns (READY, p)
      else collect_body HTTP_REQUEST_PARSE p data from)"

definition response_read_body ::
  "response_parser \<Rightarrow> bytes \<Rightarrow> nat \<Rightarrow> (io_state \<times> response_parser) outcome" where
  "response_read_body p data from = collect_body HTTP_RESPONSE_PARSE p data from"

definition parse_request_line ::
  "string \<Rightarrow> request_parser \<Rightarrow> (unit, http_error) res \<times> request_parser" where
  "parse_request_line s p =
     (case find_char SP s of
        None \<Rightarrow> (Err (http_error_of HTTP_REQUEST_PARSE), p)
      | Some method_end \<Rightarrow>
        if method_end = 0 then (Err (http_error_of HTTP_REQUEST_PARSE), p)
        else let p = p\<lparr>p_method := take method_end s\<rparr> in
          (case find_char_from SP s (method_end + 1) of
             None \<Rightarrow> (Err (http_error_of HTTP_REQUEST_PARSE), p)
           | Some path_end \<Rightarrow>
             if path_end = method_end + 1 then (Err (http_error_of HTTP_REQUEST_PARSE), p)
             else let p = p\<lparr>p_path := take (path_end - method_end - 1) (drop (method_end + 1) s)\<rparr>;
                      p = p\<lparr>p_version := drop (path_end + 1) s\<rparr>
                  in if p_version p = [] then (Err (http_error_of HTTP_REQUEST_PARSE), p)
                     else (Ok (), p)))"

definition parse_status_line ::
  "string \<Rightarrow> response_parser \<Rightarrow> (unit, http_error) res \<times> response_parser" where
  "parse_status_line s p =
     (case find_char SP s of
        None \<Rightarrow> (Err (http_error_of HTTP_RESPONSE_PARSE), p)
      | Some version_end \<Rightarrow>
        if version_end = 0 then (Err (http_error_of HTTP_RESPONSE_PARSE), p)
        else let p = p\<lparr>r_version := take version_end s\<rparr> in
          (case find_char_from SP s (version_end + 1) of
             None \<Rightarrow> (Err (http_error_of HTTP_RESPONSE_PARSE), p)
           | Some code_end \<Rightarrow>
             if code_end = version_end + 1 then (Err (http_error_of HTTP_RESPONSE_PARSE), p)
             else (case status_from_string
                     (take (code_end - version_end - 1) (drop (version_end + 1) s)) of
                 Err e \<Rightarrow> (Err e, p)
               | Ok c \<Rightarrow>
                   let p = p\<lparr>r_code := Some c\<rparr>;
                       p = p\<lparr>r_status := drop (code_end + 1) s\<rparr>
                   in if r_status p = [] then (Err (http_error_of HTTP_RESPONSE_PARSE), p)
                      else (Ok (), p))))"

subsection \<open>The loop over the lines of a chunk\<close>

text \<open>
  \<open>start\<close> is \<open>start_it - next_part.begin()\<close>, \<open>nl\<close> the index of the next line feed. If the
  byte before it is a carriage return, \<open>line_end_it\<close> is decremented; were that to move it
  before \<open>start_it\<close>, the copy loop would run past the end of the chunk (\<open>Undefined\<close>). After
  the line one byte is skipped, and one more if it is a line feed.
\<close>

definition byte_before :: "mem \<Rightarrow> bytes \<Rightarrow> nat \<Rightarrow> char" where
  "byte_before m data i = (if i = 0 then before_chunk m else data ! (i - 1))"

definition skip_line_end :: "bytes \<Rightarrow> nat \<Rightarrow> nat" where
  "skip_line_end data line_end =
     (let start = line_end + 1
      in if start < length data \<and> data ! start = LF then start + 1 else start)"

lemma skip_line_end_gt: "line_end < skip_line_end data line_end"
  by (simp add: skip_line_end_def Let_def)

definition take_pending :: "mem \<Rightarrow> 'a parser_scheme \<Rightarrow> string" where
  "take_pending m p =
     (if not_handled_data p = [] then [] else c_str (not_handled_data p @ after_pending m))"

function read_headers ::
  "mem \<Rightarrow> http_err \<Rightarrow>
   (string \<Rightarrow> 'a parser_scheme \<Rightarrow> (unit, http_error) res \<times> 'a parser_scheme) \<Rightarrow>
   ('a parser_scheme \<Rightarrow> bytes \<Rightarrow> nat \<Rightarrow> (io_state \<times> 'a parser_scheme) outcome) \<Rightarrow>
   bytes \<Rightarrow> nat \<Rightarrow> 'a parser_scheme \<Rightarrow> (io_state \<times> 'a parser_scheme) outcome" where
  "read_headers m e first_line read_body data start p =
     (case find_char LF (drop start data) of
        None \<Rightarrow> Returns (PENDING, p\<lparr>not_handled_data := not_handled_data p @ drop start data\<rparr>)
      | Some i \<Rightarrow>
        let nl = start + i in
        if byte_before m data nl = CR \<and> i = 0 then Undefined
        else
        let line_end = (if byte_before m data nl = CR then nl - 1 else nl);
            header_line = take_pending m p @ take (line_end - start) (drop start data);
            p = p\<lparr>not_handled_data := []\<rparr>;
            start = skip_line_end data line_end
        in if header_line = [] then read_body (p\<lparr>p_state := BODY_READ\<rparr>) data start
           else if \<not> first_line_handled p then
             (case first_line header_line (p\<lparr>first_line_handled := True\<rparr>) of
                (Err er, p) \<Rightarrow> Returns (READY, p\<lparr>p_err := Err er\<rparr>)
              | (Ok _, p) \<Rightarrow> read_headers m e first_line read_body data start p)
           else bind_outcome (parse_header e header_line) (\<lambda>r. case r of
                Err _ \<Rightarrow> Returns (READY, p\<lparr>p_err := Err (http_error_of e)\<rparr>)
              | Ok kv \<Rightarrow> read_headers m e first_line read_body data start
                  (p\<lparr>p_headers := map_insert (fst kv) (snd kv) (p_headers p)\<rparr>)))"
  by pat_completeness auto
termination
proof (relation "measure (\<lambda>(m, e, f, rb, data, start, p). length data - start)", goal_cases)
  case 1
  show ?case by simp
next
  case (2 m e f rb data start p i nl le line p' start')
  then have "start + i < length data" using find_char_Some_split [of LF "drop start data" i] by auto
  moreover have "start \<le> le" using 2 by (auto split: if_splits)
  then have "start < start'" using skip_line_end_gt [of le data] 2 by simp
  ultimately show ?case by simp
next
  case (3 m e f rb data start p i nl le line p' start')
  then have "start + i < length data" using find_char_Some_split [of LF "drop start data" i] by auto
  moreover have "start \<le> le" using 3 by (auto split: if_splits)
  then have "start < start'" using skip_line_end_gt [of le data] 3 by simp
  ultimately show ?case by simp
qed

declare read_headers.simps [simp del]

subsection \<open>The parsers' operations\<close>

text \<open>\<open>operator()\<close>.\<close>

definition RequestParser_call ::
  "mem \<Rightarrow> bytes \<Rightarrow> request_parser \<Rightarrow> (io_state \<times> request_parser) outcome" where
  "RequestParser_call m next_part p =
     (case p_state p of
        HEADERS_READ \<Rightarrow>
          read_headers m HTTP_REQUEST_PARSE parse_request_line request_read_body next_part 0 p
      | BODY_READ \<Rightarrow> request_read_body p next_part 0)"

definition ResponseParser_call ::
  "mem \<Rightarrow> bytes \<Rightarrow> response_parser \<Rightarrow> (io_state \<times> response_parser) outcome" where
  "ResponseParser_call m next_part p =
     (case p_state p of
        HEADERS_READ \<Rightarrow>
          read_headers m HTTP_RESPONSE_PARSE parse_status_line response_read_body next_part 0 p
      | BODY_READ \<Rightarrow> response_read_body p next_part 0)"

definition request_create_entity :: "request_parser \<Rightarrow> (request, http_error) res" where
  "request_create_entity p =
     (case p_err p of
        Err e \<Rightarrow> Err e
      | Ok _ \<Rightarrow> Ok \<lparr>req_method = p_method p, req_path = p_path p, req_version = p_version p,
          req_headers = p_headers p, req_body = p_body p\<rparr>)"

text \<open>\<open>code.value()\<close> throws if no status line was read.\<close>

definition response_create_entity :: "response_parser \<Rightarrow> (response, http_error) res outcome" where
  "response_create_entity p =
     (case p_err p of
        Err e \<Rightarrow> Returns (Err e)
      | Ok _ \<Rightarrow> (case r_code p of
          None \<Rightarrow> Throws Bad_optional_access
        | Some c \<Rightarrow> Returns (Ok \<lparr>resp_version = r_version p, resp_code = c,
            resp_status = r_status p, resp_headers = p_headers p, resp_body = p_body p\<rparr>)))"

end
