(* ===== verification/Http_Scan.thy ===== *)
theory Http_Scan
  imports Http_Parser
begin

text \<open>
  The reasoning layer for the parsers' line loop. \<open>header_scan\<close> is the loop as a recursion
  over the unread bytes, with the byte before them and the text carried over from earlier
  chunks as arguments; \<open>read_headers_scan\<close> shows that the indexed loop of the code computes
  it. The locale \<open>line_parser\<close> states what the loop needs of a parser's \<open>read_body\<close> and first
  line, and proves once for both parsers that cutting the input in chunks does not matter.
\<close>

section \<open>The line loop, over lists\<close>

text \<open>One non-empty header line: stop with an outcome, or go on with a new state.\<close>

definition line_step ::
  "http_err \<Rightarrow>
   (string \<Rightarrow> 'a parser_scheme \<Rightarrow> (unit, http_error) res \<times> 'a parser_scheme) \<Rightarrow>
   string \<Rightarrow> 'a parser_scheme \<Rightarrow> (io_state \<times> 'a parser_scheme) outcome + 'a parser_scheme" where
  "line_step e first_line line p =
     (if \<not> first_line_handled p then
        (case first_line line (p\<lparr>first_line_handled := True\<rparr>) of
           (Err er, p) \<Rightarrow> Inl (Returns (READY, p\<lparr>p_err := Err er\<rparr>))
         | (Ok _, p) \<Rightarrow> Inr p)
      else (case parse_header e line of
           Returns (Ok kv) \<Rightarrow> Inr (p\<lparr>p_headers := map_insert (fst kv) (snd kv) (p_headers p)\<rparr>)
         | Returns (Err _) \<Rightarrow> Inl (Returns (READY, p\<lparr>p_err := Err (http_error_of e)\<rparr>))
         | Throws x \<Rightarrow> Inl (Throws x)
         | Undefined \<Rightarrow> Inl Undefined))"

definition after_line :: "bool \<Rightarrow> bytes \<Rightarrow> bytes" where
  "after_line cr rest = (if \<not> cr \<and> rest \<noteq> [] \<and> hd rest = LF then tl rest else rest)"

lemma length_after_line: "length (after_line cr rest) \<le> length rest"
  by (simp add: after_line_def)

lemma set_after_line: "set (after_line cr rest) \<subseteq> set rest"
  by (cases rest) (auto simp: after_line_def)

lemma after_line_append:
  "rest \<noteq> [] \<Longrightarrow> after_line cr (rest @ ys) = after_line cr rest @ ys"
  by (cases rest) (auto simp: after_line_def)

function header_scan ::
  "http_err \<Rightarrow>
   (string \<Rightarrow> 'a parser_scheme \<Rightarrow> (unit, http_error) res \<times> 'a parser_scheme) \<Rightarrow>
   ('a parser_scheme \<Rightarrow> bytes \<Rightarrow> nat \<Rightarrow> (io_state \<times> 'a parser_scheme) outcome) \<Rightarrow>
   string \<Rightarrow> char \<Rightarrow> bytes \<Rightarrow> 'a parser_scheme \<Rightarrow> (io_state \<times> 'a parser_scheme) outcome" where
  "header_scan e first_line read_body pre prev rest p =
     (case find_char LF rest of
        None \<Rightarrow> Returns (PENDING, p\<lparr>not_handled_data := not_handled_data p @ rest\<rparr>)
      | Some i \<Rightarrow>
        let cr = ((if i = 0 then prev else rest ! (i - 1)) = CR) in
        if cr \<and> i = 0 then Undefined
        else let line = pre @ take (if cr then i - 1 else i) rest;
                 p = p\<lparr>not_handled_data := []\<rparr>;
                 rest = after_line cr (drop (Suc i) rest)
             in if line = [] then read_body (p\<lparr>p_state := BODY_READ\<rparr>) rest 0
                else (case line_step e first_line line p of
                    Inl stop \<Rightarrow> stop
                  | Inr p \<Rightarrow> header_scan e first_line read_body [] LF rest p))"
  by pat_completeness auto
termination
proof (relation "measure (\<lambda>(e, f, rb, pre, prev, rest, p). length rest)", goal_cases)
  case 1
  show ?case by simp
next
  case (2 e f rb pre prev rest p i)
  then have "i < length rest" using find_char_Some_split by blast
  then have "length (drop (Suc i) rest) < length rest" by simp
  then show ?case
    using 2 length_after_line by (metis (no_types, lifting) case_prod_conv in_measure order_le_less_trans)
qed

declare header_scan.simps [simp del]

lemma header_scan_no_lf:
  "LF \<notin> set rest \<Longrightarrow> header_scan e f rb pre prev rest p =
     Returns (PENDING, p\<lparr>not_handled_data := not_handled_data p @ rest\<rparr>)"
  using find_char_None_iff [of LF rest] by (subst header_scan.simps) simp

text \<open>The step on a line: its text has no line feed and \<open>cr\<close> says whether it ends in CRLF.\<close>

lemma header_scan_crlf:
  assumes "LF \<notin> set line"
  shows "header_scan e f rb pre prev (line @ CRLF @ rest) p =
     (if pre @ line = [] then rb (p\<lparr>not_handled_data := [], p_state := BODY_READ\<rparr>) rest 0
      else case line_step e f (pre @ line) (p\<lparr>not_handled_data := []\<rparr>) of
          Inl stop \<Rightarrow> stop
        | Inr p \<Rightarrow> header_scan e f rb [] LF rest p)"
proof -
  have "find_char LF ((line @ [CR]) @ LF # rest) = Some (length (line @ [CR]))"
    by (rule find_char_append) (use assms in simp)
  then have f: "find_char LF (line @ CR # LF # rest) = Some (Suc (length line))" by simp
  show ?thesis
    by (subst header_scan.simps) (simp add: f after_line_def nth_append Let_def)
qed

subsection \<open>The indexed loop computes it\<close>

lemma skip_line_end_drop:
  assumes "j < length data"
  shows "skip_line_end data j \<le> length data \<and>
    drop (skip_line_end data j) data =
      (if Suc j < length data \<and> data ! Suc j = LF then drop (Suc (Suc j)) data
       else drop (Suc j) data)"
  using assms by (simp add: skip_line_end_def)

lemma skip_after_line:
  assumes "drop start data = rest" and "find_char LF rest = Some i" and "i = 0 \<longrightarrow> \<not> cr"
  shows "skip_line_end data (if cr then start + i - 1 else start + i) \<le> length data"
    and "drop (skip_line_end data (if cr then start + i - 1 else start + i)) data
           = after_line cr (drop (Suc i) rest)"
    and "data ! (skip_line_end data (if cr then start + i - 1 else start + i) - 1) = LF"
proof -
  from assms(2) have i: "i < length rest" and split: "rest = take i rest @ LF # drop (Suc i) rest"
    using find_char_Some_split by blast+
  have len: "start + i < length data" using i assms(1) by auto
  have at: "data ! (start + i) = LF"
    using split i assms(1) by (metis add_leE less_imp_le nth_drop nth_via_drop drop_drop
        Cons_nth_drop_Suc append_take_drop_id len same_append_eq list.inject add.commute)
  have dr: "drop (Suc i) rest = drop (Suc (start + i)) data"
    using assms(1) by (auto simp: add.commute)
  show "skip_line_end data (if cr then start + i - 1 else start + i) \<le> length data"
    using len assms(3) by (auto simp: skip_line_end_def Let_def)
  show "drop (skip_line_end data (if cr then start + i - 1 else start + i)) data
           = after_line cr (drop (Suc i) rest)"
  proof (cases cr)
    case True
    with assms(3) have "start + i - 1 + 1 = start + i" by (cases i) auto
    then show ?thesis using True at len dr by (simp add: skip_line_end_def after_line_def)
  next
    case False
    then show ?thesis
      using len dr by (auto simp: skip_line_end_def after_line_def hd_drop_conv_nth
          drop_Suc [symmetric] tl_drop Let_def)
  qed
  show "data ! (skip_line_end data (if cr then start + i - 1 else start + i) - 1) = LF"
    using at len assms(3) by (cases i) (auto simp: skip_line_end_def Let_def)
qed

text \<open>The code's case analysis after a line is \<open>line_step\<close>.\<close>

lemma read_headers_step:
  assumes "find_char LF (drop start data) = Some i"
  shows "read_headers m e f rb data start p =
    (let cr = (byte_before m data (start + i) = CR) in
     if cr \<and> i = 0 then Undefined
     else let le = (if cr then start + i - 1 else start + i);
              line = take_pending m p @ take (le - start) (drop start data);
              p = p\<lparr>not_handled_data := []\<rparr>
          in if line = [] then rb (p\<lparr>p_state := BODY_READ\<rparr>) data (skip_line_end data le)
             else (case line_step e f line p of
                 Inl stop \<Rightarrow> stop
               | Inr p \<Rightarrow> read_headers m e f rb data (skip_line_end data le) p))"
proof (cases "byte_before m data (start + i) = CR \<and> i = 0")
  case True
  show ?thesis
    by (subst read_headers.simps) (simp only: assms option.case Let_def if_P [OF True])
next
  case False
  define le where "le = (if byte_before m data (start + i) = CR then start + i - 1 else start + i)"
  define line where "line = take_pending m p @ take (le - start) (drop start data)"
  define q where "q = p\<lparr>not_handled_data := []\<rparr>"
  have "read_headers m e f rb data start p =
    (if line = [] then rb (q\<lparr>p_state := BODY_READ\<rparr>) data (skip_line_end data le)
     else if \<not> first_line_handled q then
       (case f line (q\<lparr>first_line_handled := True\<rparr>) of
          (Err er, p) \<Rightarrow> Returns (READY, p\<lparr>p_err := Err er\<rparr>)
        | (Ok _, p) \<Rightarrow> read_headers m e f rb data (skip_line_end data le) p)
     else bind_outcome (parse_header e line) (\<lambda>r. case r of
          Err _ \<Rightarrow> Returns (READY, q\<lparr>p_err := Err (http_error_of e)\<rparr>)
        | Ok kv \<Rightarrow> read_headers m e f rb data (skip_line_end data le)
            (q\<lparr>p_headers := map_insert (fst kv) (snd kv) (p_headers q)\<rparr>)))"
    unfolding le_def line_def q_def
    using False by (subst read_headers.simps) (simp only: assms option.case Let_def if_False)
  also have "\<dots> = (if line = [] then rb (q\<lparr>p_state := BODY_READ\<rparr>) data (skip_line_end data le)
     else case line_step e f line q of
         Inl stop \<Rightarrow> stop
       | Inr p \<Rightarrow> read_headers m e f rb data (skip_line_end data le) p)"
    unfolding line_step_def
    by (cases "f line (q\<lparr>first_line_handled := True\<rparr>)"; cases "fst (f line (q\<lparr>first_line_handled := True\<rparr>))";
        cases "parse_header e line") (auto split: res.split)
  finally show ?thesis
    using False unfolding le_def line_def q_def by (simp only: Let_def if_False)
qed

lemma read_headers_scan:
  assumes rb: "\<And>p data from. from \<le> length data \<Longrightarrow> rb p data from = rb p (drop from data) 0"
    and frame: "\<And>s p r p'. f s p = (r, p') \<Longrightarrow> not_handled_data p' = not_handled_data p"
    and "start \<le> length data"
  shows "read_headers m e f rb data start p =
    header_scan e f rb (take_pending m p) (byte_before m data start) (drop start data) p"
  using assms(3)
proof (induction "length data - start" arbitrary: start p rule: less_induct)
  case less
  show ?case
  proof (cases "find_char LF (drop start data)")
    case None
    then show ?thesis by (subst read_headers.simps, subst header_scan.simps) simp
  next
    case (Some i)
    let ?cr = "byte_before m data (start + i) = CR"
    let ?ns = "skip_line_end data (if ?cr then start + i - 1 else start + i)"
    let ?line = "take_pending m p @ take (if ?cr then i - 1 else i) (drop start data)"
    have "i < length (drop start data)" using find_char_Some_split [OF Some] by blast
    then have len: "start + i < length data" by simp
    have prev: "(if i = 0 then byte_before m data start else drop start data ! (i - 1))
        = byte_before m data (start + i)"
      using len less.prems by (auto simp: byte_before_def)
    show ?thesis
    proof (cases "?cr \<and> i = 0")
      case True
      then show ?thesis by (simp add: read_headers_step [OF Some], subst header_scan.simps)
          (simp add: Some prev)
    next
      case False
      then have ncr: "i = 0 \<longrightarrow> \<not> ?cr" by blast
      note sk = skip_after_line [OF refl Some ncr]
      have dec: "length data - ?ns < length data - start"
        using len skip_line_end_gt [of "if ?cr then start + i - 1 else start + i" data] ncr
        by (cases "i = 0") auto
      have IH: "read_headers m e f rb data ?ns q =
          header_scan e f rb [] LF (after_line ?cr (drop (Suc i) (drop start data))) q"
        if "not_handled_data q = []" for q
      proof -
        have "byte_before m data ?ns = LF"
          using sk(3) skip_line_end_gt [of "if ?cr then start + i - 1 else start + i" data]
          by (simp add: byte_before_def)
        then show ?thesis
          using less.hyps [OF dec sk(1), of q] that by (simp only: sk(2)) (simp add: take_pending_def)
      qed
      have line: "take ((if ?cr then start + i - 1 else start + i) - start) (drop start data)
          = take (if ?cr then i - 1 else i) (drop start data)"
        by simp
      have keep: "line_step e f ?line (p\<lparr>not_handled_data := []\<rparr>) = Inr q \<Longrightarrow> not_handled_data q = []" for q
        by (auto simp: line_step_def split: if_splits prod.splits res.splits outcome.splits dest!: frame)
      have body: "rb q data ?ns = rb q (after_line ?cr (drop (Suc i) (drop start data))) 0" for q
        using rb [OF sk(1)] by (simp only: sk(2))
      let ?rest = "after_line ?cr (drop (Suc i) (drop start data))"
      let ?q = "p\<lparr>not_handled_data := []\<rparr>"
      have L: "read_headers m e f rb data start p =
          (if ?line = [] then rb (?q\<lparr>p_state := BODY_READ\<rparr>) ?rest 0
           else case line_step e f ?line ?q of
               Inl stop \<Rightarrow> stop | Inr p \<Rightarrow> read_headers m e f rb data ?ns p)"
        by (simp only: read_headers_step [OF Some] Let_def if_not_P [OF False] line body)
      have R: "header_scan e f rb (take_pending m p) (byte_before m data start) (drop start data) p =
          (if ?line = [] then rb (?q\<lparr>p_state := BODY_READ\<rparr>) ?rest 0
           else case line_step e f ?line ?q of
               Inl stop \<Rightarrow> stop | Inr p \<Rightarrow> header_scan e f rb [] LF ?rest p)"
        by (subst header_scan.simps) (simp only: Some option.case Let_def prev if_not_P [OF False])
      show ?thesis
        unfolding L R by (cases "line_step e f ?line ?q") (simp_all only: sum.case IH [OF keep])
    qed
  qed
qed

subsection \<open>The invariant of a parser\<close>

text \<open>
  While headers are read there is no body and no length, and there are no headers before the
  first line. A length, once read, is the announced one and is never exceeded by the body.
\<close>

definition announces :: "(string, string) std_map \<Rightarrow> nat \<Rightarrow> bool" where
  "announces hs n \<longleftrightarrow>
     (case map_find ''Content-Length'' hs of None \<Rightarrow> False | Some s \<Rightarrow> stoul s = Some n)"

definition parser_wf :: "'a parser_scheme \<Rightarrow> bool" where
  "parser_wf p \<longleftrightarrow>
     map_wf (p_headers p) \<and>
     (p_headers p \<noteq> [] \<longrightarrow> first_line_handled p) \<and>
     (p_state p = HEADERS_READ \<longrightarrow> content_length p = None) \<and>
     (case content_length p of
        None \<Rightarrow> p_body p = []
      | Some n \<Rightarrow> announces (p_headers p) n \<and> length (p_body p) \<le> n)"

lemma announces_bound: "announces hs n \<Longrightarrow> n < 2 ^ 64"
  by (auto simp: announces_def split: option.splits dest: stoul_bound)

lemma announces_nonempty: "announces hs n \<Longrightarrow> hs \<noteq> []"
  by (auto simp: announces_def map_find_def)

lemma parser_wf_updates [simp]:
  "parser_wf (p\<lparr>not_handled_data := d\<rparr>) = parser_wf p"
  "parser_wf (p\<lparr>p_err := r\<rparr>) = parser_wf p"
  by (simp_all add: parser_wf_def split: option.split)

lemma parser_wf_keep:
  "p_headers q = p_headers p \<Longrightarrow> p_body q = p_body p \<Longrightarrow> content_length q = content_length p \<Longrightarrow>
     p_state q = p_state p \<Longrightarrow> (first_line_handled p \<Longrightarrow> first_line_handled q) \<Longrightarrow>
     parser_wf p \<Longrightarrow> parser_wf q"
  by (auto simp: parser_wf_def split: option.splits)

text \<open>
  Where the next chunk may begin: not with a line feed (it would be the second half of a
  CRLF), unless the parser is inside the body; and the unhandled text must hold no NUL,
  which would end it early.
\<close>

definition parser_cut :: "'a parser_scheme \<Rightarrow> bytes \<Rightarrow> bool" where
  "parser_cut p y \<longleftrightarrow>
     y = [] \<or> p_state p = BODY_READ \<and> p_body p \<noteq> [] \<or>
     hd y \<noteq> LF \<and> NUL \<notin> set (not_handled_data p)"

lemma header_scan_Some:
  assumes "find_char LF rest = Some i" and "cr = ((if i = 0 then prev else rest ! (i - 1)) = CR)"
    and "\<not> (cr \<and> i = 0)"
  shows "header_scan e f rb pre prev rest p =
    (if pre @ take (if cr then i - 1 else i) rest = [] then
       rb (p\<lparr>not_handled_data := [], p_state := BODY_READ\<rparr>) (after_line cr (drop (Suc i) rest)) 0
     else case line_step e f (pre @ take (if cr then i - 1 else i) rest) (p\<lparr>not_handled_data := []\<rparr>) of
         Inl stop \<Rightarrow> stop
       | Inr p \<Rightarrow> header_scan e f rb [] LF (after_line cr (drop (Suc i) rest)) p)"
  using assms(3)
  by (subst header_scan.simps) (simp only: assms(1) option.case Let_def assms(2) [symmetric] if_False)

lemma header_scan_Undefined:
  "find_char LF rest = Some 0 \<Longrightarrow> header_scan e f rb pre CR rest p = Undefined"
  by (subst header_scan.simps) simp

text \<open>
  A rule for the loop: \<open>I\<close> is kept by the header lines, \<open>Q\<close> holds of every way out. Only
  the first line feed can come with a carriage return before the chunk.
\<close>

lemma scan_rule:
  assumes "I p"
    and pending: "\<And>p d. I p \<Longrightarrow> Q (Returns (PENDING, p\<lparr>not_handled_data := d\<rparr>))"
    and body: "\<And>p r. I p \<Longrightarrow> Q (rb (p\<lparr>not_handled_data := [], p_state := BODY_READ\<rparr>) r 0)"
    and stop: "\<And>p line s. I p \<Longrightarrow> line_step e f line (p\<lparr>not_handled_data := []\<rparr>) = Inl s \<Longrightarrow> Q s"
    and step: "\<And>p line q. I p \<Longrightarrow> line_step e f line (p\<lparr>not_handled_data := []\<rparr>) = Inr q \<Longrightarrow> I q"
    and undefined: "find_char LF rest = Some 0 \<Longrightarrow> prev = CR \<Longrightarrow> Q Undefined"
  shows "Q (header_scan e f rb pre prev rest p)"
  using assms(1) undefined
proof (induction "length rest" arbitrary: pre prev rest p rule: less_induct)
  case less
  show ?case
  proof (cases "find_char LF rest")
    case None
    with less.prems(1) pending show ?thesis by (simp add: header_scan_no_lf find_char_None_iff)
  next
    case (Some i)
    define cr where "cr = ((if i = 0 then prev else rest ! (i - 1)) = CR)"
    show ?thesis
    proof (cases "cr \<and> i = 0")
      case True
      then have "prev = CR" and i0: "i = 0" by (auto simp: cr_def)
      with less.prems(2) Some show ?thesis by (simp add: header_scan_Undefined)
    next
      case ncr: False
      let ?r = "after_line cr (drop (Suc i) rest)"
      have "i < length rest" using find_char_Some_split [OF Some] by blast
      then have "length ?r < length rest" using length_after_line [of cr "drop (Suc i) rest"] by simp
      then have go: "Q (header_scan e f rb [] LF ?r q)" if "I q" for q
        using less.hyps [of ?r q LF "[]"] that by simp
      show ?thesis
        unfolding header_scan_Some [OF Some cr_def ncr]
        using less.prems(1) go body stop step by (auto split: sum.split)
    qed
  qed
qed

locale line_parser =
  fixes e :: http_err
    and first_line :: "string \<Rightarrow> 'a parser_scheme \<Rightarrow> (unit, http_error) res \<times> 'a parser_scheme"
    and read_body :: "'a parser_scheme \<Rightarrow> bytes \<Rightarrow> nat \<Rightarrow> (io_state \<times> 'a parser_scheme) outcome"
  assumes body_drop:
      "from \<le> length data \<Longrightarrow> read_body p data from = read_body p (drop from data) 0"
    and body_append:
      "read_body p x 0 = Returns (PENDING, p') \<Longrightarrow> read_body p' y 0 = read_body p (x @ y) 0"
    and body_final:
      "(\<And>p'. read_body p x 0 \<noteq> Returns (PENDING, p')) \<Longrightarrow> read_body p (x @ y) 0 = read_body p x 0"
    and body_pending:
      "read_body p x 0 = Returns (PENDING, p') \<Longrightarrow>
         p_body p' = p_body p @ x \<and> p_state p' = p_state p \<and>
         not_handled_data p' = not_handled_data p"
    and body_wf:
      "parser_wf p \<Longrightarrow> p_state p = BODY_READ \<Longrightarrow> read_body p x 0 = Returns (st, p') \<Longrightarrow>
         parser_wf p' \<and> p_state p' = BODY_READ"
    and body_defined:
      "parser_wf p \<Longrightarrow> read_body p x 0 \<noteq> Undefined"
    and body_throws:
      "read_body p x 0 = Throws ex \<Longrightarrow> ex = Bad_optional_access"
    and first_frame:
      "first_line s p = (r, p') \<Longrightarrow> parser.truncate p' = parser.truncate p"
begin

lemma first_fields:
  assumes "first_line s p = (r, p')"
  shows "p_headers p' = p_headers p \<and> p_body p' = p_body p \<and>
    not_handled_data p' = not_handled_data p \<and> content_length p' = content_length p \<and>
    p_state p' = p_state p \<and> first_line_handled p' = first_line_handled p \<and> p_err p' = p_err p"
  using first_frame [OF assms] by (cases p; cases p'; simp add: parser.defs)

text \<open>What a header line keeps.\<close>

lemma step_frame:
  assumes "line_step e first_line line p = Inr q"
  shows "p_body q = p_body p" and "not_handled_data q = not_handled_data p"
    and "content_length q = content_length p" and "p_state q = p_state p"
    and "map_wf (p_headers p) \<Longrightarrow> map_wf (p_headers q)" and "first_line_handled q"
    and "p_err q = p_err p"
  using assms
  by (auto simp: line_step_def map_insert_wf split: if_splits prod.splits res.splits outcome.splits
      dest!: first_fields)

lemma step_stop:
  assumes "line_step e first_line line p = Inl stop"
  shows "(\<exists>q. stop = Returns (READY, q) \<and> p_body q = p_body p \<and> p_headers q = p_headers p \<and>
            content_length q = content_length p \<and> p_state q = p_state p \<and>
            (first_line_handled p \<longrightarrow> first_line_handled q) \<and> is_err (p_err q))
         \<or> stop = Throws Out_of_range"
  using assms
  by (auto simp: line_step_def parse_header_def substr_def
      split: if_splits prod.splits res.splits outcome.splits option.splits
      dest!: first_fields)

lemma step_wf:
  "parser_wf p \<Longrightarrow> p_state p = HEADERS_READ \<Longrightarrow> line_step e first_line line p = Inr q \<Longrightarrow>
     parser_wf q"
  using step_frame [of line p q] by (auto simp: parser_wf_def split: option.splits)

end

end
