(* ===== verification/Http_Chunks.thy ===== *)
theory Http_Chunks
  imports Http_Scan
begin

text \<open>
  Feeding a parser its input in pieces. Inside \<open>line_parser\<close> the line loop is shown to keep
  the invariant, to give the same result on a chunk cut in two, to ignore what follows the
  end of the message, and to have no undefined behaviour but for a chunk that starts with a
  line feed. The two parsers of the code then interpret \<open>line_parser\<close> and, with it, the
  concept \<open>EntityCreator\<close>.
\<close>

section \<open>Chunks\<close>

lemma find_char_append_Some:
  "find_char c xs = Some i \<Longrightarrow> find_char c (xs @ ys) = Some i"
  by (induction xs arbitrary: i) auto

lemma find_char_append_None:
  "find_char c xs = None \<Longrightarrow> find_char c (xs @ ys) = map_option ((+) (length xs)) (find_char c ys)"
proof (induction xs)
  case Nil
  then show ?case by (cases "find_char c ys") simp_all
next
  case (Cons x xs)
  then show ?case by (cases "find_char c ys") (auto split: if_splits)
qed

lemma after_line_shorter:
  "find_char LF rest = Some i \<Longrightarrow> length (after_line cr (drop (Suc i) rest)) < length rest"
  using length_after_line [of cr "drop (Suc i) rest"] find_char_Some_split [of LF rest i]
  by (metis Suc_leI diff_less le_less_trans length_drop length_pos_if_in_set zero_less_Suc
      in_set_conv_decomp)

lemma after_line_append_cut:
  assumes "rest = [] \<Longrightarrow> y = [] \<or> hd y \<noteq> LF"
  shows "after_line cr (rest @ y) = after_line cr rest @ y"
  using assms by (cases "rest = []") (auto simp: after_line_append, simp add: after_line_def)

context line_parser
begin

text \<open>Every way out of the loop, from a state that satisfies the invariant.\<close>

lemma scan_outcome:
  assumes "parser_wf p" and "p_state p = HEADERS_READ"
  shows "case header_scan e first_line read_body pre prev rest p of
      Returns (st, p') \<Rightarrow> parser_wf p'
    | Throws ex \<Rightarrow> ex = Bad_optional_access \<or> ex = Out_of_range
    | Undefined \<Rightarrow> prev = CR \<and> find_char LF rest = Some 0"
proof (rule scan_rule [where I = "\<lambda>p. parser_wf p \<and> p_state p = HEADERS_READ"])
  fix p :: "'a parser_scheme" and r
  assume I: "parser_wf p \<and> p_state p = HEADERS_READ"
  let ?p = "p\<lparr>not_handled_data := [], p_state := BODY_READ\<rparr>"
  have "parser_wf ?p" using I by (simp add: parser_wf_def split: option.splits)
  then show "case read_body ?p r 0 of Returns (st, p') \<Rightarrow> parser_wf p'
    | Throws ex \<Rightarrow> ex = Bad_optional_access \<or> ex = Out_of_range
    | Undefined \<Rightarrow> prev = CR \<and> find_char LF rest = Some 0"
    using body_wf [of ?p r] body_defined [of ?p r] body_throws [of ?p r]
    by (auto split: outcome.splits)
next
  fix p :: "'a parser_scheme" and line s
  assume I: "parser_wf p \<and> p_state p = HEADERS_READ"
    and stop: "line_step e first_line line (p\<lparr>not_handled_data := []\<rparr>) = Inl s"
  have "parser_wf (p\<lparr>not_handled_data := []\<rparr>)" using I by simp
  with step_stop [OF stop] show "case s of Returns (st, p') \<Rightarrow> parser_wf p'
    | Throws ex \<Rightarrow> ex = Bad_optional_access \<or> ex = Out_of_range
    | Undefined \<Rightarrow> prev = CR \<and> find_char LF rest = Some 0"
    by (auto elim: parser_wf_keep [rotated -1])
next
  fix p q :: "'a parser_scheme" and line
  assume I: "parser_wf p \<and> p_state p = HEADERS_READ"
    and step: "line_step e first_line line (p\<lparr>not_handled_data := []\<rparr>) = Inr q"
  then show "parser_wf q \<and> p_state q = HEADERS_READ"
    using step_wf [OF _ _ step] step_frame(4) [OF step] by simp
qed (use assms in simp_all)

lemma scan_wf:
  assumes "parser_wf p" and "p_state p = HEADERS_READ"
    and "header_scan e first_line read_body pre prev rest p = Returns (st, p')"
  shows "parser_wf p'"
  using scan_outcome [OF assms(1,2), of prev rest pre] assms(3) by simp

lemma scan_final:
  assumes "\<And>p'. header_scan e first_line read_body pre prev x p \<noteq> Returns (PENDING, p')"
  shows "header_scan e first_line read_body pre prev (x @ y) p =
    header_scan e first_line read_body pre prev x p"
  using assms
proof (induction "length x" arbitrary: pre prev x p rule: less_induct)
  case less
  show ?case
  proof (cases "find_char LF x")
    case None
    with less.prems [of "p\<lparr>not_handled_data := not_handled_data p @ x\<rparr>"] show ?thesis
      by (simp add: header_scan_no_lf find_char_None_iff)
  next
    case (Some i)
    define cr where "cr = ((if i = 0 then prev else x ! (i - 1)) = CR)"
    have i: "i < length x" using find_char_Some_split [OF Some] by blast
    have cr': "cr = ((if i = 0 then prev else (x @ y) ! (i - 1)) = CR)"
      using i by (auto simp: cr_def nth_append)
    show ?thesis
    proof (cases "cr \<and> i = 0")
      case True
      then have "prev = CR" and i0: "i = 0" by (auto simp: cr_def)
      moreover note Some [unfolded i0] find_char_append_Some [OF Some, of y, unfolded i0]
      ultimately show ?thesis by (simp only: header_scan_Undefined)
    next
      case ncr: False
      define line where "line = pre @ take (if cr then i - 1 else i) x"
      define d where "d = drop (Suc i) x"
      have eqs: "take (if cr then i - 1 else i) (x @ y) = take (if cr then i - 1 else i) x"
        "drop (Suc i) (x @ y) = d @ y"
        using i by (auto simp: d_def)
      note step = header_scan_Some [OF Some cr_def ncr, of e first_line read_body pre p,
          folded line_def d_def]
      note step' = header_scan_Some [OF find_char_append_Some [OF Some] cr' ncr,
          of e first_line read_body pre p, unfolded eqs, folded line_def]
      show ?thesis
      proof (cases "line = []")
        case True
        have "\<exists>z. after_line cr (d @ y) = after_line cr d @ z"
          by (cases "d = []") (auto simp: after_line_append, simp add: after_line_def)
        then show ?thesis
          using True step step' less.prems
            body_final [of "p\<lparr>not_handled_data := [], p_state := BODY_READ\<rparr>" "after_line cr d"]
          by auto
      next
        case False
        show ?thesis
        proof (cases "line_step e first_line line (p\<lparr>not_handled_data := []\<rparr>)")
          case (Inl stop)
          with False step step' show ?thesis by simp
        next
          case (Inr t)
          with False step have
            eq: "header_scan e first_line read_body pre prev x p
              = header_scan e first_line read_body [] LF (after_line cr d) t" by simp
          have "d \<noteq> []"
            using eq less.prems [of "t\<lparr>not_handled_data := not_handled_data t\<rparr>"]
            by (auto simp: after_line_def header_scan_no_lf)
          moreover have "length (after_line cr d) < length x"
            using after_line_shorter [OF Some] by (simp add: d_def)
          ultimately show ?thesis
            using False Inr step' less.hyps [of "after_line cr d" "[]" LF t] less.prems eq
            by (simp add: after_line_append)
        qed
      qed
    qed
  qed
qed

text \<open>
  A pending scan, continued with \<open>y\<close>. The text carried over is what \<open>c_str\<close> reads of the
  unhandled data when a NUL follows it.
\<close>

lemma scan_append_tail:
  assumes none: "find_char LF x = None" and cut: "parser_cut p' y" and "p_state p = HEADERS_READ"
    and p': "p' = p\<lparr>not_handled_data := not_handled_data p @ x\<rparr>"
  shows "header_scan e first_line read_body (c_str (not_handled_data p')) b y p' =
    header_scan e first_line read_body (c_str (not_handled_data p)) prev (x @ y) p"
proof (cases "y = []")
  case True
  then show ?thesis using none by (simp add: p' header_scan_no_lf find_char_None_iff)
next
  case False
  with cut assms(3) have y: "hd y \<noteq> LF" and "NUL \<notin> set (not_handled_data p')"
    by (auto simp: parser_cut_def p')
  then have cs: "c_str (not_handled_data p') = not_handled_data p @ x"
    "c_str (not_handled_data p) = not_handled_data p" by (simp_all add: p')
  show ?thesis
  proof (cases "find_char LF y")
    case None
    with none show ?thesis by (simp add: p' header_scan_no_lf find_char_None_iff)
  next
    case (Some j)
    with y False have j: "j \<noteq> 0" by (cases y) auto
    have whole: "find_char LF (x @ y) = Some (length x + j)"
      using none Some by (simp add: find_char_append_None)
    define cr where "cr = (y ! (j - 1) = CR)"
    have cr1: "cr = ((if j = 0 then b else y ! (j - 1)) = CR)" and n1: "\<not> (cr \<and> j = 0)"
      using j by (simp_all add: cr_def)
    have cr2: "cr = ((if length x + j = 0 then prev else (x @ y) ! (length x + j - 1)) = CR)"
      and n2: "\<not> (cr \<and> length x + j = 0)"
      using j by (auto simp: cr_def nth_append)
    have tk: "take (if cr then length x + j - 1 else length x + j) (x @ y)
        = x @ take (if cr then j - 1 else j) y" using j by auto
    have dr: "drop (Suc (length x + j)) (x @ y) = drop (Suc j) y" by simp
    have pq: "p'\<lparr>not_handled_data := []\<rparr> = p\<lparr>not_handled_data := []\<rparr>" by (simp add: p')
    show ?thesis
      unfolding header_scan_Some [OF Some cr1 n1] header_scan_Some [OF whole cr2 n2] cs
      by (simp only: tk dr pq append_assoc)
  qed
qed

lemma scan_append:
  assumes "header_scan e first_line read_body (c_str (not_handled_data p)) prev x p
      = Returns (PENDING, p')"
    and "p_state p = HEADERS_READ" and "p_body p = []" and "parser_cut p' y"
  shows "(if p_state p' = BODY_READ then read_body p' y 0
      else header_scan e first_line read_body (c_str (not_handled_data p')) b y p') =
    header_scan e first_line read_body (c_str (not_handled_data p)) prev (x @ y) p"
  using assms(1-3)
proof (induction "length x" arbitrary: prev x p rule: less_induct)
  case less
  show ?case
  proof (cases "find_char LF x")
    case None
    then have "p' = p\<lparr>not_handled_data := not_handled_data p @ x\<rparr>"
      using less.prems(1) by (simp add: header_scan_no_lf find_char_None_iff)
    with scan_append_tail [OF None assms(4) less.prems(2) this] less.prems(2)
    show ?thesis by simp
  next
    case (Some i)
    define cr where "cr = ((if i = 0 then prev else x ! (i - 1)) = CR)"
    have i: "i < length x" using find_char_Some_split [OF Some] by blast
    have ncr: "\<not> (cr \<and> i = 0)"
      using less.prems(1) Some by (auto simp: cr_def header_scan_Undefined)
    have cr': "cr = ((if i = 0 then prev else (x @ y) ! (i - 1)) = CR)"
      using i by (auto simp: cr_def nth_append)
    define pre where "pre = c_str (not_handled_data p)"
    define line where "line = pre @ take (if cr then i - 1 else i) x"
    define d where "d = drop (Suc i) x"
    define q where "q = p\<lparr>not_handled_data := []\<rparr>"
    have eqs: "take (if cr then i - 1 else i) (x @ y) = take (if cr then i - 1 else i) x"
      "drop (Suc i) (x @ y) = d @ y"
      using i by (auto simp: d_def)
    note step = header_scan_Some [OF Some cr_def ncr, of e first_line read_body pre p,
        folded line_def d_def q_def]
    note step' = header_scan_Some [OF find_char_append_Some [OF Some] cr' ncr,
        of e first_line read_body pre p, unfolded eqs, folded line_def q_def]
    have q: "p_body q = []" "p_state q = HEADERS_READ" "not_handled_data q = []"
      using less.prems by (simp_all add: q_def)
    have cut: "parser_cut r y \<Longrightarrow> p_body r = [] \<Longrightarrow> y = [] \<or> hd y \<noteq> LF" for r :: "'a parser_scheme"
      by (auto simp: parser_cut_def)
    show ?thesis
    proof (cases "line = []")
      case True
      with less.prems(1) step have
        r: "read_body (q\<lparr>p_state := BODY_READ\<rparr>) (after_line cr d) 0 = Returns (PENDING, p')"
        by (simp add: pre_def q_def)
      have st: "p_state p' = BODY_READ" and body: "p_body p' = after_line cr d"
        using body_pending [OF r] q by simp_all
      have "after_line cr (d @ y) = after_line cr d @ y"
        using cut [OF assms(4)] body by (intro after_line_append_cut) (auto simp: after_line_def)
      then show ?thesis
        using True step' body_append [OF r, of y] st by (simp add: pre_def q_def)
    next
      case False
      show ?thesis
      proof (cases "line_step e first_line line q")
        case (Inl stop)
        with False less.prems(1) step have "stop = Returns (PENDING, p')" by (simp add: pre_def)
        with step_stop [OF Inl] show ?thesis by auto
      next
        case (Inr t)
        have t: "p_body t = []" "p_state t = HEADERS_READ" "not_handled_data t = []"
          using step_frame [OF Inr] q by simp_all
        from Inr False less.prems(1) step
        have r: "header_scan e first_line read_body [] LF (after_line cr d) t = Returns (PENDING, p')"
          by (simp add: pre_def)
        have "d = [] \<Longrightarrow> p_body p' = []"
          using r t by (auto simp: after_line_def header_scan_no_lf)
        then have "after_line cr (d @ y) = after_line cr d @ y"
          using cut [OF assms(4)] by (intro after_line_append_cut) auto
        moreover have "length (after_line cr d) < length x"
          using after_line_shorter [OF Some] by (simp add: d_def)
        ultimately show ?thesis
          using Inr False step' less.hyps [of "after_line cr d" t LF] r t
          by (simp add: pre_def c_str_def)
      qed
    qed
  qed
qed

text \<open>A pending scan has carried over only bytes it was given.\<close>

lemma scan_unhandled:
  assumes "header_scan e first_line read_body pre prev x p = Returns (PENDING, p')"
  shows "set (not_handled_data p') \<subseteq> set (not_handled_data p) \<union> set x"
  using assms
proof (induction "length x" arbitrary: pre prev x p rule: less_induct)
  case less
  show ?case
  proof (cases "find_char LF x")
    case None
    with less.prems show ?thesis by (auto simp: header_scan_no_lf find_char_None_iff)
  next
    case (Some i)
    define cr where "cr = ((if i = 0 then prev else x ! (i - 1)) = CR)"
    define line where "line = pre @ take (if cr then i - 1 else i) x"
    define r where "r = after_line cr (drop (Suc i) x)"
    define q where "q = p\<lparr>not_handled_data := []\<rparr>"
    have ncr: "\<not> (cr \<and> i = 0)"
    proof
      assume "cr \<and> i = 0"
      then have "prev = CR" and i0: "i = 0" by (auto simp: cr_def)
      with less.prems header_scan_Undefined [OF Some [unfolded i0], of e first_line read_body pre p]
      show False by simp
    qed
    note step = header_scan_Some [OF Some cr_def ncr, of e first_line read_body pre p,
        folded line_def r_def q_def]
    show ?thesis
    proof (cases "line = []")
      case True
      with step less.prems have "read_body (q\<lparr>p_state := BODY_READ\<rparr>) r 0 = Returns (PENDING, p')"
        by (simp add: q_def)
      from body_pending [OF this] show ?thesis by (simp add: q_def)
    next
      case False
      show ?thesis
      proof (cases "line_step e first_line line q")
        case (Inl stop)
        with False step less.prems step_stop [OF Inl] show ?thesis by auto
      next
        case (Inr t)
        with False step less.prems
        have "header_scan e first_line read_body [] LF r t = Returns (PENDING, p')" by simp
        moreover have "length r < length x" using after_line_shorter [OF Some] by (simp add: r_def)
        ultimately have "set (not_handled_data p') \<subseteq> set (not_handled_data t) \<union> set r"
          using less.hyps by blast
        moreover have "not_handled_data t = []" using step_frame(2) [OF Inr] by (simp add: q_def)
        moreover have "set r \<subseteq> set x"
          using set_after_line [of cr "drop (Suc i) x"] set_drop_subset [of "Suc i" x] by (auto simp: r_def)
        ultimately show ?thesis by auto
      qed
    qed
  qed
qed

text \<open>
  A message with a head free of NULs may be cut anywhere but, up to the end of the head,
  before a line feed.
\<close>

lemma head_cut:
  assumes pend: "header_scan e first_line read_body [] b x p = Returns (PENDING, p')"
    and msg: "x @ y = h @ z" and p: "not_handled_data p = []" and h: "NUL \<notin> set h"
    and head: "\<And>w. header_scan e first_line read_body [] b (h @ w) p = read_body q w 0"
    and q: "p_state q = BODY_READ" "not_handled_data q = []"
    and y: "length x \<le> length h \<Longrightarrow> y = [] \<or> hd y \<noteq> LF"
  shows "parser_cut p' y"
proof (cases "length x \<le> length h")
  case True
  then obtain w where "h = x @ w" using msg by (metis append_eq_append_conv_if append_take_drop_id)
  then have "NUL \<notin> set (not_handled_data p')" using scan_unhandled [OF pend] p h by auto
  then show ?thesis using y [OF True] by (auto simp: parser_cut_def)
next
  case False
  then obtain w where w: "x = h @ w" "w \<noteq> []"
    using msg by (metis append_eq_append_conv2 append_Nil2 le_refl length_append le_add1)
  then have "read_body q w 0 = Returns (PENDING, p')" using pend head by simp
  from body_pending [OF this] show ?thesis using q w(2) by (simp add: parser_cut_def)
qed

text \<open>The calls of \<open>operator()\<close>.\<close>

lemma headers_scan_any:
  "read_headers m e first_line read_body x 0 p =
     header_scan e first_line read_body (take_pending m p) (before_chunk m) x p"
proof -
  have "read_headers m e first_line read_body x 0 p =
      header_scan e first_line read_body (take_pending m p) (byte_before m x 0) (drop 0 x) p"
  proof (rule read_headers_scan)
    show "read_body q data k = read_body q (drop k data) 0" if "k \<le> length data" for q data k
      using that by (rule body_drop)
    show "not_handled_data q' = not_handled_data q" if "first_line s q = (r, q')" for s q r q'
      using first_fields [OF that] by simp
  qed simp
  then show ?thesis by (simp add: byte_before_def)
qed

lemma headers_scan:
  "tame m \<Longrightarrow> read_headers m e first_line read_body x 0 p =
     header_scan e first_line read_body (c_str (not_handled_data p)) (before_chunk m) x p"
  by (simp add: headers_scan_any take_pending_def tame_def c_str_def)

lemma call_append:
  assumes "parser_wf p" and "tame m" and "tame m'"
    and "(case p_state p of HEADERS_READ \<Rightarrow> read_headers m e first_line read_body x 0 p
          | BODY_READ \<Rightarrow> read_body p x 0) = Returns (PENDING, p')"
    and "parser_cut p' y"
  shows "(case p_state p' of HEADERS_READ \<Rightarrow> read_headers m' e first_line read_body y 0 p'
          | BODY_READ \<Rightarrow> read_body p' y 0) =
    (case p_state p of HEADERS_READ \<Rightarrow> read_headers m e first_line read_body (x @ y) 0 p
          | BODY_READ \<Rightarrow> read_body p (x @ y) 0)"
proof (cases "p_state p")
  case HEADERS_READ
  with assms(1) have "p_body p = []" by (auto simp: parser_wf_def)
  with HEADERS_READ assms(2-5)
  show ?thesis
    using scan_append [of p "before_chunk m" x p' y "before_chunk m'"]
    by (cases "p_state p'") (simp_all add: headers_scan)
next
  case BODY_READ
  with assms(4) have r: "read_body p x 0 = Returns (PENDING, p')" by simp
  from body_append [OF r] body_pending [OF r] BODY_READ show ?thesis by simp
qed

lemma call_final:
  assumes "\<And>p'. (case p_state p of HEADERS_READ \<Rightarrow> read_headers m e first_line read_body x 0 p
          | BODY_READ \<Rightarrow> read_body p x 0) \<noteq> Returns (PENDING, p')"
  shows "(case p_state p of HEADERS_READ \<Rightarrow> read_headers m e first_line read_body (x @ y) 0 p
          | BODY_READ \<Rightarrow> read_body p (x @ y) 0) =
    (case p_state p of HEADERS_READ \<Rightarrow> read_headers m e first_line read_body x 0 p
          | BODY_READ \<Rightarrow> read_body p x 0)"
  using assms scan_final [of "take_pending m p" "before_chunk m" x p y] body_final [of p x y]
  by (cases "p_state p") (simp_all add: headers_scan_any)

lemma call_wf:
  assumes "parser_wf p"
    and "(case p_state p of HEADERS_READ \<Rightarrow> read_headers m e first_line read_body x 0 p
          | BODY_READ \<Rightarrow> read_body p x 0) = Returns (st, p')"
  shows "parser_wf p'"
  using assms body_wf [of p x st p'] scan_wf
  by (auto simp: headers_scan_any split: parser_state.splits)

lemma call_outcome:
  assumes "parser_wf p"
  shows "case (case p_state p of HEADERS_READ \<Rightarrow> read_headers m e first_line read_body x 0 p
          | BODY_READ \<Rightarrow> read_body p x 0) of
      Returns (st, p') \<Rightarrow> parser_wf p'
    | Throws ex \<Rightarrow> ex = Bad_optional_access \<or> ex = Out_of_range
    | Undefined \<Rightarrow> before_chunk m = CR \<and> x \<noteq> [] \<and> hd x = LF"
proof (cases "p_state p")
  case HEADERS_READ
  have "find_char LF x = Some 0 \<Longrightarrow> x \<noteq> [] \<and> hd x = LF" by (cases x) (auto split: if_splits)
  then show ?thesis
    using scan_outcome [OF assms HEADERS_READ, of "before_chunk m" x "take_pending m p"] HEADERS_READ
    by (auto simp: headers_scan_any split: outcome.splits)
next
  case BODY_READ
  with assms body_wf [of p x] body_defined [of p x] body_throws [of p x] show ?thesis
    by (auto split: outcome.splits)
qed

end

subsection \<open>The parsers of the code\<close>

lemma set_content_length_frame:
  "set_content_length e p = (r, p') \<Longrightarrow>
     p' = p\<lparr>content_length := content_length p'\<rparr> \<and>
     (content_length p \<noteq> None \<longrightarrow> content_length p' = content_length p) \<and>
     (content_length p = None \<longrightarrow>
       (\<forall>n. content_length p' = Some n \<longrightarrow> announces (p_headers p) n))"
  by (cases p) (auto simp: set_content_length_def announces_def split: if_splits option.splits)

lemma set_content_length_idem:
  "set_content_length e p = (r, p') \<Longrightarrow> content_length p' = Some n \<Longrightarrow>
     set_content_length e (p'\<lparr>p_body := b\<rparr>) = (Ok (), p'\<lparr>p_body := b\<rparr>)"
  by (auto simp: set_content_length_def)

text \<open>What \<open>collect_body\<close> does, once the length is known.\<close>

lemma collect_body_cases:
  obtains (none) "content_length (snd (set_content_length e p)) = None"
      and "\<And>data from. collect_body e p data from = Throws Bad_optional_access"
  | (some) n where "content_length (snd (set_content_length e p)) = Some n"
      and "\<And>data from. collect_body e p data from =
        (let p' = p\<lparr>content_length := Some n\<rparr> in
         if n \<le> length data - from + length (p_body p) then
           (if n < length (p_body p) then Undefined
            else Returns (READY, p'\<lparr>p_body := p_body p @ take (n - length (p_body p)) (drop from data)\<rparr>))
         else Returns (PENDING, p'\<lparr>p_body := p_body p @ drop from data\<rparr>))"
proof -
  obtain r p' where sc: "set_content_length e p = (r, p')" by fastforce
  note frame = set_content_length_frame [OF sc]
  have p': "p_body p' = p_body p" using frame by (cases p; cases p') simp
  show ?thesis
  proof (cases "content_length p'")
    case None
    with sc show ?thesis by (intro none) (simp_all add: collect_body_def)
  next
    case (Some n)
    with frame have "p' = p\<lparr>content_length := Some n\<rparr>" by simp
    with Some sc p' show ?thesis
      by (intro some [of n]) (simp_all add: collect_body_def Let_def)
  qed
qed

lemma collect_body_again:
  "content_length p = Some n \<Longrightarrow> collect_body e p data from =
     (if n \<le> length data - from + length (p_body p) then
        (if n < length (p_body p) then Undefined
         else Returns (READY, p\<lparr>p_body := p_body p @ take (n - length (p_body p)) (drop from data)\<rparr>))
      else Returns (PENDING, p\<lparr>p_body := p_body p @ drop from data\<rparr>))"
  by (simp add: collect_body_def set_content_length_def)

lemma collect_body_drop:
  "from \<le> length data \<Longrightarrow> collect_body e p data from = collect_body e p (drop from data) 0"
  by (simp add: collect_body_def Let_def split: option.split)

lemma collect_body_append:
  assumes "collect_body e p x 0 = Returns (PENDING, p')"
  shows "collect_body e p' y 0 = collect_body e p (x @ y) 0"
  using assms
  by (cases rule: collect_body_cases [of e p])
    (auto simp: Let_def collect_body_again take_append split: if_splits)

lemma collect_body_final:
  assumes "\<And>p'. collect_body e p x 0 \<noteq> Returns (PENDING, p')"
  shows "collect_body e p (x @ y) 0 = collect_body e p x 0"
proof (cases rule: collect_body_cases [of e p])
  case none
  then show ?thesis by simp
next
  case (some n)
  have "n \<le> length x + length (p_body p)"
    using assms [of "p\<lparr>content_length := Some n, p_body := p_body p @ x\<rparr>"]
    by (simp add: some(2) Let_def split: if_splits)
  then show ?thesis by (auto simp: some(2) Let_def)
qed

lemma collect_body_pending:
  "collect_body e p x 0 = Returns (PENDING, p') \<Longrightarrow> p_body p' = p_body p @ x \<and>
     p_state p' = p_state p \<and> not_handled_data p' = not_handled_data p"
  by (cases rule: collect_body_cases [of e p]) (auto simp: Let_def split: if_splits)

lemma collect_body_wf:
  assumes "parser_wf p" and "p_state p = BODY_READ" and "collect_body e p x 0 = Returns (st, p')"
  shows "parser_wf p' \<and> p_state p' = BODY_READ"
proof (cases rule: collect_body_cases [of e p])
  case none
  with assms(3) show ?thesis by simp
next
  case (some n)
  obtain r q where sc: "set_content_length e p = (r, q)" by fastforce
  have "announces (p_headers p) n"
    using some(1) sc set_content_length_frame [OF sc] assms(1)
    by (cases "content_length p") (auto simp: parser_wf_def)
  with assms(1,2) some(2) [of x 0] assms(3) show ?thesis
    by (auto simp: parser_wf_def Let_def split: if_splits option.splits)
qed

lemma collect_body_defined: "parser_wf p \<Longrightarrow> collect_body e p x 0 \<noteq> Undefined"
proof (cases rule: collect_body_cases [of e p])
  case none
  then show ?thesis by simp
next
  case (some n)
  obtain r q where sc: "set_content_length e p = (r, q)" by fastforce
  assume "parser_wf p"
  then have "length (p_body p) \<le> n"
    using some(1) sc set_content_length_frame [OF sc]
    by (cases "content_length p") (auto simp: parser_wf_def)
  then show ?thesis by (simp add: some(2) Let_def)
qed

lemma collect_body_throws: "collect_body e p x k = Throws ex \<Longrightarrow> ex = Bad_optional_access"
  by (cases rule: collect_body_cases [of e p]) (auto simp: Let_def split: if_splits)

text \<open>A body that is complete is as long as the headers announced.\<close>

lemma collect_body_complete:
  assumes "parser_wf p" and "collect_body e p x 0 = Returns (READY, p')"
  shows "announces (p_headers p') (length (p_body p'))" and "p_headers p' = p_headers p"
proof -
  show "announces (p_headers p') (length (p_body p'))"
  proof (cases rule: collect_body_cases [of e p])
    case none
    with assms(2) show ?thesis by simp
  next
    case (some n)
    obtain r q where sc: "set_content_length e p = (r, q)" by fastforce
    have "announces (p_headers p) n"
      using some(1) sc set_content_length_frame [OF sc] assms(1)
      by (cases "content_length p") (auto simp: parser_wf_def)
    with some(2) [of x 0] assms(2) show ?thesis by (auto simp: Let_def split: if_splits)
  qed
  show "p_headers p' = p_headers p"
    using assms(2) by (cases rule: collect_body_cases [of e p]) (auto simp: Let_def split: if_splits)
qed

lemma collect_body_method:
  fixes p :: request_parser
  shows "collect_body e p x 0 = Returns (st, p') \<Longrightarrow> p_method p' = p_method p"
  by (cases rule: collect_body_cases [of e p]) (auto simp: Let_def split: if_splits)

lemma parse_request_line_frame:
  "parse_request_line s p = (r, p') \<Longrightarrow> parser.truncate p' = parser.truncate p"
  by (auto simp: parse_request_line_def Let_def parser.defs split: option.splits if_splits)

lemma parse_status_line_frame:
  "parse_status_line s p = (r, p') \<Longrightarrow> parser.truncate p' = parser.truncate p"
  by (auto simp: parse_status_line_def Let_def parser.defs split: option.splits if_splits res.splits)

interpretation req_lines: line_parser HTTP_REQUEST_PARSE parse_request_line request_read_body
proof
  fix p p' :: request_parser and x y :: bytes and k :: nat and st :: io_state
  show "k \<le> length x \<Longrightarrow> request_read_body p x k = request_read_body p (drop k x) 0"
    unfolding request_read_body_def using collect_body_drop [of k x HTTP_REQUEST_PARSE p] by simp
  show "(\<And>p'. request_read_body p x 0 \<noteq> Returns (PENDING, p')) \<Longrightarrow>
      request_read_body p (x @ y) 0 = request_read_body p x 0"
    unfolding request_read_body_def
    using collect_body_final [of HTTP_REQUEST_PARSE p x y] by (cases "p_method p = ''GET''") simp_all
  show "parser_wf p \<Longrightarrow> p_state p = BODY_READ \<Longrightarrow> request_read_body p x 0 = Returns (st, p') \<Longrightarrow>
      parser_wf p' \<and> p_state p' = BODY_READ"
    unfolding request_read_body_def
    using collect_body_wf [of p HTTP_REQUEST_PARSE x st p'] by (simp split: if_splits)
  show "parser_wf p \<Longrightarrow> request_read_body p x 0 \<noteq> Undefined"
    unfolding request_read_body_def
    using collect_body_defined [of p HTTP_REQUEST_PARSE x] by simp
  show "request_read_body p x 0 = Throws ex \<Longrightarrow> ex = Bad_optional_access" for ex
    unfolding request_read_body_def
    using collect_body_throws [of HTTP_REQUEST_PARSE p x 0 ex] by (simp split: if_splits)
  assume "request_read_body p x 0 = Returns (PENDING, p')"
  then have ng: "p_method p \<noteq> ''GET''"
    and c: "collect_body HTTP_REQUEST_PARSE p x 0 = Returns (PENDING, p')"
    unfolding request_read_body_def by (simp_all split: if_splits)
  show "p_body p' = p_body p @ x \<and> p_state p' = p_state p \<and>
      not_handled_data p' = not_handled_data p"
    by (rule collect_body_pending [OF c])
  show "request_read_body p' y 0 = request_read_body p (x @ y) 0"
    unfolding request_read_body_def
    using ng collect_body_method [OF c] collect_body_append [OF c, of y] by simp
qed (rule parse_request_line_frame)

interpretation resp_lines: line_parser HTTP_RESPONSE_PARSE parse_status_line response_read_body
proof
  fix p p' :: response_parser and x y :: bytes and k :: nat and st :: io_state
  show "k \<le> length x \<Longrightarrow> response_read_body p x k = response_read_body p (drop k x) 0"
    unfolding response_read_body_def by (rule collect_body_drop)
  show "response_read_body p x 0 = Returns (PENDING, p') \<Longrightarrow>
      response_read_body p' y 0 = response_read_body p (x @ y) 0"
    unfolding response_read_body_def by (rule collect_body_append)
  show "(\<And>p'. response_read_body p x 0 \<noteq> Returns (PENDING, p')) \<Longrightarrow>
      response_read_body p (x @ y) 0 = response_read_body p x 0"
    unfolding response_read_body_def by (rule collect_body_final)
  show "response_read_body p x 0 = Returns (PENDING, p') \<Longrightarrow>
      p_body p' = p_body p @ x \<and> p_state p' = p_state p \<and>
      not_handled_data p' = not_handled_data p"
    unfolding response_read_body_def by (rule collect_body_pending)
  show "parser_wf p \<Longrightarrow> p_state p = BODY_READ \<Longrightarrow> response_read_body p x 0 = Returns (st, p') \<Longrightarrow>
      parser_wf p' \<and> p_state p' = BODY_READ"
    unfolding response_read_body_def by (rule collect_body_wf)
  show "parser_wf p \<Longrightarrow> response_read_body p x 0 \<noteq> Undefined"
    unfolding response_read_body_def by (rule collect_body_defined)
  show "response_read_body p x 0 = Throws ex \<Longrightarrow> ex = Bad_optional_access" for ex
    unfolding response_read_body_def by (rule collect_body_throws)
qed (rule parse_status_line_frame)

lemma parser_cut_prefix: "parser_cut p (y @ z) \<Longrightarrow> parser_cut p y"
  by (cases y) (auto simp: parser_cut_def)

subsection \<open>The invariant of a response parser\<close>

text \<open>Without an error, a handled first line has set the status code.\<close>

definition response_wf :: "response_parser \<Rightarrow> bool" where
  "response_wf p \<longleftrightarrow> parser_wf p \<and>
     (is_ok (p_err p) \<and> first_line_handled p \<longrightarrow> r_code p \<noteq> None)"

lemma parse_status_line_code:
  "parse_status_line s p = (Ok u, p') \<Longrightarrow> r_code p' \<noteq> None"
  by (auto simp: parse_status_line_def Let_def split: option.splits if_splits res.splits)

lemma response_body_frame:
  "response_read_body p x k = Returns (st, p') \<Longrightarrow> p_err p' = p_err p \<and>
     first_line_handled p' = first_line_handled p \<and> r_code p' = r_code p"
  unfolding response_read_body_def
  by (cases rule: collect_body_cases [of HTTP_RESPONSE_PARSE p]) (auto simp: Let_def split: if_splits)

lemma response_scan_code:
  assumes "is_ok (p_err p) \<and> first_line_handled p \<longrightarrow> r_code p \<noteq> None"
    and "header_scan HTTP_RESPONSE_PARSE parse_status_line response_read_body pre prev x p
      = Returns (st, p')"
  shows "is_ok (p_err p') \<and> first_line_handled p' \<longrightarrow> r_code p' \<noteq> None"
proof -
  let ?I = "\<lambda>p :: response_parser. is_ok (p_err p) \<and> first_line_handled p \<longrightarrow> r_code p \<noteq> None"
  let ?Q = "\<lambda>out. \<forall>st p'. out = Returns (st, p') \<longrightarrow> ?I p'"
  have "?Q (header_scan HTTP_RESPONSE_PARSE parse_status_line response_read_body pre prev x p)"
  proof (rule scan_rule [where I = ?I])
    show "?Q (response_read_body (p\<lparr>not_handled_data := [], p_state := BODY_READ\<rparr>) r 0)"
      if "?I p" for p r
      using that by (auto dest!: response_body_frame)
    show "?Q s" if "line_step HTTP_RESPONSE_PARSE parse_status_line line
        (p\<lparr>not_handled_data := []\<rparr>) = Inl s" for p line s
      using resp_lines.step_stop [OF that] by auto
    show "?I q" if "?I p" and step: "line_step HTTP_RESPONSE_PARSE parse_status_line line
        (p\<lparr>not_handled_data := []\<rparr>) = Inr q" for p line q
      using that by (auto simp: line_step_def split: if_splits prod.splits res.splits outcome.splits
          dest: parse_status_line_code)
  qed (use assms(1) in simp_all)
  with assms(2) show ?thesis by blast
qed

lemma response_call_wf:
  assumes "response_wf p" and "ResponseParser_call m x p = Returns (st, p')"
  shows "response_wf p'"
proof -
  have "parser_wf p'"
    using assms resp_lines.call_wf [of p m x st p']
    unfolding response_wf_def ResponseParser_call_def by blast
  moreover have "is_ok (p_err p') \<and> first_line_handled p' \<longrightarrow> r_code p' \<noteq> None"
  proof (cases "p_state p")
    case HEADERS_READ
    with assms show ?thesis
      using response_scan_code [of p "take_pending m p" "before_chunk m" x st p']
      by (simp add: ResponseParser_call_def resp_lines.headers_scan_any response_wf_def)
  next
    case BODY_READ
    with assms response_body_frame [of p x 0 st p'] show ?thesis
      by (simp add: ResponseParser_call_def response_wf_def)
  qed
  ultimately show ?thesis by (simp add: response_wf_def)
qed

subsection \<open>The concept\<close>

interpretation req_creator: entity_creator RequestParser_call parser_wf parser_cut
  unfolding RequestParser_call_def
  by unfold_locales
    (rule req_lines.call_wf req_lines.call_append req_lines.call_final parser_cut_prefix; assumption)+

interpretation resp_creator: entity_creator ResponseParser_call response_wf parser_cut
proof
  fix m m' :: mem and x y z :: bytes and p p' :: response_parser and st :: io_state
  show "response_wf p \<Longrightarrow> ResponseParser_call m x p = Returns (st, p') \<Longrightarrow> response_wf p'"
    by (rule response_call_wf)
  show "response_wf p \<Longrightarrow> tame m \<Longrightarrow> tame m' \<Longrightarrow>
      ResponseParser_call m x p = Returns (PENDING, p') \<Longrightarrow> parser_cut p' y \<Longrightarrow>
      ResponseParser_call m' y p' = ResponseParser_call m (x @ y) p"
    unfolding ResponseParser_call_def response_wf_def by (rule resp_lines.call_append) simp_all
  show "response_wf p \<Longrightarrow> tame m \<Longrightarrow> (\<And>p'. ResponseParser_call m x p \<noteq> Returns (PENDING, p')) \<Longrightarrow>
      ResponseParser_call m (x @ y) p = ResponseParser_call m x p"
    unfolding ResponseParser_call_def by (rule resp_lines.call_final)
  show "parser_cut p (y @ z) \<Longrightarrow> parser_cut p y" by (rule parser_cut_prefix)
qed

end
