(* ===== verification/Http_Roundtrip.thy ===== *)
theory Http_Roundtrip
  imports Http_Chunks Http_Serializer
begin

text \<open>
  The parsers against the serializers: what a serializer writes for a well-formed message,
  the parser reads back. Well-formed says only what the text format needs (no separator
  inside a field, a Content-Length that is the length of the body). Also here: what the
  parsers do with the messages that are not well formed in one respect.
\<close>

section \<open>Parsing what was serialized\<close>

subsection \<open>Well-formed messages\<close>

definition text_ok :: "string \<Rightarrow> bool" where
  "text_ok s \<longleftrightarrow> LF \<notin> set s \<and> NUL \<notin> set s"

definition word_ok :: "string \<Rightarrow> bool" where
  "word_ok s \<longleftrightarrow> s \<noteq> [] \<and> SP \<notin> set s \<and> text_ok s"

definition headers_ok :: "(string, string) std_map \<Rightarrow> bool" where
  "headers_ok hs \<longleftrightarrow>
     map_wf hs \<and> list_all (\<lambda>(k, v). text_ok k \<and> CHR '':'' \<notin> set k \<and> text_ok v) hs"

definition request_line_ok :: "request \<Rightarrow> bool" where
  "request_line_ok r \<longleftrightarrow> word_ok (req_method r) \<and> word_ok (req_path r) \<and>
     req_version r \<noteq> [] \<and> text_ok (req_version r)"

definition request_ok :: "request \<Rightarrow> bool" where
  "request_ok r \<longleftrightarrow> request_line_ok r \<and> headers_ok (req_headers r) \<and>
     (if req_method r = ''GET'' then req_body r = []
      else announces (req_headers r) (length (req_body r)))"

definition status_line_ok :: "response \<Rightarrow> bool" where
  "status_line_ok r \<longleftrightarrow> word_ok (resp_version r) \<and> status_valid (resp_code r) \<and>
     resp_status r \<noteq> [] \<and> text_ok (resp_status r)"

definition response_ok :: "response \<Rightarrow> bool" where
  "response_ok r \<longleftrightarrow> status_line_ok r \<and> headers_ok (resp_headers r) \<and>
     announces (resp_headers r) (length (resp_body r))"

lemma text_ok_c_str [simp]: "text_ok s \<Longrightarrow> c_str s = s"
  by (simp add: text_ok_def)

subsection \<open>Header lines\<close>

lemma parse_header_line:
  "CHR '':'' \<notin> set k \<Longrightarrow> parse_header e (k @ '': '' @ v) = Returns (Ok (k, v))"
proof -
  assume "CHR '':'' \<notin> set k"
  then have "find_char (CHR '':'') (k @ CHR '':'' # SP # v) = Some (length k)"
    by (rule find_char_append)
  then show ?thesis by (simp add: parse_header_def)
qed

text \<open>A header whose value is missing altogether makes \<open>substr\<close> throw.\<close>

lemma parse_header_no_value:
  "CHR '':'' \<notin> set k \<Longrightarrow> parse_header e (k @ '':'') = Throws Out_of_range"
  using find_char_append [of "CHR '':''" k "[]"] by (simp add: parse_header_def)

lemma parse_header_no_colon:
  "CHR '':'' \<notin> set s \<Longrightarrow> parse_header e s = Returns (Err (http_error_of e))"
  using find_char_None_iff [of "CHR '':''" s] by (simp add: parse_header_def)

lemma scan_headers:
  assumes "list_all (\<lambda>(k, v). text_ok k \<and> CHR '':'' \<notin> set k \<and> text_ok v) hs"
    and "first_line_handled p" and "not_handled_data p = []"
  shows "header_scan e f rb [] prev (concat (map header_line hs) @ rest) p =
    (if hs = [] then header_scan e f rb [] prev rest p
     else header_scan e f rb [] LF rest
       (p\<lparr>p_headers := fold (\<lambda>(k, v). map_insert k v) hs (p_headers p)\<rparr>))"
  using assms
proof (induction hs arbitrary: p prev)
  case Nil
  then show ?case by simp
next
  case (Cons h hs)
  obtain k v where h: "h = (k, v)" by (cases h)
  from Cons.prems have kv: "text_ok k" "CHR '':'' \<notin> set k" "text_ok v" by (simp_all add: h)
  let ?line = "k @ '': '' @ v"
  let ?p = "p\<lparr>p_headers := map_insert k v (p_headers p)\<rparr>"
  have "LF \<notin> set ?line" using kv by (simp add: text_ok_def)
  note step = header_scan_crlf [OF this, of e f rb "[]" prev
      "concat (map header_line hs) @ rest" p]
  have "line_step e f ?line (p\<lparr>not_handled_data := []\<rparr>) = Inr ?p"
    using Cons.prems parse_header_line [OF kv(2), of e v] by (simp add: line_step_def)
  then have "header_scan e f rb [] prev (concat (map header_line (h # hs)) @ rest) p =
      header_scan e f rb [] LF (concat (map header_line hs) @ rest) ?p"
    using step kv by (simp add: h header_line_def)
  also have "\<dots> = (if hs = [] then header_scan e f rb [] LF rest ?p
     else header_scan e f rb [] LF rest
       (?p\<lparr>p_headers := fold (\<lambda>(k, v). map_insert k v) hs (p_headers ?p)\<rparr>))"
    using Cons.prems by (intro Cons.IH) simp_all
  finally show ?case by (simp add: h)
qed

lemma scan_blank_line:
  "header_scan e f rb [] prev (CRLF @ rest) p =
     rb (p\<lparr>not_handled_data := [], p_state := BODY_READ\<rparr>) rest 0"
  using header_scan_crlf [of "[]" e f rb "[]" prev rest p] by simp

text \<open>The lines of a head: first line and headers.\<close>

lemma scan_head_lines:
  assumes line: "LF \<notin> set line" "line \<noteq> []"
    and first: "f line (p\<lparr>first_line_handled := True\<rparr>) = (Ok (), q)"
    and hs: "list_all (\<lambda>(k, v). text_ok k \<and> CHR '':'' \<notin> set k \<and> text_ok v) hs"
    and p: "\<not> first_line_handled p" "not_handled_data p = []"
    and q: "first_line_handled q" "not_handled_data q = []"
  shows "header_scan e f rb [] prev (line @ CRLF @ concat (map header_line hs) @ rest) p =
    header_scan e f rb [] LF rest
      (q\<lparr>p_headers := fold (\<lambda>(k, v). map_insert k v) hs (p_headers q)\<rparr>)"
proof -
  have p': "p\<lparr>not_handled_data := []\<rparr> = p" using p(2) by simp
  have step: "line_step e f line p = Inr q" using p(1) first by (simp add: line_step_def)
  have "header_scan e f rb [] prev (line @ CRLF @ concat (map header_line hs) @ rest) p =
      header_scan e f rb [] LF (concat (map header_line hs) @ rest) q"
    unfolding header_scan_crlf [OF line(1)] using line(2) by (simp add: p' step)
  then show ?thesis
    unfolding scan_headers [OF hs q] by (simp split: if_splits)
qed

text \<open>A whole head, with its blank line.\<close>

lemma scan_head:
  assumes line: "LF \<notin> set line" "line \<noteq> []"
    and first: "f line (p\<lparr>first_line_handled := True\<rparr>) = (Ok (), q)"
    and hs: "list_all (\<lambda>(k, v). text_ok k \<and> CHR '':'' \<notin> set k \<and> text_ok v) hs"
    and p: "\<not> first_line_handled p" "not_handled_data p = []"
    and q: "first_line_handled q" "not_handled_data q = []"
  shows "header_scan e f rb [] prev (line @ CRLF @ concat (map header_line hs) @ CRLF @ rest) p =
    rb (q\<lparr>p_headers := fold (\<lambda>(k, v). map_insert k v) hs (p_headers q), p_state := BODY_READ\<rparr>) rest 0"
proof -
  have "header_scan e f rb [] prev (line @ CRLF @ concat (map header_line hs) @ CRLF @ rest) p =
    header_scan e f rb [] LF (CRLF @ rest)
      (q\<lparr>p_headers := fold (\<lambda>(k, v). map_insert k v) hs (p_headers q)\<rparr>)"
    by (rule scan_head_lines) (fact assms)+
  then show ?thesis unfolding scan_blank_line using q(2) by (cases q) simp
qed

subsection \<open>First lines\<close>

lemma parse_request_line_words:
  assumes "word_ok m" and "word_ok t" and "v \<noteq> []"
  shows "parse_request_line (m @ [SP] @ t @ [SP] @ v) p =
    (Ok (), p\<lparr>p_method := m, p_path := t, p_version := v\<rparr>)"
proof -
  have 1: "find_char SP (m @ SP # t @ SP # v) = Some (length m)"
    using assms(1) by (intro find_char_append) (simp add: word_ok_def)
  have 2: "find_char_from SP (m @ SP # t @ SP # v) (Suc (length m)) = Some (Suc (length m) + length t)"
    using assms(2) find_char_from_append [of "m @ [SP]" "Suc (length m)" SP t v]
    by (simp add: word_ok_def)
  show ?thesis
    using assms by (simp add: parse_request_line_def 1 2 word_ok_def Let_def)
qed

lemma parse_status_line_words:
  assumes "word_ok w" and "status_valid c" and "v \<noteq> []"
  shows "parse_status_line (w @ [SP] @ to_string_int (status_get c) @ [SP] @ v) p =
    (Ok (), p\<lparr>r_version := w, r_code := Some c, r_status := v\<rparr>)"
proof -
  let ?s = "to_string (nat (status_get c))"
  have s: "to_string_int (status_get c) = ?s"
    using assms(2) by (simp add: status_valid_def to_string_int_def)
  have nosp: "SP \<notin> set ?s" using to_string_digits digit_props(5) by blast
  have 1: "find_char SP (w @ SP # ?s @ SP # v) = Some (length w)"
    using assms(1) by (intro find_char_append) (simp add: word_ok_def)
  have 2: "find_char_from SP (w @ SP # ?s @ SP # v) (Suc (length w)) = Some (Suc (length w) + length ?s)"
    using find_char_from_append [OF _ nosp, of "w @ [SP]" "Suc (length w)" v] by simp
  show ?thesis
    using assms status_from_string_to_string [OF assms(2)]
    by (simp add: parse_status_line_def s 1 2 word_ok_def Let_def)
qed

subsection \<open>Whole messages\<close>

lemma rebuild_headers: "map_wf hs \<Longrightarrow> fold (\<lambda>(k, v). map_insert k v) hs [] = hs"
  by (rule smap.rebuild)

lemma collect_announced:
  assumes "announces (p_headers p) n" and "content_length p = None" and "p_body p = []"
  shows "collect_body e p data 0 =
    (if n \<le> length data
     then Returns (READY, p\<lparr>content_length := Some n, p_body := take n data\<rparr>)
     else Returns (PENDING, p\<lparr>content_length := Some n, p_body := data\<rparr>))"
  using assms
  by (auto simp: announces_def collect_body_def set_content_length_def Let_def split: option.splits)

text \<open>The parser after the head of a request.\<close>

definition request_parsed :: "request \<Rightarrow> request_parser" where
  "request_parsed r = RequestParser\<lparr>first_line_handled := True, p_method := req_method r,
     p_path := req_path r, p_version := req_version r, p_headers := req_headers r,
     p_state := BODY_READ\<rparr>"

lemma request_lines_read:
  assumes "request_line_ok r" and "headers_ok (req_headers r)"
  shows "RequestParser_call m (req_method r @ [SP] @ req_path r @ [SP] @ req_version r @ CRLF @
      concat (map header_line (req_headers r)) @ rest) RequestParser =
    header_scan HTTP_REQUEST_PARSE parse_request_line request_read_body [] LF rest
      (request_parsed r\<lparr>p_state := HEADERS_READ\<rparr>)"
proof -
  let ?line = "req_method r @ [SP] @ req_path r @ [SP] @ req_version r"
  let ?q = "RequestParser\<lparr>first_line_handled := True, p_method := req_method r,
     p_path := req_path r, p_version := req_version r\<rparr>"
  have ok: "text_ok (req_method r)" "text_ok (req_path r)" "text_ok (req_version r)"
    using assms(1) by (auto simp: request_line_ok_def word_ok_def)
  have hs: "list_all (\<lambda>(k, v). text_ok k \<and> CHR '':'' \<notin> set k \<and> text_ok v) (req_headers r)"
    and wf: "map_wf (req_headers r)" using assms(2) by (auto simp: headers_ok_def)
  have lf: "LF \<notin> set ?line" "?line \<noteq> []" using ok by (simp_all add: text_ok_def)
  have first: "parse_request_line ?line (RequestParser\<lparr>first_line_handled := True\<rparr>) = (Ok (), ?q)"
    using assms(1) parse_request_line_words by (simp add: request_line_ok_def)
  have "RequestParser_call m (?line @ CRLF @ concat (map header_line (req_headers r)) @ rest) RequestParser =
      header_scan HTTP_REQUEST_PARSE parse_request_line request_read_body [] (before_chunk m)
        (?line @ CRLF @ concat (map header_line (req_headers r)) @ rest) RequestParser"
    by (simp add: RequestParser_call_def RequestParser_def req_lines.headers_scan_any
        take_pending_def)
  also have "\<dots> = header_scan HTTP_REQUEST_PARSE parse_request_line request_read_body [] LF rest
      (?q\<lparr>p_headers := fold (\<lambda>(k, v). map_insert k v) (req_headers r) (p_headers ?q)\<rparr>)"
    by (rule scan_head_lines) (fact lf first hs | simp add: RequestParser_def)+
  finally show ?thesis
    using rebuild_headers [OF wf] by (simp add: request_parsed_def RequestParser_def)
qed

lemma request_head_words:
  "request_line_ok r \<Longrightarrow> request_head r = req_method r @ [SP] @ req_path r @ [SP] @ req_version r @
     CRLF @ concat (map header_line (req_headers r)) @ CRLF"
  by (simp add: request_head_def request_line_ok_def word_ok_def)

lemma request_head_read:
  assumes "request_line_ok r" and "headers_ok (req_headers r)"
  shows "RequestParser_call m (request_head r @ rest) RequestParser =
    request_read_body (request_parsed r) rest 0"
proof -
  have "request_head r @ rest = req_method r @ [SP] @ req_path r @ [SP] @ req_version r @ CRLF @
      concat (map header_line (req_headers r)) @ CRLF @ rest"
    by (simp add: request_head_words [OF assms(1)])
  then show ?thesis
    using request_lines_read [OF assms, of m "CRLF @ rest"] unfolding scan_blank_line
    by (simp add: request_parsed_def RequestParser_def)
qed

definition response_parsed :: "response \<Rightarrow> response_parser" where
  "response_parsed r = ResponseParser\<lparr>first_line_handled := True, r_version := resp_version r,
     r_code := Some (resp_code r), r_status := resp_status r, p_headers := resp_headers r,
     p_state := BODY_READ\<rparr>"

lemma response_head_read:
  assumes "status_line_ok r" and "headers_ok (resp_headers r)"
  shows "ResponseParser_call m (response_head r @ rest) ResponseParser =
    response_read_body (response_parsed r) rest 0"
proof -
  let ?code = "to_string_int (status_get (resp_code r))"
  let ?line = "resp_version r @ [SP] @ ?code @ [SP] @ resp_status r"
  let ?q = "ResponseParser\<lparr>first_line_handled := True, r_version := resp_version r,
     r_code := Some (resp_code r), r_status := resp_status r\<rparr>"
  have ok: "text_ok (resp_version r)" "text_ok (resp_status r)"
    using assms(1) by (auto simp: status_line_ok_def word_ok_def)
  have "?code = to_string (nat (status_get (resp_code r)))"
    using assms(1) by (simp add: status_line_ok_def status_valid_def to_string_int_def)
  then have "LF \<notin> set ?code" using to_string_digits digit_props(7) by metis
  then have lf: "LF \<notin> set ?line" "?line \<noteq> []" using ok by (simp_all add: text_ok_def)
  have hs: "list_all (\<lambda>(k, v). text_ok k \<and> CHR '':'' \<notin> set k \<and> text_ok v) (resp_headers r)"
    and wf: "map_wf (resp_headers r)" using assms(2) by (auto simp: headers_ok_def)
  have first: "parse_status_line ?line (ResponseParser\<lparr>first_line_handled := True\<rparr>) = (Ok (), ?q)"
    using assms(1) parse_status_line_words by (simp add: status_line_ok_def)
  have "ResponseParser_call m (response_head r @ rest) ResponseParser =
      header_scan HTTP_RESPONSE_PARSE parse_status_line response_read_body [] (before_chunk m)
        (?line @ CRLF @ concat (map header_line (resp_headers r)) @ CRLF @ rest) ResponseParser"
    using ok by (simp add: ResponseParser_call_def ResponseParser_def resp_lines.headers_scan_any
        take_pending_def response_head_def)
  also have "\<dots> = response_read_body (?q\<lparr>p_headers := fold (\<lambda>(k, v). map_insert k v) (resp_headers r)
      (p_headers ?q), p_state := BODY_READ\<rparr>) rest 0"
    by (rule scan_head) (fact lf first hs | simp add: ResponseParser_def)+
  finally show ?thesis
    using rebuild_headers [OF wf] by (simp add: response_parsed_def ResponseParser_def)
qed

text \<open>The parsers accept a whole well-formed message, whatever follows it, and rebuild it.\<close>

lemma request_accepted:
  assumes "request_ok r"
  obtains p where "RequestParser_call m (request_head r @ req_body r @ rest) RequestParser
      = Returns (READY, p)"
    and "request_create_entity p = Ok r"
proof -
  have head: "RequestParser_call m (request_head r @ req_body r @ rest) RequestParser =
      request_read_body (request_parsed r) (req_body r @ rest) 0"
    using assms by (intro request_head_read) (auto simp: request_ok_def)
  show ?thesis
  proof (cases "req_method r = ''GET''")
    case True
    then show ?thesis
      using assms head
      by (intro that [of "request_parsed r"])
        (auto simp: request_read_body_def request_parsed_def request_create_entity_def
          RequestParser_def request_ok_def)
  next
    case False
    then have "announces (p_headers (request_parsed r)) (length (req_body r))"
      using assms by (simp add: request_ok_def request_parsed_def)
    then show ?thesis
      using False head
      by (intro that [of "request_parsed r\<lparr>content_length := Some (length (req_body r)),
            p_body := req_body r\<rparr>"])
        (auto simp: request_read_body_def collect_announced request_parsed_def
          request_create_entity_def RequestParser_def)
  qed
qed

lemma response_accepted:
  assumes "response_ok r"
  obtains p where "ResponseParser_call m (response_head r @ resp_body r @ rest) ResponseParser
      = Returns (READY, p)"
    and "response_create_entity p = Returns (Ok r)"
proof -
  have head: "ResponseParser_call m (response_head r @ resp_body r @ rest) ResponseParser =
      response_read_body (response_parsed r) (resp_body r @ rest) 0"
    using assms by (intro response_head_read) (auto simp: response_ok_def)
  have "announces (p_headers (response_parsed r)) (length (resp_body r))"
    using assms by (simp add: response_ok_def response_parsed_def)
  then show ?thesis
    using head
    by (intro that [of "response_parsed r\<lparr>content_length := Some (length (resp_body r)),
          p_body := resp_body r\<rparr>"])
      (auto simp: response_read_body_def collect_announced response_parsed_def
        response_create_entity_def ResponseParser_def)
qed

end
