(* ===== verification/Http_Transfer.thy ===== *)
theory Http_Transfer
  imports Http_Roundtrip
begin

text \<open>
  The HTTP layer end to end: what \<open>write_entity\<close> puts on the wire with a serializer,
  \<open>read_entity\<close> gets off it with the parser, however the stream is cut into chunks; the
  invariant of the parsers; and their behaviour on messages they do not expect.
\<close>

section \<open>Messages in chunks\<close>

text \<open>
  \<open>head_cuts h xs\<close>: the chunks \<open>xs\<close> of a message with a head of \<open>h\<close> bytes are never cut
  before a line feed, up to the end of the head.
\<close>

fun head_cuts :: "nat \<Rightarrow> bytes list \<Rightarrow> bool" where
  "head_cuts h [] = True"
| "head_cuts h (x # xs) =
     (length x \<le> h \<longrightarrow> (concat xs = [] \<or> hd (concat xs) \<noteq> LF) \<and> head_cuts (h - length x) xs)"

lemma head_cuts_at:
  "head_cuts h xs \<Longrightarrow> 0 < n \<Longrightarrow> n \<le> length xs \<Longrightarrow> length (concat (take n xs)) \<le> h \<Longrightarrow>
     concat (drop n xs) = [] \<or> hd (concat (drop n xs)) \<noteq> LF"
proof (induction h xs arbitrary: n rule: head_cuts.induct)
  case (1 h)
  then show ?case by simp
next
  case (2 h x xs)
  from 2(3) obtain k where n: "n = Suc k" by (cases n) auto
  with 2(5) have x: "length x \<le> h" and rest: "length (concat (take k xs)) \<le> h - length x" by simp_all
  with 2(2) have cut: "concat xs = [] \<or> hd (concat xs) \<noteq> LF" and cuts: "head_cuts (h - length x) xs"
    by simp_all
  show ?case
  proof (cases "k = 0")
    case True
    with cut n show ?thesis by simp
  next
    case False
    then have "0 < k" by simp
    moreover have "k \<le> length xs" using 2(4) n by simp
    ultimately show ?thesis using 2(1) [OF x cuts _ _ rest] n by simp
  qed
qed

lemma chunks_split: "concat xs = concat (take n xs) @ concat (drop n xs)"
  by (metis append_take_drop_id concat_append)

lemma text_ok_no_nul: "text_ok s \<Longrightarrow> NUL \<notin> set s"
  by (simp add: text_ok_def)

lemma headers_no_nul:
  assumes "headers_ok hs"
  shows "NUL \<notin> set (concat (map header_line hs))"
proof
  assume "NUL \<in> set (concat (map header_line hs))"
  then obtain k v where kv: "(k, v) \<in> set hs" and "NUL \<in> set (header_line (k, v))" by fastforce
  then have "NUL \<in> set k \<or> NUL \<in> set v" by (auto simp: header_line_def)
  moreover have "text_ok k \<and> text_ok v" using assms kv by (auto simp: headers_ok_def list_all_iff)
  ultimately show False by (auto simp: text_ok_def)
qed

lemma request_head_no_nul:
  assumes "request_line_ok r" and "headers_ok (req_headers r)"
  shows "NUL \<notin> set (request_head r)"
  using assms(1) headers_no_nul [OF assms(2)]
  by (auto simp: request_head_def request_line_ok_def word_ok_def text_ok_no_nul)

lemma response_head_no_nul:
  assumes "status_line_ok r" and "headers_ok (resp_headers r)"
  shows "NUL \<notin> set (response_head r)"
proof -
  have "to_string_int (status_get (resp_code r)) = to_string (nat (status_get (resp_code r)))"
    using assms(1) by (simp add: status_line_ok_def status_valid_def to_string_int_def)
  then have "NUL \<notin> set (to_string_int (status_get (resp_code r)))"
    using to_string_digits digit_props by metis
  then show ?thesis
    using assms(1) headers_no_nul [OF assms(2)]
    by (auto simp: response_head_def status_line_ok_def word_ok_def text_ok_no_nul)
qed

lemma request_cut:
  assumes ok: "request_line_ok r" "headers_ok (req_headers r)"
    and pend: "RequestParser_call m x RequestParser = Returns (PENDING, p')"
    and msg: "x @ y = request_head r @ z"
    and y: "length x \<le> length (request_head r) \<Longrightarrow> y = [] \<or> hd y \<noteq> LF"
  shows "parser_cut p' y"
proof (rule req_lines.head_cut [where b = "before_chunk m" and p = RequestParser])
  have call: "RequestParser_call m d RequestParser = header_scan HTTP_REQUEST_PARSE parse_request_line
      request_read_body [] (before_chunk m) d RequestParser" for d
    by (simp add: RequestParser_call_def RequestParser_def req_lines.headers_scan_any take_pending_def)
  show "header_scan HTTP_REQUEST_PARSE parse_request_line request_read_body [] (before_chunk m) x
      RequestParser = Returns (PENDING, p')" using pend call by simp
  show "header_scan HTTP_REQUEST_PARSE parse_request_line request_read_body [] (before_chunk m)
      (request_head r @ w) RequestParser = request_read_body (request_parsed r) w 0" for w
    using request_head_read [OF ok, of m w] call by simp
qed (use msg y request_head_no_nul [OF ok] in \<open>simp_all add: RequestParser_def request_parsed_def\<close>)

lemma response_cut:
  assumes ok: "status_line_ok r" "headers_ok (resp_headers r)"
    and pend: "ResponseParser_call m x ResponseParser = Returns (PENDING, p')"
    and msg: "x @ y = response_head r @ z"
    and y: "length x \<le> length (response_head r) \<Longrightarrow> y = [] \<or> hd y \<noteq> LF"
  shows "parser_cut p' y"
proof (rule resp_lines.head_cut [where b = "before_chunk m" and p = ResponseParser])
  have call: "ResponseParser_call m d ResponseParser = header_scan HTTP_RESPONSE_PARSE parse_status_line
      response_read_body [] (before_chunk m) d ResponseParser" for d
    by (simp add: ResponseParser_call_def ResponseParser_def resp_lines.headers_scan_any take_pending_def)
  show "header_scan HTTP_RESPONSE_PARSE parse_status_line response_read_body [] (before_chunk m) x
      ResponseParser = Returns (PENDING, p')" using pend call by simp
  show "header_scan HTTP_RESPONSE_PARSE parse_status_line response_read_body [] (before_chunk m)
      (response_head r @ w) ResponseParser = response_read_body (response_parsed r) w 0" for w
    using response_head_read [OF ok, of m w] call by simp
qed (use msg y response_head_no_nul [OF ok] in \<open>simp_all add: ResponseParser_def response_parsed_def\<close>)

lemma parser_wf_initial [wf_intros]: "parser_wf RequestParser" "response_wf ResponseParser"
  by (simp_all add: response_wf_def parser_wf_def RequestParser_def ResponseParser_def map_wf_def)

lemma request_head_nonempty [simp]: "request_head r \<noteq> []"
  by (simp add: request_head_def)

lemma response_head_nonempty [simp]: "response_head r \<noteq> []"
  by (simp add: response_head_def)

lemma read_request_chunks:
  assumes ok: "request_ok r" and ws: "list_all2 delivers ws xs"
    and msg: "concat xs = request_head r @ req_body r @ rest"
    and cuts: "head_cuts (length (request_head r)) xs"
  shows "read_entity RequestParser_call (\<lambda>p. Returns (request_create_entity p)) http_error_of_io
    ws RequestParser = Some (Returns (Ok r))"
proof (rule req_creator.read_chunks [OF parser_wf_initial(1) ws])
  show "xs \<noteq> []" using msg by auto
  show "\<exists>c'. RequestParser_call m (concat xs) RequestParser = Returns (READY, c') \<and>
      Returns (request_create_entity c') = Returns (Ok r)" for m
    using request_accepted [OF ok, of m rest] msg by (metis)
  fix n m c'
  assume n: "0 < n" "n < length xs"
    and pend: "RequestParser_call m (concat (take n xs)) RequestParser = Returns (PENDING, c')"
  show "parser_cut c' (concat (drop n xs))"
  proof (rule request_cut [OF _ _ pend])
    show "request_line_ok r" "headers_ok (req_headers r)" using ok by (simp_all add: request_ok_def)
    show "concat (take n xs) @ concat (drop n xs) = request_head r @ req_body r @ rest"
      using msg chunks_split [of xs n] by simp
    show "concat (drop n xs) = [] \<or> hd (concat (drop n xs)) \<noteq> LF"
      if "length (concat (take n xs)) \<le> length (request_head r)"
      using head_cuts_at [OF cuts n(1) less_imp_le [OF n(2)] that] .
  qed
qed

lemma read_response_chunks:
  assumes ok: "response_ok r" and ws: "list_all2 delivers ws xs"
    and msg: "concat xs = response_head r @ resp_body r @ rest"
    and cuts: "head_cuts (length (response_head r)) xs"
  shows "read_entity ResponseParser_call response_create_entity http_error_of_io
    ws ResponseParser = Some (Returns (Ok r))"
proof (rule resp_creator.read_chunks [OF parser_wf_initial(2) ws])
  show "xs \<noteq> []" using msg by auto
  show "\<exists>c'. ResponseParser_call m (concat xs) ResponseParser = Returns (READY, c') \<and>
      response_create_entity c' = Returns (Ok r)" for m
    using response_accepted [OF ok, of m rest] msg by (metis)
  fix n m c'
  assume n: "0 < n" "n < length xs"
    and pend: "ResponseParser_call m (concat (take n xs)) ResponseParser = Returns (PENDING, c')"
  show "parser_cut c' (concat (drop n xs))"
  proof (rule response_cut [OF _ _ pend])
    show "status_line_ok r" "headers_ok (resp_headers r)" using ok by (simp_all add: response_ok_def)
    show "concat (take n xs) @ concat (drop n xs) = response_head r @ resp_body r @ rest"
      using msg chunks_split [of xs n] by simp
    show "concat (drop n xs) = [] \<or> hd (concat (drop n xs)) \<noteq> LF"
      if "length (concat (take n xs)) \<le> length (response_head r)"
      using head_cuts_at [OF cuts n(1) less_imp_le [OF n(2)] that] .
  qed
qed

text \<open>With room for every byte (and for an empty part), a request is written whole.\<close>

lemma write_request:
  assumes "list_all has_room ws"
    and "max 1 (length (request_head r)) + max 1 (length (req_body r)) < length ws"
  shows "\<exists>ws'. write_entity request_get_data request_state ws (RequestSerializer r) 0 [] =
    (Some (Ok 0), request_head r @ req_body r, ws')"
proof -
  have "sum_list (map (\<lambda>d. max 1 (length d)) (ser_parts (RequestSerializer r))) < length ws"
    using assms(2) by (simp add: RequestSerializer_parts)
  from req_ser.write_entity_enough [OF assms(1) this] obtain out ws' where
    w: "write_entity request_get_data request_state ws (RequestSerializer r) 0 [] = (Some (Ok 0), out, ws')"
    by blast
  then show ?thesis using req_ser.write_entity_sends [OF w] by (simp add: RequestSerializer_parts)
qed

lemma write_response:
  assumes "list_all has_room ws"
    and "max 1 (length (response_head r)) + max 1 (length (resp_body r)) < length ws"
  shows "\<exists>ws'. write_entity response_get_data response_state ws (ResponseSerializer r) 0 [] =
    (Some (Ok 0), response_head r @ resp_body r, ws')"
proof -
  have "sum_list (map (\<lambda>d. max 1 (length d)) (ser_parts (ResponseSerializer r))) < length ws"
    using assms(2) by (simp add: ResponseSerializer_parts)
  from resp_ser.write_entity_enough [OF assms(1) this] obtain out ws' where
    w: "write_entity response_get_data response_state ws (ResponseSerializer r) 0 [] = (Some (Ok 0), out, ws')"
    by blast
  then show ?thesis using resp_ser.write_entity_sends [OF w] by (simp add: ResponseSerializer_parts)
qed

section \<open>Properties\<close>

definition sample_request :: request where
  "sample_request = \<lparr>req_method = ''PUT'', req_path = ''/a'', req_version = ''HTTP/1.1'',
     req_headers = [(''Content-Length'', ''2'')], req_body = ''hi''\<rparr>"

definition sample_response :: response where
  "sample_response = \<lparr>resp_version = ''HTTP/1.1'', resp_code = Status 200, resp_status = ''OK'',
     resp_headers = [(''Content-Length'', ''2'')], resp_body = ''hi''\<rparr>"

definition chunk :: "bytes \<Rightarrow> read_wakeup" where
  "chunk x = \<lparr>r_event = TO_READ, r_result = Sys_ok x, r_mem = \<lparr>before_chunk = CR, after_pending = []\<rparr>\<rparr>"

lemma sample_content_length: "stoul ''2'' = Some 2"
  by (simp add: stoul_def split_sign_def is_space_def is_digit_def digit_val_def)

lemmas sample_simps = sample_content_length sample_request_def sample_response_def request_ok_def
  request_line_ok_def response_ok_def status_line_ok_def status_valid_def word_ok_def text_ok_def
  headers_ok_def announces_def map_find_def map_wf_def

lemma sample_code: "to_string 200 = ''200''"
  by code_simp

lemmas sample_bytes = sample_code sample_request_def sample_response_def request_head_def response_head_def
  header_line_def c_str_def to_string_int_def

text \<open>
  A request in three chunks, cut in its first line and in its body, the last with the beginning of
  the next request; and a response in three chunks.
\<close>

lemma sample_request_chunks:
  "request_ok sample_request"
  "list_all2 delivers [chunk (take 9 (request_head sample_request)),
       chunk (drop 9 (request_head sample_request) @ ''h''), chunk ''iGET'']
     [take 9 (request_head sample_request), drop 9 (request_head sample_request) @ ''h'', ''iGET'']"
  "concat [take 9 (request_head sample_request), drop 9 (request_head sample_request) @ ''h'',
      ''iGET''] = request_head sample_request @ req_body sample_request @ ''GET''"
  "head_cuts (length (request_head sample_request))
     [take 9 (request_head sample_request), drop 9 (request_head sample_request) @ ''h'', ''iGET'']"
     apply (simp add: sample_simps)
    apply (simp add: delivers_def chunk_def read_part_def socket_read_part_def tame_def)
   apply (simp add: sample_request_def)
  apply (simp add: sample_bytes)
  done

lemma sample_response_chunks:
  "response_ok sample_response"
  "list_all2 delivers [chunk (take 9 (response_head sample_response)),
       chunk (drop 9 (response_head sample_response) @ ''h''), chunk ''i'']
     [take 9 (response_head sample_response), drop 9 (response_head sample_response) @ ''h'', ''i'']"
  "concat [take 9 (response_head sample_response), drop 9 (response_head sample_response) @ ''h'',
      ''i''] = response_head sample_response @ resp_body sample_response @ []"
  "head_cuts (length (response_head sample_response))
     [take 9 (response_head sample_response), drop 9 (response_head sample_response) @ ''h'', ''i'']"
     apply (simp add: sample_simps)
    apply (simp add: delivers_def chunk_def read_part_def socket_read_part_def tame_def)
   apply (simp add: sample_response_def)
  apply (simp add: sample_bytes)
  done







lemma request_complete:
  assumes "parser_wf p" and "RequestParser_call m x p = Returns (READY, p')" and "is_ok (p_err p')"
  shows "p_method p' = ''GET'' \<or> announces (p_headers p') (length (p_body p'))"
proof -
  let ?Q = "\<lambda>out. \<forall>p' :: request_parser. out = Returns (READY, p') \<longrightarrow> is_ok (p_err p') \<longrightarrow>
      p_method p' = ''GET'' \<or> announces (p_headers p') (length (p_body p'))"
  have body: "?Q (request_read_body p r 0)" if "parser_wf p" for p r
    using that collect_body_complete(1) [of p HTTP_REQUEST_PARSE r]
    by (auto simp: request_read_body_def)
  have "?Q (RequestParser_call m x p)"
  proof (cases "p_state p")
    case BODY_READ
    with body assms(1) show ?thesis by (simp add: RequestParser_call_def)
  next
    case HEADERS_READ
    have "?Q (header_scan HTTP_REQUEST_PARSE parse_request_line request_read_body
        (take_pending m p) (before_chunk m) x p)"
    proof (rule scan_rule [where I = "\<lambda>p. parser_wf p \<and> p_state p = HEADERS_READ"])
      show "?Q (request_read_body (p\<lparr>not_handled_data := [], p_state := BODY_READ\<rparr>) r 0)"
        if "parser_wf p \<and> p_state p = HEADERS_READ" for p r
        using that by (intro body) (simp add: parser_wf_def split: option.splits)
      show "?Q s" if "line_step HTTP_REQUEST_PARSE parse_request_line line
          (p\<lparr>not_handled_data := []\<rparr>) = Inl s" for p line s
        using req_lines.step_stop [OF that] by auto
      show "parser_wf q \<and> p_state q = HEADERS_READ"
        if "parser_wf p \<and> p_state p = HEADERS_READ" and
          "line_step HTTP_REQUEST_PARSE parse_request_line line (p\<lparr>not_handled_data := []\<rparr>) = Inr q"
        for p line q
        using that req_lines.step_wf [OF _ _ that(2)] req_lines.step_frame(4) [OF that(2)] by simp
    qed (use assms(1) HEADERS_READ in simp_all)
    with HEADERS_READ show ?thesis
      by (simp add: RequestParser_call_def req_lines.headers_scan_any)
  qed
  with assms(2,3) show ?thesis by blast
qed

lemma response_complete:
  assumes "response_wf p" and "ResponseParser_call m x p = Returns (READY, p')" and "is_ok (p_err p')"
  shows "announces (p_headers p') (length (p_body p')) \<and> r_code p' \<noteq> None"
proof -
  let ?Q = "\<lambda>out. \<forall>p' :: response_parser. out = Returns (READY, p') \<longrightarrow> is_ok (p_err p') \<longrightarrow>
      announces (p_headers p') (length (p_body p'))"
  have body: "?Q (response_read_body p r 0)" if "parser_wf p" for p r
    using that collect_body_complete(1) [of p HTTP_RESPONSE_PARSE r]
    by (auto simp: response_read_body_def)
  have wf: "parser_wf p" using assms(1) by (simp add: response_wf_def)
  have "?Q (ResponseParser_call m x p)"
  proof (cases "p_state p")
    case BODY_READ
    with body wf show ?thesis by (simp add: ResponseParser_call_def)
  next
    case HEADERS_READ
    have "?Q (header_scan HTTP_RESPONSE_PARSE parse_status_line response_read_body
        (take_pending m p) (before_chunk m) x p)"
    proof (rule scan_rule [where I = "\<lambda>p. parser_wf p \<and> p_state p = HEADERS_READ"])
      show "?Q (response_read_body (p\<lparr>not_handled_data := [], p_state := BODY_READ\<rparr>) r 0)"
        if "parser_wf p \<and> p_state p = HEADERS_READ" for p r
        using that by (intro body) (simp add: parser_wf_def split: option.splits)
      show "?Q s" if "line_step HTTP_RESPONSE_PARSE parse_status_line line
          (p\<lparr>not_handled_data := []\<rparr>) = Inl s" for p line s
        using resp_lines.step_stop [OF that] by auto
      show "parser_wf q \<and> p_state q = HEADERS_READ"
        if "parser_wf p \<and> p_state p = HEADERS_READ" and
          "line_step HTTP_RESPONSE_PARSE parse_status_line line (p\<lparr>not_handled_data := []\<rparr>) = Inr q"
        for p line q
        using that resp_lines.step_wf [OF _ _ that(2)] resp_lines.step_frame(4) [OF that(2)] by simp
    qed (use wf HEADERS_READ in simp_all)
    with HEADERS_READ show ?thesis
      by (simp add: ResponseParser_call_def resp_lines.headers_scan_any)
  qed
  then have ann: "announces (p_headers p') (length (p_body p'))" using assms(2,3) by blast
  have "response_wf p'" by (rule response_call_wf [OF assms(1,2)])
  then have "r_code p' \<noteq> None"
    using ann [THEN announces_nonempty] assms(3) by (simp add: response_wf_def parser_wf_def)
  with ann show ?thesis by simp
qed




text \<open>
  Building the response is safe. The initial response parser is well formed,
  every call keeps it so, and when one reports \<open>READY\<close>, \<open>create_entity\<close> returns: it never
  throws on a status line that was not read.
\<close>

lemma response_create_total:
  assumes "response_wf p" and "ResponseParser_call m x p = Returns (st, p')"
  shows "response_wf ResponseParser \<and> response_wf p' \<and>
    (st = READY \<longrightarrow> (\<exists>r. response_create_entity p' = Returns r))"
proof -
  have "\<exists>r. response_create_entity p' = Returns r" if "st = READY"
    using response_complete [OF assms(1), of m x p'] assms(2) that
    by (cases "p_err p'") (auto simp: response_create_entity_def)
  then show ?thesis using parser_wf_initial(2) response_call_wf [OF assms] by blast
qed

lemma response_create_total_witness:
  "response_wf (ResponseParser\<lparr>not_handled_data := ''HTTP''\<rparr>)"
  using response_create_total [of ResponseParser "r_mem (chunk [])" "''HTTP''" PENDING
      "ResponseParser\<lparr>not_handled_data := ''HTTP''\<rparr>", OF parser_wf_initial(2)]
  by (simp add: ResponseParser_call_def ResponseParser_def read_headers.simps)



text \<open>
  Property C35: a failed or unfinished write has sent a prefix of the message, head first; a
  successful one has sent all of it. The count it returns is always the one it was called
  with: the counts of the parts are dropped.
\<close>

theorem write_message_prefix:
  assumes "write_entity request_get_data request_state ws (RequestSerializer r) sended out
      = (res, sent, ws')"
    and "write_entity response_get_data response_state vs (ResponseSerializer p) sended out
      = (res', sent', vs')"
  shows "(\<exists>k. sent = out @ take k (request_head r @ req_body r)) \<and>
    (\<forall>n. res = Some (Ok n) \<longrightarrow> n = sended \<and> sent = out @ request_head r @ req_body r) \<and>
    (\<exists>k. sent' = out @ take k (response_head p @ resp_body p)) \<and>
    (\<forall>n. res' = Some (Ok n) \<longrightarrow> n = sended \<and> sent' = out @ response_head p @ resp_body p)"
  using req_ser.write_entity_sends [OF assms(1)] resp_ser.write_entity_sends [OF assms(2)]
  by (simp only: RequestSerializer_parts ResponseSerializer_parts concat.simps append_Nil2) blast

theorem write_message_prefix_witness:
  "(\<exists>k. ''P'' = [] @ take k (request_head sample_request @ req_body sample_request)) \<and>
    (\<exists>k. ''HT'' = [] @ take k (response_head sample_response @ resp_body sample_response))"
proof -
  have 1: "write_entity request_get_data request_state [(TO_WRITE, Sys_ok 1), (CLOSED, Sys_ok 9)]
      (RequestSerializer sample_request) 0 [] = (Some (Err CONNECTION_CLOSED), ''P'', [])"
    by (simp add: write_entity.simps request_get_data_def request_state_def RequestSerializer_def
        Let_def back_inserter_def insert_header_def sample_bytes write_part_def socket_write_part_def)
  have 2: "write_entity response_get_data response_state [(TO_WRITE, Sys_ok 2)]
      (ResponseSerializer sample_response) 0 [] = (None, ''HT'', [])"
    by (simp add: write_entity.simps response_get_data_def response_state_def ResponseSerializer_def
        Let_def back_inserter_def insert_header_def sample_bytes write_part_def socket_write_part_def)
  show ?thesis using write_message_prefix [OF 1 2] by blast
qed

text \<open>
  The end of a stream is never noticed. A socket at its end is readable and reads
  0 bytes; a parser that is still in the head stays pending on each such read, so the future
  of \<open>read_entity\<close> is never ready, however often it is woken up.
\<close>

lemma read_entity_at_end_of_stream:
  assumes "p_state p = HEADERS_READ" and "p_state q = HEADERS_READ"
    and "list_all (\<lambda>w. read_part w = Ok []) ws"
  shows "read_entity RequestParser_call create E ws p = None \<and>
    read_entity ResponseParser_call create' E ws q = None"
proof -
  have "RequestParser_call m [] p = Returns (PENDING, p)" for m
    using assms(1) by (simp add: RequestParser_call_def read_headers.simps)
  moreover have "ResponseParser_call m [] q = Returns (PENDING, q)" for m
    using assms(2) by (simp add: ResponseParser_call_def read_headers.simps)
  ultimately show ?thesis using read_entity_starves assms(3) by metis
qed

lemma read_entity_at_end_of_stream_witness:
  "read_entity RequestParser_call (\<lambda>p. Returns (request_create_entity p)) http_error_of_io
      [chunk [], chunk []] RequestParser = None \<and>
    read_entity ResponseParser_call response_create_entity http_error_of_io
      [chunk [], chunk []] ResponseParser = None"
  by (rule read_entity_at_end_of_stream)
    (simp_all add: RequestParser_def ResponseParser_def chunk_def read_part_def socket_read_part_def)

text \<open>
  The length is asked for, whatever the method. After a well-formed head without
  a Content-Length, the parser of a request that is not a \<open>GET\<close>, and that of any response,
  throws out of \<open>value()\<close> instead of reporting a parse error, though such messages (a
  \<open>DELETE\<close>, a response without a body) are legal.
\<close>

lemma missing_length_throws:
  assumes "request_line_ok r" and "headers_ok (req_headers r)" and "req_method r \<noteq> ''GET''"
    and "map_find ''Content-Length'' (req_headers r) = None"
    and "status_line_ok p" and "headers_ok (resp_headers p)"
    and "map_find ''Content-Length'' (resp_headers p) = None"
  shows "RequestParser_call m (request_head r @ rest) RequestParser = Throws Bad_optional_access \<and>
    ResponseParser_call m (response_head p @ rest) ResponseParser = Throws Bad_optional_access"
  unfolding request_head_read [OF assms(1,2)] response_head_read [OF assms(5,6)]
  using assms(3,4,7)
  by (simp add: request_read_body_def response_read_body_def collect_body_def
      set_content_length_def request_parsed_def response_parsed_def
      RequestParser_def ResponseParser_def)

lemma missing_length_throws_witness:
  "RequestParser_call (r_mem (chunk []))
      (request_head (sample_request\<lparr>req_method := ''DELETE'', req_headers := []\<rparr>) @ []) RequestParser
      = Throws Bad_optional_access \<and>
    ResponseParser_call (r_mem (chunk []))
      (response_head (sample_response\<lparr>resp_headers := []\<rparr>) @ []) ResponseParser
      = Throws Bad_optional_access"
  by (rule missing_length_throws) (simp_all add: sample_simps)

text \<open>
  A chunk boundary inside the blank line loses the request. If the chunk that ends
  with the carriage return of the blank line is followed by one that starts with its line
  feed, the parser takes the two as a header line and reports a parse error, for a request
  that is accepted in any other cut; and if the byte before the second chunk's memory happens
  to be a carriage return, the copy loop runs off the chunk.
\<close>

lemma blank_line_cut:
  assumes "request_line_ok r" and "headers_ok (req_headers r)" and "tame m'"
  shows "\<exists>p. RequestParser_call m (butlast (request_head r)) RequestParser = Returns (PENDING, p) \<and>
    (case RequestParser_call m' (LF # rest) p of
       Returns (st, p') \<Rightarrow> before_chunk m' \<noteq> CR \<and> st = READY \<and>
         request_create_entity p' = Err (http_error_of HTTP_REQUEST_PARSE)
     | Throws ex \<Rightarrow> False
     | Undefined \<Rightarrow> before_chunk m' = CR)"
proof -
  let ?q = "request_parsed r\<lparr>p_state := HEADERS_READ\<rparr>"
  let ?p = "?q\<lparr>not_handled_data := [CR]\<rparr>"
  have "butlast (request_head r) = req_method r @ [SP] @ req_path r @ [SP] @ req_version r @
      CRLF @ concat (map header_line (req_headers r)) @ [CR]"
    by (simp add: request_head_words [OF assms(1)] butlast_append)
  then have first: "RequestParser_call m (butlast (request_head r)) RequestParser = Returns (PENDING, ?p)"
    using request_lines_read [OF assms(1,2), of m "[CR]"]
    by (simp add: header_scan_no_lf request_parsed_def RequestParser_def)
  have "line_step HTTP_REQUEST_PARSE parse_request_line [CR] ?q =
      Inl (Returns (READY, ?q\<lparr>p_err := Err (http_error_of HTTP_REQUEST_PARSE)\<rparr>))"
    using parse_header_no_colon [of "[CR]" HTTP_REQUEST_PARSE]
    by (simp add: line_step_def request_parsed_def)
  moreover have "?p\<lparr>not_handled_data := []\<rparr> = ?q"
    by (simp add: request_parsed_def RequestParser_def)
  ultimately have "header_scan HTTP_REQUEST_PARSE parse_request_line request_read_body [CR]
      (before_chunk m') (LF # rest) ?p =
      (if before_chunk m' = CR then Undefined
       else Returns (READY, ?q\<lparr>p_err := Err (http_error_of HTTP_REQUEST_PARSE)\<rparr>))"
    by (subst header_scan.simps) (simp add: Let_def)
  moreover have "RequestParser_call m' (LF # rest) ?p = header_scan HTTP_REQUEST_PARSE
      parse_request_line request_read_body [CR] (before_chunk m') (LF # rest) ?p"
    using assms(3)
    by (simp add: RequestParser_call_def req_lines.headers_scan c_str_def)
  ultimately show ?thesis
    using first by (intro exI [of _ ?p]) (simp add: request_create_entity_def)
qed

lemma blank_line_cut_witness:
  "\<exists>p. RequestParser_call (r_mem (chunk [])) (butlast (request_head sample_request)) RequestParser
      = Returns (PENDING, p) \<and>
    (case RequestParser_call \<lparr>before_chunk = NUL, after_pending = []\<rparr> (LF # ''hi'') p of
       Returns (st, p') \<Rightarrow> before_chunk \<lparr>before_chunk = NUL, after_pending = []\<rparr> \<noteq> CR \<and> st = READY \<and>
         request_create_entity p' = Err (http_error_of HTTP_REQUEST_PARSE)
     | Throws ex \<Rightarrow> False
     | Undefined \<Rightarrow> before_chunk \<lparr>before_chunk = NUL, after_pending = []\<rparr> = CR)"
  by (rule blank_line_cut) (simp_all add: sample_simps tame_def)

end
