(* ===== verification/Serv_Conf.thy ===== *)
theory Serv_Conf
  imports Std_Map Res
begin

text \<open>
  \<open>config-parser/serv-conf/ServConf\<close>: the tokenizer and the recursive parser of the
  configuration language. A configuration is a tree of operators (\<open>key args ;\<close>) and blocks
  (\<open>key args { ... }\<close>), kept in multimaps from keys to nodes. The parser consumes the token
  list it is given by reference; here it returns what is left of it. A thrown \<open>ParseErr\<close>
  is the error alternative.
\<close>

section \<open>Tokens\<close>

abbreviation TAB :: char where "TAB \<equiv> CHR 0x09"

definition keychars :: "char list" where
  "keychars = [SP, LF, TAB, CHR ''#'', CHR ''{'', CHR ''}'', CHR '';'']"

text \<open>A moved-from string is empty.\<close>

definition add_token :: "string \<Rightarrow> string list \<Rightarrow> string list" where
  "add_token str tokens = (if str \<noteq> [] then tokens @ [str] else tokens)"

text \<open>\<open>s\<close> is what is left from index \<open>i\<close> on; a comment takes the line, and the loop's
  increment its line feed.\<close>

function tokenize_from :: "string \<Rightarrow> string \<Rightarrow> string list \<Rightarrow> string list" where
  "tokenize_from [] str tokens = add_token str tokens"
| "tokenize_from (c # s) str tokens =
     (if c \<notin> set keychars then tokenize_from s (str @ [c]) tokens
      else if c = SP \<or> c = LF \<or> c = TAB then tokenize_from s [] (add_token str tokens)
      else if c = CHR ''#'' then
        tokenize_from (tl (dropWhile (\<lambda>c. c \<noteq> LF) (c # s))) []
          (add_token (takeWhile (\<lambda>c. c \<noteq> LF) (c # s)) (add_token str tokens))
      else tokenize_from s [] (add_token str tokens @ [[c]]))"
  by pat_completeness auto
termination
proof (relation "measure (\<lambda>(s, str, tokens). length s)", goal_cases)
  case (4 c s str tokens)
  have "length (dropWhile (\<lambda>c. c \<noteq> LF) (c # s)) \<le> Suc (length s)"
    using length_dropWhile_le [of "\<lambda>c. c \<noteq> LF" "c # s"] by simp
  then have "length (tl (dropWhile (\<lambda>c. c \<noteq> LF) (c # s))) < Suc (length s)" by simp
  then show ?case by simp
qed auto

declare tokenize_from.simps [simp del]

definition tokenize :: "string \<Rightarrow> string list" where
  "tokenize s = tokenize_from s [] []"

section \<open>Nodes\<close>

datatype parse_err =
  EXTRA_BRACKET
| OPERATOR_NOT_CLOSED
| BLOCK_IS_EMPTY
| OPERATOR_IS_EMPTY
| BLOCK_HAS_NO_KEY

definition parse_err_code :: "parse_err \<Rightarrow> nat" where
  "parse_err_code e =
     (case e of EXTRA_BRACKET \<Rightarrow> 0 | OPERATOR_NOT_CLOSED \<Rightarrow> 1 | BLOCK_IS_EMPTY \<Rightarrow> 2
      | OPERATOR_IS_EMPTY \<Rightarrow> 3 | BLOCK_HAS_NO_KEY \<Rightarrow> 4)"

definition err_description :: "parse_err \<Rightarrow> string" where
  "err_description e =
     [''extra bracket'', ''operator not closed'', ''block is empty'', ''operator is empty'',
      ''block has no key''] ! parse_err_code e"

datatype conf_node =
  Node (get_args: "string list") (node_nodes: "(string \<times> conf_node list) list option")

type_synonym node_map = "(string, conf_node list) std_map"

definition is_operator :: "conf_node \<Rightarrow> bool" where
  "is_operator n = (node_nodes n = None)"

definition get_by_key :: "conf_node \<Rightarrow> string \<Rightarrow> conf_node list option" where
  "get_by_key n key =
     (case node_nodes n of None \<Rightarrow> None | Some nodes \<Rightarrow> map_find key nodes)"

datatype serv_conf = ServConf (global: node_map)

definition conf_get_by_key :: "serv_conf \<Rightarrow> string \<Rightarrow> conf_node list option" where
  "conf_get_by_key conf key = map_find key (global conf)"

section \<open>The parser\<close>

text \<open>
  \<open>first_char\<close> is \<open>(*it)[0]\<close>, a NUL for an empty string. As words are spliced out of the
  token list and everything else is erased from it, \<open>it\<close> is always its beginning.
  Termination needs that a block leaves no more tokens than it was given.
\<close>

definition first_char :: "string \<Rightarrow> char" where
  "first_char s = (case s of [] \<Rightarrow> NUL | c # _ \<Rightarrow> c)"

function parse ::
  "string list \<Rightarrow> nat \<Rightarrow> string list \<Rightarrow> node_map \<Rightarrow> (node_map \<times> string list, parse_err) res" where
  "parse [] depth curr_tokens nodes =
     (if curr_tokens \<noteq> [] then Err OPERATOR_NOT_CLOSED else Ok (nodes, []))"
| "parse (t # tokens) depth curr_tokens nodes =
     (if first_char t = CHR ''#'' then parse tokens depth curr_tokens nodes
      else if first_char t = CHR ''{'' then
        (if curr_tokens = [] then Err BLOCK_HAS_NO_KEY
         else (case parse tokens (depth + 1) [] [] of
            Err e \<Rightarrow> Err e
          | Ok (r, rest) \<Rightarrow>
              if r = [] then Err BLOCK_IS_EMPTY
              else parse rest depth [] (map_push (hd curr_tokens) (Node (tl curr_tokens) (Some r)) nodes)))
      else if first_char t = CHR ''}'' then
        (if depth = 0 then Err EXTRA_BRACKET else Ok (nodes, tokens))
      else if first_char t = CHR '';'' then
        (if curr_tokens = [] then Err OPERATOR_IS_EMPTY
         else parse tokens depth [] (map_push (hd curr_tokens) (Node (tl curr_tokens) None) nodes))
      else parse tokens depth (curr_tokens @ [t]) nodes)"
  by pat_completeness auto
termination
proof (relation "measure (\<lambda>(tokens, depth, curr_tokens, nodes). length tokens)", goal_cases)
  case (4 t tokens depth curr_tokens nodes x a b)
  have "length rest \<le> length tokens"
    if "parse_dom (tokens, depth, curr_tokens, nodes)" and "parse tokens depth curr_tokens nodes = Ok (m, rest)"
    for tokens depth curr_tokens nodes m rest
    using that
  proof (induction arbitrary: m rest rule: parse.pinduct)
    case (1 depth curr_tokens nodes)
    then show ?case by (simp add: parse.psimps split: if_splits)
  next
    case (2 t tokens depth curr_tokens nodes)
    note dom = 2(1) and IH = 2(2-6) and ok = 2(7)
    show ?case
    proof (cases "first_char t = CHR ''{''")
      case False
      with ok IH(1,4,5) show ?thesis
        by (auto simp: parse.psimps(2) [OF dom] split: if_splits dest: le_SucI)
    next
      case block: True
      with ok obtain r left where
        inner: "parse tokens (depth + 1) [] [] = Ok (r, left)" and curr_tokens: "curr_tokens \<noteq> []" and r: "r \<noteq> []"
        and outer: "parse left depth [] (map_push (hd curr_tokens) (Node (tl curr_tokens) (Some r)) nodes)
          = Ok (m, rest)"
        by (auto simp: parse.psimps(2) [OF dom] split: if_splits res.splits prod.splits)
      have "length left \<le> length tokens" using IH(2) [OF _ block curr_tokens inner] block by simp
      moreover have "length rest \<le> length left"
        using IH(3) [OF _ block curr_tokens inner refl r outer] block by simp
      ultimately show ?thesis by simp
    qed
  qed
  from this [OF 4(7), of a b] 4(4,5) have "length b \<le> length tokens" by simp
  then show ?case by simp
qed auto

declare parse.simps [simp del]

text \<open>\<open>from\<close> on a string; the one on a stream reads it to its end and calls this one.\<close>

definition serv_conf_from :: "string \<Rightarrow> (serv_conf, parse_err) res" where
  "serv_conf_from str =
     (case parse (tokenize str) 0 [] [] of
        Err e \<Rightarrow> Err e
      | Ok (nodes, _) \<Rightarrow> Ok (ServConf nodes))"

end
