(* ===== verification/Serv_Conf_Spec.thy ===== *)
theory Serv_Conf_Spec
  imports Serv_Conf
begin

text \<open>
  What the configuration parser accepts and builds. \<open>token_ok\<close> is the shape of a token,
  \<open>nodes_wf\<close> the invariant of a parsed tree, \<open>print_nodes\<close> and \<open>render\<close> write a tree down
  again. The parser's image is exactly the well-formed trees, and printing one and reading
  it back gives the same tree.
\<close>

section \<open>Tokens\<close>

definition plain :: "string \<Rightarrow> bool" where
  "plain w = list_all (\<lambda>c. c \<notin> set keychars) w"

definition conf_word :: "string \<Rightarrow> bool" where
  "conf_word w \<longleftrightarrow> w \<noteq> [] \<and> plain w"

definition comment :: "string \<Rightarrow> bool" where
  "comment t \<longleftrightarrow> first_char t = CHR ''#''"

definition token_ok :: "string \<Rightarrow> bool" where
  "token_ok t \<longleftrightarrow> conf_word t \<or> t = ''{'' \<or> t = ''}'' \<or> t = '';'' \<or> comment t \<and> LF \<notin> set t"

lemma plain_simps [simp]: "plain []" "plain (v @ w) = (plain v \<and> plain w)"
  by (simp_all add: plain_def)

lemma keychars_set: "set keychars = {SP, LF, TAB, CHR ''#'', CHR ''{'', CHR ''}'', CHR '';''}"
  by (simp add: keychars_def)

lemma add_token_ok:
  "plain str \<Longrightarrow> list_all token_ok tokens \<Longrightarrow> list_all token_ok (add_token str tokens)"
  by (simp add: add_token_def token_ok_def conf_word_def)

lemma takeWhile_no: "c \<notin> set (takeWhile (\<lambda>x. x \<noteq> c) s)"
  by (auto dest: set_takeWhileD)

lemma tokenize_from_ok:
  "plain str \<Longrightarrow> list_all token_ok tokens \<Longrightarrow> list_all token_ok (tokenize_from s str tokens)"
proof (induction s str tokens rule: tokenize_from.induct)
  case (1 str tokens)
  then show ?case by (simp add: tokenize_from.simps add_token_ok)
next
  case (2 c s str tokens)
  show ?case
  proof (cases "c \<in> set keychars")
    case False
    then show ?thesis
      using 2(1,5,6) by (simp add: tokenize_from.simps plain_def)
  next
    case key: True
    show ?thesis
    proof (cases "c = SP \<or> c = LF \<or> c = TAB")
      case True
      then show ?thesis using key 2(2,5,6) add_token_ok [of str tokens] by (simp add: tokenize_from.simps)
    next
      case notspace: False
      show ?thesis
      proof (cases "c = CHR ''#''")
        case True
        let ?t = "takeWhile (\<lambda>c. c \<noteq> LF) (c # s)"
        have "token_ok ?t"
          using True takeWhile_no [of LF "c # s"] by (simp add: token_ok_def comment_def first_char_def)
        then have ok: "list_all token_ok (add_token ?t (add_token str tokens))"
          using add_token_ok [OF 2(5,6)] by (simp only: add_token_def [of ?t]) simp
        have "tokenize_from (c # s) str tokens = tokenize_from (tl (dropWhile (\<lambda>c. c \<noteq> LF) (c # s))) []
            (add_token ?t (add_token str tokens))"
          using key True by (simp add: tokenize_from.simps)
        with 2(3) [OF _ _ True _ ok] key True show ?thesis by simp
      next
        case False
        with key notspace have "token_ok [c]" by (auto simp: token_ok_def keychars_set)
        then have "list_all token_ok (add_token str tokens @ [[c]])"
          using add_token_ok [OF 2(5,6)] by simp
        then show ?thesis using 2(4) key notspace False by (simp add: tokenize_from.simps)
      qed
    qed
  qed
qed

lemma tokenize_ok: "list_all token_ok (tokenize s)"
  by (simp add: tokenize_def tokenize_from_ok)

text \<open>Writing tokens down: a comment needs a line of its own, the others a space.\<close>

definition render_token :: "string \<Rightarrow> string" where
  "render_token t = t @ [if comment t then LF else SP]"

definition render :: "string list \<Rightarrow> string" where
  "render ts = concat (map render_token ts)"

lemma tokenize_plain:
  "plain w \<Longrightarrow> tokenize_from (w @ s) str tokens = tokenize_from s (str @ w) tokens"
  by (induction w arbitrary: str) (simp_all add: plain_def tokenize_from.simps)

lemma tokenize_token:
  assumes "token_ok t"
  shows "tokenize_from (render_token t @ s) [] tokens = tokenize_from s [] (tokens @ [t])"
proof (cases "comment t")
  case True
  then obtain u where t: "t = CHR ''#'' # u"
    by (cases t) (simp_all add: comment_def first_char_def)
  have "\<not> conf_word t" by (simp add: t conf_word_def plain_def keychars_set)
  with assms t have "LF \<notin> set u" by (auto simp: token_ok_def)
  then have "takeWhile (\<lambda>c. c \<noteq> LF) (u @ LF # s) = u" "dropWhile (\<lambda>c. c \<noteq> LF) (u @ LF # s) = LF # s"
    by (auto simp: takeWhile_append dropWhile_append)
  then show ?thesis
    using True by (simp add: t render_token_def tokenize_from.simps keychars_set add_token_def)
next
  case nc: False
  show ?thesis
  proof (cases "conf_word t")
    case True
    then have "plain t" "t \<noteq> []" by (simp_all add: conf_word_def)
    then show ?thesis
      using nc by (simp add: render_token_def tokenize_plain)
        (simp add: tokenize_from.simps keychars_set add_token_def)
  next
    case False
    with assms nc have "t = ''{'' \<or> t = ''}'' \<or> t = '';''" by (simp add: token_ok_def)
    then show ?thesis
      using nc by (auto simp: render_token_def tokenize_from.simps keychars_set add_token_def)
  qed
qed

lemma tokenize_render:
  assumes "list_all token_ok ts"
  shows "tokenize (render ts) = ts"
proof -
  have "tokenize_from (render ts) [] tokens = tokens @ ts" for tokens
    using assms
    by (induction ts arbitrary: tokens)
      (simp_all add: render_def tokenize_from.simps add_token_def tokenize_token)
  then show ?thesis by (simp add: tokenize_def)
qed

section \<open>Trees\<close>

lemma conf_node_size [termination_simp]:
  assumes "(k, ns) \<in> set m" and "n \<in> set ns"
  shows "size n < size (Node args (Some m))"
proof -
  have "size n \<le> size_list size ns" using assms(2) by (simp add: size_list_estimation')
  also have "\<dots> \<le> size_prod (\<lambda>_. 0) (size_list size) (k, ns)" by simp
  also have "\<dots> \<le> size_list (size_prod (\<lambda>_. 0) (size_list size)) m"
    using assms(1) by (rule size_list_estimation') simp
  finally show ?thesis by simp
qed

function node_wf :: "conf_node \<Rightarrow> bool" where
  "node_wf (Node args None) = list_all conf_word args"
| "node_wf (Node args (Some m)) =
     (list_all conf_word args \<and> m \<noteq> [] \<and> map_wf m \<and>
      list_all (\<lambda>(k, ns). conf_word k \<and> ns \<noteq> [] \<and> list_all node_wf ns) m)"
  by (metis conf_node.exhaust option.exhaust) auto
termination
  by (relation "measure size") (simp, simp only: in_measure, metis conf_node_size)

definition nodes_wf :: "node_map \<Rightarrow> bool" where
  "nodes_wf m \<longleftrightarrow>
     map_wf m \<and> list_all (\<lambda>(k, ns). conf_word k \<and> ns \<noteq> [] \<and> list_all node_wf ns) m"

lemma node_wf_block:
  "node_wf (Node args (Some m)) \<longleftrightarrow> list_all conf_word args \<and> m \<noteq> [] \<and> nodes_wf m"
  by (auto simp: nodes_wf_def)

lemma nodes_wf_alt:
  "nodes_wf m \<longleftrightarrow> map_wf m \<and> (\<forall>(k, ns) \<in> set m. ns \<noteq> [] \<and> (\<forall>n \<in> set ns. conf_word k \<and> node_wf n))"
proof -
  have "(\<lambda>(k, ns). conf_word k \<and> ns \<noteq> [] \<and> list_all node_wf ns) =
      (\<lambda>(k, ns). ns \<noteq> [] \<and> (\<forall>n \<in> set ns. conf_word k \<and> node_wf n))"
    by (auto simp: fun_eq_iff list_all_iff neq_Nil_conv)
  then show ?thesis unfolding nodes_wf_def list_all_iff [of _ m] by (simp only:)
qed

lemma nodes_wf_push:
  "nodes_wf m \<Longrightarrow> conf_word k \<Longrightarrow> node_wf n \<Longrightarrow> nodes_wf (map_push k n m)"
  using map_push_all [of m "\<lambda>k n. conf_word k \<and> node_wf n" k n] map_push_wf [of m k n]
  by (simp add: nodes_wf_alt)

text \<open>Everything a run of the parser builds is well formed, at every depth.\<close>

lemma parse_wf:
  assumes "parse tokens depth curr_tokens nodes = Ok (m, rest)"
    and "list_all token_ok tokens" and "list_all conf_word curr_tokens" and "nodes_wf nodes"
  shows "nodes_wf m \<and> list_all token_ok rest"
  using assms
proof (induction tokens depth curr_tokens nodes arbitrary: m rest rule: parse.induct)
  case (1 depth curr_tokens nodes)
  then show ?case by (simp add: parse.simps split: if_splits)
next
  case (2 t tokens depth curr_tokens nodes)
  note IH = 2(1-5) and ok = 2(6) and toks = 2(7) and words = 2(8) and wf = 2(9)
  have curr: "curr_tokens \<noteq> [] \<Longrightarrow> conf_word (hd curr_tokens) \<and> list_all conf_word (tl curr_tokens)"
    using words by (cases curr_tokens) simp_all
  consider (comment) "first_char t = CHR ''#''" | (block) "first_char t = CHR ''{''"
    | (close) "first_char t = CHR ''}''" | (op) "first_char t = CHR '';''"
    | (word) "conf_word t" "\<not> first_char t \<in> {CHR ''#'', CHR ''{'', CHR ''}'', CHR '';''}"
    using toks by (auto simp: token_ok_def comment_def first_char_def)
  then show ?case
  proof cases
    case comment
    with IH(1) ok toks words wf show ?thesis by (simp add: parse.simps)
  next
    case close
    with ok toks wf show ?thesis by (simp add: parse.simps split: if_splits)
  next
    case op
    with ok have c: "curr_tokens \<noteq> []" and
      "parse tokens depth [] (map_push (hd curr_tokens) (Node (tl curr_tokens) None) nodes) = Ok (m, rest)"
      by (simp_all add: parse.simps split: if_splits)
    then show ?thesis
      using IH(4) [of m rest] op toks curr [OF c] nodes_wf_push [OF wf] by simp
  next
    case word
    with IH(5) ok toks words wf show ?thesis by (simp add: parse.simps)
  next
    case block
    with ok obtain r left where c: "curr_tokens \<noteq> []" and r: "r \<noteq> []"
      and inner: "parse tokens (depth + 1) [] [] = Ok (r, left)"
      and outer: "parse left depth [] (map_push (hd curr_tokens) (Node (tl curr_tokens) (Some r)) nodes)
        = Ok (m, rest)"
      by (auto simp: parse.simps split: if_splits res.splits prod.splits)
    have "nodes_wf r \<and> list_all token_ok left"
      using IH(2) [OF _ block c inner] block toks by (simp add: nodes_wf_def)
    moreover from this have "node_wf (Node (tl curr_tokens) (Some r))"
      using curr [OF c] r by (simp add: node_wf_block del: node_wf.simps)
    ultimately show ?thesis
      using IH(3) [OF _ block c inner refl r outer] block curr [OF c] nodes_wf_push [OF wf] by simp
  qed
qed

end
