(* ===== verification/Serv_Conf_Print.thy ===== *)
theory Serv_Conf_Print
  imports Serv_Conf_Spec
begin

text \<open>
  Printing a configuration tree as tokens and parsing it again; what comments, unclosed
  blocks and stray tokens do; and the properties of \<open>ServConf::from\<close> as a whole.
\<close>

section \<open>Printing\<close>

function print_node :: "string \<Rightarrow> conf_node \<Rightarrow> string list" where
  "print_node k (Node args None) = k # args @ ['';'']"
| "print_node k (Node args (Some m)) =
     k # args @ [''{''] @ concat (map (\<lambda>(k, ns). concat (map (print_node k) ns)) m) @ [''}'']"
  by (metis conf_node.exhaust option.exhaust prod.exhaust) auto
termination
  by (relation "measure (\<lambda>(k, n). size n)") (simp, simp only: in_measure prod.case, metis conf_node_size)

definition print_nodes :: "node_map \<Rightarrow> string list" where
  "print_nodes m = concat (map (\<lambda>(k, ns). concat (map (print_node k) ns)) m)"

lemma print_nodes_flat: "print_nodes m = concat (map (\<lambda>(k, n). print_node k n) (map_flat m))"
  by (induction m) (auto simp: print_nodes_def map_flat_def comp_def)

lemma print_block:
  "print_node k (Node args (Some m)) = k # args @ [''{''] @ print_nodes m @ [''}'']"
  by (simp add: print_nodes_def)

lemma plain_not_key:
  "conf_word w \<Longrightarrow> first_char w \<notin> {CHR ''#'', CHR ''{'', CHR ''}'', CHR '';''}"
  by (cases w) (auto simp: conf_word_def plain_def first_char_def keychars_set)

lemma parse_words:
  "list_all conf_word ws \<Longrightarrow>
     parse (ws @ ts) depth curr_tokens nodes = parse ts depth (curr_tokens @ ws) nodes"
proof (induction ws arbitrary: curr_tokens)
  case Nil
  then show ?case by simp
next
  case (Cons w ws)
  with plain_not_key [of w] show ?case by (simp add: parse.simps)
qed

lemma map_flat_wf:
  assumes "nodes_wf m" and "(k, n) \<in> set (map_flat m)"
  shows "conf_word k \<and> node_wf n"
proof -
  from assms(2) obtain ns where "(k, ns) \<in> set m" and "n \<in> set ns"
    by (auto simp: map_flat_def)
  with assms(1) show ?thesis by (auto simp: nodes_wf_alt)
qed

lemma map_flat_size:
  assumes "(k, n) \<in> set (map_flat m)"
  shows "size n < size (Node args (Some m))"
proof -
  from assms obtain ns where "(k, ns) \<in> set m" and "n \<in> set ns" by (auto simp: map_flat_def)
  then show ?thesis by (rule conf_node_size)
qed

lemma parse_statements:
  assumes "\<And>k n ts nodes. (k, n) \<in> set kns \<Longrightarrow>
      parse (print_node k n @ ts) depth [] nodes = parse ts depth [] (map_push k n nodes)"
  shows "parse (concat (map (\<lambda>(k, n). print_node k n) kns) @ ts) depth [] nodes =
    parse ts depth [] (fold (\<lambda>(k, n). map_push k n) kns nodes)"
  using assms by (induction kns arbitrary: nodes) auto

text \<open>A printed node is parsed as one statement, at any depth.\<close>

lemma parse_print_node:
  "conf_word k \<Longrightarrow> node_wf n \<Longrightarrow>
     parse (print_node k n @ ts) depth [] nodes = parse ts depth [] (map_push k n nodes)"
proof (induction "size n" arbitrary: k n ts depth nodes rule: less_induct)
  case less
  obtain args body where n: "n = Node args body" by (cases n)
  show ?case
  proof (cases body)
    case None
    with less.prems n have "list_all conf_word (k # args)" by simp
    from parse_words [OF this] show ?thesis
      by (simp add: n None parse.simps first_char_def)
  next
    case (Some m)
    with less.prems n have words: "list_all conf_word (k # args)" and m: "m \<noteq> []" "nodes_wf m"
      by (simp_all add: node_wf_block del: node_wf.simps)
    have each: "parse (print_node k' n' @ ts') depth' [] nodes'
        = parse ts' depth' [] (map_push k' n' nodes')"
      if "(k', n') \<in> set (map_flat m)" for k' n' ts' depth' nodes'
      using less.hyps map_flat_size [OF that] map_flat_wf [OF m(2) that] by (simp add: n Some)
    have "fold (\<lambda>(k, n). map_push k n) (map_flat m) [] = m"
      using m(2) by (intro map_flat_rebuild) (auto simp: nodes_wf_alt)
    moreover have "parse (print_nodes m @ ''}'' # ts) (depth + 1) [] [] =
        parse (''}'' # ts) (depth + 1) [] (fold (\<lambda>(k, n). map_push k n) (map_flat m) [])"
      unfolding print_nodes_flat by (rule parse_statements) (rule each)
    ultimately have inner: "parse (print_nodes m @ ''}'' # ts) (depth + 1) [] [] = Ok (m, ts)"
      by (simp add: parse.simps first_char_def)
    show ?thesis
      unfolding n Some print_block
      using parse_words [OF words, of "[''{''] @ print_nodes m @ [''}''] @ ts" depth "[]" nodes] inner m(1)
      by (simp add: parse.simps first_char_def)
  qed
qed

lemma parse_print_nodes:
  assumes "nodes_wf m"
  shows "parse (print_nodes m @ ts) depth [] [] = parse ts depth [] m"
proof -
  have "fold (\<lambda>(k, n). map_push k n) (map_flat m) [] = m"
    using assms by (intro map_flat_rebuild) (auto simp: nodes_wf_alt)
  moreover have "parse (print_nodes m @ ts) depth [] [] =
      parse ts depth [] (fold (\<lambda>(k, n). map_push k n) (map_flat m) [])"
    unfolding print_nodes_flat using assms
    by (intro parse_statements parse_print_node) (auto dest: map_flat_wf)
  ultimately show ?thesis by simp
qed

text \<open>The tokens of a printed tree.\<close>

lemma conf_word_token: "conf_word w \<Longrightarrow> token_ok w"
  by (simp add: token_ok_def)

lemma print_node_tokens: "conf_word k \<Longrightarrow> node_wf n \<Longrightarrow> list_all token_ok (print_node k n)"
proof (induction "size n" arbitrary: k n rule: less_induct)
  case less
  obtain args body where n: "n = Node args body" by (cases n)
  show ?case
  proof (cases body)
    case None
    with less.prems n have "list_all conf_word (k # args)" by simp
    then have "list_all token_ok (k # args)" by (simp add: list_all_iff conf_word_token)
    then show ?thesis by (simp add: n None token_ok_def [of "'';''"])
  next
    case (Some m)
    with less.prems n have words: "list_all conf_word (k # args)" and m: "nodes_wf m"
      by (simp_all add: node_wf_block del: node_wf.simps)
    have "list_all token_ok (print_nodes m)"
      unfolding print_nodes_flat list_all_iff
      using less.hyps map_flat_size map_flat_wf [OF m] by (fastforce simp: n Some list_all_iff)
    moreover have "list_all token_ok (k # args)"
      using words by (simp add: list_all_iff conf_word_token)
    ultimately show ?thesis
      unfolding n Some print_block by (simp add: token_ok_def [of "''{''"] token_ok_def [of "''}''"])
  qed
qed

lemma print_nodes_tokens: "nodes_wf m \<Longrightarrow> list_all token_ok (print_nodes m)"
  unfolding print_nodes_flat list_all_iff
  using print_node_tokens map_flat_wf by (fastforce simp: list_all_iff)

subsection \<open>Comments\<close>

lemma parse_comments:
  "parse (filter (\<lambda>t. \<not> comment t) tokens) depth curr_tokens nodes =
     map_res (parse tokens depth curr_tokens nodes)
       (\<lambda>(m, rest). (m, filter (\<lambda>t. \<not> comment t) rest))"
proof (induction tokens depth curr_tokens nodes rule: parse.induct)
  case (1 depth curr_tokens nodes)
  then show ?case by (simp add: parse.simps)
next
  case (2 t tokens depth curr_tokens nodes)
  show ?case
  proof (cases "first_char t = CHR ''{''")
    case False
    with 2(1,4,5) show ?thesis by (auto simp: parse.simps comment_def)
  next
    case True
    show ?thesis
    proof (cases "parse tokens (depth + 1) [] []")
      case (Err e)
      with 2(2) True show ?thesis by (simp add: parse.simps comment_def)
    next
      case (Ok sp)
      obtain r rest where sp: "sp = (r, rest)" by (cases sp)
      with 2(2) [OF _ True] 2(3) [OF _ True _ Ok sp [symmetric]] Ok True show ?thesis
        by (cases "curr_tokens = []"; cases "r = []") (simp_all add: parse.simps comment_def)
    qed
  qed
qed

section \<open>Properties\<close>

lemma serv_conf_from_tokens:
  "serv_conf_from s = (case parse (filter (\<lambda>t. \<not> comment t) (tokenize s)) 0 [] [] of
      Err e \<Rightarrow> Err e | Ok (nodes, _) \<Rightarrow> Ok (ServConf nodes))"
  unfolding serv_conf_from_def parse_comments
  by (cases "parse (tokenize s) 0 [] []") (auto split: prod.split)

lemma serv_conf_from_render:
  "list_all token_ok ts \<Longrightarrow> serv_conf_from (render ts) =
     (case parse ts 0 [] [] of Err e \<Rightarrow> Err e | Ok (nodes, _) \<Rightarrow> Ok (ServConf nodes))"
  by (simp add: serv_conf_from_def tokenize_render)

lemma tree_wf:
  assumes "serv_conf_from s = Ok conf"
  shows "nodes_wf (global conf)"
proof -
  obtain rest where "parse (tokenize s) 0 [] [] = Ok (global conf, rest)"
    using assms by (cases "parse (tokenize s) 0 [] []") (auto simp: serv_conf_from_def split: prod.splits)
  from parse_wf [OF this tokenize_ok] show ?thesis by (simp add: nodes_wf_def)
qed

lemma bracket_tokens: "token_ok ''{''" "token_ok ''}''" "token_ok '';''"
  by (simp_all add: token_ok_def)

lemma conf_words_tokens: "list_all conf_word ws \<Longrightarrow> list_all token_ok ws"
  by (simp add: list_all_iff conf_word_token)

definition sample_tree :: node_map where
  "sample_tree = [(''http'', [Node [] (Some [(''listen'', [Node [''80''] None])])])]"

lemma sample_tree_wf: "nodes_wf sample_tree"
  by (simp add: sample_tree_def nodes_wf_def map_wf_def conf_word_def plain_def keychars_set)

text \<open>
  The tokenizer is total and exact. Every token it makes is a word without key
  characters, one bracket or semicolon, or a comment on one line; and tokens of those shapes,
  written one after the other, are read back as they were.
\<close>

lemma tokenize_exact:
  "list_all token_ok (tokenize s) \<and> (list_all token_ok ts \<longrightarrow> tokenize (render ts) = ts)"
  using tokenize_ok tokenize_render by blast

lemma tokenize_exact_witness:
  "tokenize (render [''http'', ''{'', ''# a comment'', ''x'', '';'', ''}'']) =
     [''http'', ''{'', ''# a comment'', ''x'', '';'', ''}'']"
proof -
  have "list_all token_ok [''http'', ''{'', ''# a comment'', ''x'', '';'', ''}'']"
    by (simp add: token_ok_def conf_word_def plain_def keychars_set comment_def first_char_def)
  then show ?thesis
    using tokenize_exact [of "[]" "[''http'', ''{'', ''# a comment'', ''x'', '';'', ''}'']"] by blast
qed

lemma print_parses:
  assumes "nodes_wf m" and "list_all token_ok ts"
    and "filter (\<lambda>t. \<not> comment t) ts = print_nodes m"
  shows "serv_conf_from (render ts) = Ok (ServConf m)"
  using parse_print_nodes [OF assms(1), of "[]" 0]
  by (simp add: serv_conf_from_tokens tokenize_render [OF assms(2)] assms(3) parse.simps)



text \<open>
  Property C28: the parser builds exactly the well-formed trees: a tree comes out of some text
  if and only if, at every depth, its keys are sorted words, every key has a node, every
  argument is a word and every block has a statement. So the clients' \<open>vector[0]\<close> and
  \<open>front()\<close> on the nodes of a key are never out of range.
\<close>

theorem conf_image: "(\<exists>s. serv_conf_from s = Ok (ServConf m)) \<longleftrightarrow> nodes_wf m"
proof
  assume "\<exists>s. serv_conf_from s = Ok (ServConf m)"
  then obtain s where "serv_conf_from s = Ok (ServConf m)" by blast
  from tree_wf [OF this] show "nodes_wf m" by simp
next
  assume "nodes_wf m"
  then show "\<exists>s. serv_conf_from s = Ok (ServConf m)"
    using serv_conf_from_render [OF print_nodes_tokens [OF \<open>nodes_wf m\<close>]]
      parse_print_nodes [OF \<open>nodes_wf m\<close>, of "[]" 0]
    by (intro exI [of _ "render (print_nodes m)"]) (simp add: parse.simps)
qed

text \<open>
  Comments and spacing carry no meaning: two texts with the same tokens apart
  from comments give the same configuration or the same error.
\<close>

lemma comments_ignored:
  assumes "filter (\<lambda>t. \<not> comment t) (tokenize s) = filter (\<lambda>t. \<not> comment t) (tokenize s')"
  shows "serv_conf_from s = serv_conf_from s'"
  unfolding serv_conf_from_tokens assms by (rule refl)



text \<open>
  Two malformed texts are accepted. Words that no semicolon ends are dropped
  without an error where a block closes after them, and a block that is never closed is
  accepted at the end of the text, with the tree of its closed form.
\<close>

lemma conf_laxity:
  assumes "nodes_wf m" and "m \<noteq> []" and "list_all conf_word (k # args)"
    and "list_all conf_word junk"
  shows "serv_conf_from (render ((k # args) @ [''{''] @ print_nodes m @ junk @ [''}''])) =
      Ok (ServConf [(k, [Node args (Some m)])]) \<and>
    serv_conf_from (render ((k # args) @ [''{''] @ print_nodes m)) =
      Ok (ServConf [(k, [Node args (Some m)])])"
proof -
  have toks: "list_all token_ok (print_nodes m)" "list_all token_ok (k # args)" "list_all token_ok junk"
    using print_nodes_tokens [OF assms(1)] conf_words_tokens assms(3,4) by blast+
  have w: "parse ((k # args) @ us) 0 [] [] = parse us 0 (k # args) []" for us
    using parse_words [OF assms(3), of us 0 "[]" "[]"] by simp
  have dropped: "parse (print_nodes m @ junk @ [''}'']) (0 + 1) [] [] = Ok (m, [])"
    using parse_words [OF assms(4), of "[''}'']" 1 "[]" m]
    by (simp add: parse_print_nodes [OF assms(1)] parse.simps first_char_def)
  have unclosed: "parse (print_nodes m) (0 + 1) [] [] = Ok (m, [])"
    using parse_print_nodes [OF assms(1), of "[]" 1] by (simp add: parse.simps)
  have "parse ((k # args) @ [''{''] @ us) 0 [] [] = Ok ([(k, [Node args (Some m)])], [])"
    if "parse us (0 + 1) [] [] = Ok (m, [])" for us
    unfolding w using that assms(2)
    by (simp add: parse.simps first_char_def map_push_def map_find_def)
  from this [OF dropped] this [OF unclosed] show ?thesis
    using toks bracket_tokens by (simp add: serv_conf_from_render)
qed

lemma conf_laxity_witness:
  "serv_conf_from (render ((''a'' # []) @ [''{''] @ print_nodes sample_tree @ [''lost''] @ [''}''])) =
      Ok (ServConf [(''a'', [Node [] (Some sample_tree)])]) \<and>
    serv_conf_from (render ((''a'' # []) @ [''{''] @ print_nodes sample_tree)) =
      Ok (ServConf [(''a'', [Node [] (Some sample_tree)])])"
  by (rule conf_laxity [OF sample_tree_wf])
    (simp_all add: conf_word_def plain_def keychars_set sample_tree_def)

end
