(* ===== verification/Config.thy ===== *)
theory Config
  imports Serv_Conf_Print
begin

text \<open>
  \<open>config-parser/Config\<close>: the server configuration, extracted from a configuration tree.
  Loops over vectors with an early error return are \<open>fold_res\<close>. A \<open>std::set\<close> of strings is
  a set. \<open>servers\<close> maps the text after \<open>listen\<close> to the server blocks that have it.
\<close>

section \<open>The configuration\<close>

type_synonym config_error = string

record location =
  accepted_methods :: "string set"
  loc_root :: string
  proxy_pass :: string
  cgi_path :: string

record server =
  srv_listen :: string
  server_name :: "string list"
  locations :: "(string, location) std_map"

type_synonym config = "(string, server list) std_map"

definition location_init :: location where
  "location_init = \<lparr>accepted_methods = {}, loc_root = [], proxy_pass = [], cgi_path = []\<rparr>"

definition server_init :: server where
  "server_init = \<lparr>srv_listen = [], server_name = [], locations = []\<rparr>"

text \<open>The block that \<open>key\<close> must have exactly once, as an operator.\<close>

definition get_operator_single_val ::
  "string \<Rightarrow> conf_node \<Rightarrow> string \<Rightarrow> (string, config_error) res" where
  "get_operator_single_val key node default_val =
     (case get_by_key node key of
        None \<Rightarrow> Ok default_val
      | Some val_blocks \<Rightarrow>
          if length val_blocks \<noteq> 1 then Err (''several blocks '' @ key)
          else let val = val_blocks ! 0 in
          if \<not> is_operator val then Err (key @ '' must be an operator'')
          else if length (get_args val) \<noteq> 1 then Err (key @ '' has more than one arg'')
          else Ok (get_args val ! 0))"

definition get_operator_args :: "string \<Rightarrow> conf_node \<Rightarrow> (string list, config_error) res" where
  "get_operator_args key node =
     (case get_by_key node key of
        None \<Rightarrow> Ok []
      | Some val_blocks \<Rightarrow>
          if length val_blocks \<noteq> 1 then Err (''several blocks '' @ key)
          else let val = val_blocks ! 0 in
          if \<not> is_operator val then Err (key @ '' must be an operator'')
          else Ok (get_args val))"

text \<open>One \<open>location\<close> block: the body of the loop of \<open>get_location\<close>.\<close>

definition add_location ::
  "conf_node \<Rightarrow> (string, location) std_map \<Rightarrow> ((string, location) std_map, config_error) res" where
  "add_location node locs =
     (if is_operator node then Err ''location is not operator''
      else if length (get_args node) \<noteq> 1 then Err ''location arg count error''
      else
        flat_map (get_operator_single_val ''root'' node []) (\<lambda>r.
        flat_map (get_operator_single_val ''proxy_pass'' node []) (\<lambda>pass.
        flat_map (get_operator_single_val ''cgi'' node []) (\<lambda>cgi.
        flat_map (get_operator_args ''accepted_method'' node) (\<lambda>methods.
          Ok (map_insert (get_args node ! 0)
                (location_init\<lparr>loc_root := r, proxy_pass := pass, cgi_path := cgi,
                   accepted_methods := set methods\<rparr>) locs))))))"

definition get_locations :: "conf_node \<Rightarrow> ((string, location) std_map, config_error) res" where
  "get_locations node =
     (case get_by_key node ''location'' of
        None \<Rightarrow> Err ''no location in server block''
      | Some blocks \<Rightarrow> fold_res add_location blocks [])"

text \<open>One \<open>server\<close> block: the body of the inner loop of \<open>Config::from\<close>.\<close>

definition server_from :: "conf_node \<Rightarrow> (server, config_error) res" where
  "server_from node =
     flat_map (get_operator_single_val ''listen'' node ''80'') (\<lambda>addr.
     flat_map (get_operator_args ''server_name'' node) (\<lambda>names.
     flat_map (get_locations node) (\<lambda>locs.
       Ok (server_init\<lparr>srv_listen := addr, server_name := names, locations := locs\<rparr>))))"

definition add_server :: "conf_node \<Rightarrow> config \<Rightarrow> (config, config_error) res" where
  "add_server node servers =
     flat_map (server_from node) (\<lambda>s. Ok (map_push (srv_listen s) s servers))"

definition add_http :: "conf_node \<Rightarrow> config \<Rightarrow> (config, config_error) res" where
  "add_http http servers =
     (case get_by_key http ''server'' of
        None \<Rightarrow> Ok servers
      | Some nodes \<Rightarrow> fold_res add_server nodes servers)"

definition config_from :: "serv_conf \<Rightarrow> (config, config_error) res" where
  "config_from conf =
     (case conf_get_by_key conf ''http'' of
        None \<Rightarrow> Err ''no http block''
      | Some http_blocks \<Rightarrow>
          flat_map (fold_res add_http http_blocks []) (\<lambda>servers.
            if servers = [] then Err ''no server block in http block'' else Ok servers))"

section \<open>What is extracted\<close>

text \<open>The server blocks of all \<open>http\<close> blocks, in the order of the text.\<close>

definition server_nodes :: "conf_node list \<Rightarrow> conf_node list" where
  "server_nodes https =
     concat (map (\<lambda>h. case get_by_key h ''server'' of None \<Rightarrow> [] | Some ns \<Rightarrow> ns) https)"

lemma add_http_all:
  "fold_res add_http https servers = fold_res add_server (server_nodes https) servers"
proof (induction https arbitrary: servers)
  case Nil
  then show ?case by (simp add: server_nodes_def)
next
  case (Cons h hs)
  have "fold_res add_http hs = fold_res add_server (server_nodes hs)" by (rule ext) (rule Cons.IH)
  then show ?case
    by (cases "get_by_key h ''server''")
      (simp_all add: server_nodes_def add_http_def [of h] fold_res_append)
qed

lemma add_server_all:
  "fold_res add_server nodes servers = Ok c \<longleftrightarrow>
     (\<exists>ss. list_all2 (\<lambda>n s. server_from n = Ok s) nodes ss \<and>
        c = fold (\<lambda>(k, s). map_push k s) (map (\<lambda>s. (srv_listen s, s)) ss) servers)"
proof (induction nodes arbitrary: servers)
  case Nil
  then show ?case by auto
next
  case (Cons n nodes)
  show ?case
  proof (cases "server_from n")
    case (Ok s)
    have "(\<exists>ss. list_all2 (\<lambda>n s. server_from n = Ok s) (n # nodes) ss \<and>
          c = fold (\<lambda>(k, s). map_push k s) (map (\<lambda>s. (srv_listen s, s)) ss) servers) \<longleftrightarrow>
        (\<exists>ss. list_all2 (\<lambda>n s. server_from n = Ok s) nodes ss \<and>
          c = fold (\<lambda>(k, s). map_push k s) (map (\<lambda>s. (srv_listen s, s)) (s # ss)) servers)"
      by (auto simp: list_all2_Cons1 Ok)
    then show ?thesis by (simp add: add_server_def [of n] Ok Cons.IH)
  next
    case (Err e)
    then show ?thesis by (simp add: add_server_def [of n] list_all2_Cons1)
  qed
qed

lemma push_servers_empty:
  "fold (\<lambda>(k, s). map_push k s) kss m = [] \<longleftrightarrow> kss = [] \<and> m = []"
  by (induction kss arbitrary: m) (simp_all add: split_beta)

lemma nonempty_image:
  "(\<And>x. F x = [] \<longleftrightarrow> x = []) \<Longrightarrow>
     (c \<noteq> [] \<and> (\<exists>x. P x \<and> c = F x)) = (\<exists>x. x \<noteq> [] \<and> P x \<and> c = F x)"
  by metis

lemma config_from_Ok:
  "config_from conf = Ok c \<longleftrightarrow>
     (\<exists>https ss. conf_get_by_key conf ''http'' = Some https \<and> ss \<noteq> [] \<and>
        list_all2 (\<lambda>n s. server_from n = Ok s) (server_nodes https) ss \<and>
        c = fold (\<lambda>(k, s). map_push k s) (map (\<lambda>s. (srv_listen s, s)) ss) [])"
proof (cases "conf_get_by_key conf ''http''")
  case None
  then show ?thesis by (simp add: config_from_def)
next
  case (Some https)
  have "config_from conf = Ok c \<longleftrightarrow> c \<noteq> [] \<and> fold_res add_http https [] = Ok c"
    by (cases "fold_res add_http https []") (auto simp: config_from_def Some)
  also have "\<dots> \<longleftrightarrow> (\<exists>ss. ss \<noteq> [] \<and>
      list_all2 (\<lambda>n s. server_from n = Ok s) (server_nodes https) ss \<and>
      c = fold (\<lambda>(k, s). map_push k s) (map (\<lambda>s. (srv_listen s, s)) ss) [])"
    unfolding add_http_all add_server_all
    by (rule nonempty_image) (simp add: push_servers_empty)
  finally show ?thesis by (simp add: Some)
qed

lemma push_listen_at:
  "(case map_find l (fold (\<lambda>(k, s). map_push k s) (map (\<lambda>s. (srv_listen s, s)) ss) []) of
      None \<Rightarrow> [] | Some us \<Rightarrow> us) = filter (\<lambda>s. srv_listen s = l) ss"
proof -
  have "map snd (filter (\<lambda>e. fst e = l) (map (\<lambda>s. (srv_listen s, s)) ss)) = filter (\<lambda>s. srv_listen s = l) ss"
    by (induction ss) auto
  then show ?thesis
    using push_all_find [of "[]" l "map (\<lambda>s. (srv_listen s, s)) ss"]
    by (auto simp: Let_def map_find_def)
qed

text \<open>Locations: one for each block, the later of two with the same path.\<close>

lemma add_location_Ok:
  "add_location n locs = Ok locs' \<Longrightarrow> \<exists>loc. locs' = map_insert (get_args n ! 0) loc locs"
  by (auto simp: add_location_def flat_map_Ok_iff split: if_splits)

lemma get_locations_wf:
  assumes "get_locations n = Ok locs"
  shows "map_wf locs \<and> (\<exists>ls. get_by_key n ''location'' = Some ls \<and> (ls \<noteq> [] \<longrightarrow> locs \<noteq> []))"
proof -
  from assms obtain ls where ls: "get_by_key n ''location'' = Some ls"
    and fold: "fold_res add_location ls [] = Ok locs"
    by (auto simp: get_locations_def split: option.splits)
  have "map_wf locs"
    by (rule fold_res_invariant [OF fold]) (auto dest!: add_location_Ok simp: map_insert_wf)
  moreover have "locs \<noteq> []" if nonempty: "ls \<noteq> []"
  proof -
    obtain l ls' where "ls = l # ls'" using nonempty by (cases ls) auto
    with fold obtain m where m: "add_location l [] = Ok m" and rest: "fold_res add_location ls' m = Ok locs"
      by (auto simp: flat_map_Ok_iff)
    have "m \<noteq> []" using add_location_Ok [OF m] by auto
    with rest show ?thesis
      by (rule fold_res_invariant) (auto dest!: add_location_Ok)
  qed
  ultimately show ?thesis using ls by blast
qed

lemma node_key_nonempty:
  assumes "node_wf n" and "get_by_key n k = Some ns"
  shows "ns \<noteq> [] \<and> list_all node_wf ns"
proof -
  obtain args m where n: "n = Node args (Some m)" and "map_find k m = Some ns"
    using assms(2) by (cases n) (auto simp: get_by_key_def split: option.splits)
  with assms(1) map_find_in show ?thesis by (fastforce simp: list_all_iff)
qed

lemma server_from_Ok:
  "server_from n = Ok s \<Longrightarrow> get_locations n = Ok (locations s)"
  by (auto simp: server_from_def flat_map_Ok_iff)

section \<open>Properties\<close>

definition sample_conf :: "string list" where
  "sample_conf =
     [''http'', ''{'', ''server'', ''{'', ''listen'', ''8080'', '';'',
      ''location'', ''/'', ''{'', ''root'', ''a.html'', '';'', ''}'', ''}'', ''}'']"

definition sample_config :: config where
  "sample_config = [(''8080'', [\<lparr>srv_listen = ''8080'', server_name = [],
     locations = [(''/'', location_init\<lparr>loc_root := ''a.html''\<rparr>)]\<rparr>])]"

lemma sample_conf_parsed:
  "serv_conf_from (render sample_conf) = Ok (ServConf [(''http'', [Node [] (Some
     [(''server'', [Node [] (Some [(''listen'', [Node [''8080''] None]),
       (''location'', [Node [''/''] (Some [(''root'', [Node [''a.html''] None])])])])])])])])"
proof -
  have "list_all token_ok sample_conf"
    by (simp add: sample_conf_def token_ok_def conf_word_def plain_def keychars_set)
  then show ?thesis
    by (simp add: serv_conf_from_render sample_conf_def parse.simps first_char_def map_push_def map_find_def)
qed

lemma list_all2_source: "list_all2 P xs ys \<Longrightarrow> y \<in> set ys \<Longrightarrow> \<exists>x \<in> set xs. P x y"
  by (induction rule: list_all2_induct) auto

lemma accepted_servable:
  assumes "serv_conf_from text = Ok conf" and "config_from conf = Ok c"
  shows "c \<noteq> [] \<and> map_wf c \<and>
    (\<forall>(l, ss) \<in> set c. ss \<noteq> [] \<and>
       (\<forall>s \<in> set ss. srv_listen s = l \<and> map_wf (locations s) \<and> locations s \<noteq> []))"
proof -
  from assms(2) obtain https ss where https: "conf_get_by_key conf ''http'' = Some https"
    and ne: "ss \<noteq> []" and ss: "list_all2 (\<lambda>n s. server_from n = Ok s) (server_nodes https) ss"
    and c: "c = fold (\<lambda>(k, s). map_push k s) (map (\<lambda>s. (srv_listen s, s)) ss) []"
    by (auto simp: config_from_Ok)
  have "nodes_wf (global conf)" using tree_wf [OF assms(1)] .
  then have "list_all node_wf https"
    using https map_find_in [of "''http''"] by (fastforce simp: conf_get_by_key_def nodes_wf_def list_all_iff)
  then have nodes: "node_wf n" if n: "n \<in> set (server_nodes https)" for n
  proof -
    obtain h where "h \<in> set https" and
      "n \<in> set (case get_by_key h ''server'' of None \<Rightarrow> [] | Some ns \<Rightarrow> ns)"
      using n by (auto simp: server_nodes_def)
    moreover from this obtain ns where "get_by_key h ''server'' = Some ns" "n \<in> set ns"
      by (cases "get_by_key h ''server''") auto
    ultimately show ?thesis
      using \<open>list_all node_wf https\<close> node_key_nonempty [of h "''server''" ns]
      by (simp add: list_all_iff)
  qed
  have each: "map_wf (locations s) \<and> locations s \<noteq> []" if mem: "s \<in> set ss" for s
  proof -
    obtain n where n: "n \<in> set (server_nodes https)" and s: "server_from n = Ok s"
      using list_all2_source [OF ss mem] by (elim bexE)
    obtain ls where ls: "get_by_key n ''location'' = Some ls" "ls \<noteq> [] \<longrightarrow> locations s \<noteq> []"
      and wf: "map_wf (locations s)"
      using get_locations_wf [OF server_from_Ok [OF s]] by (elim conjE exE)
    from node_key_nonempty [OF nodes [OF n] ls(1)] ls(2) wf show ?thesis by simp
  qed
  have wf: "map_wf c" unfolding c by (rule push_all_wf) simp
  have "us \<noteq> [] \<and> (\<forall>s \<in> set us. srv_listen s = l \<and> map_wf (locations s) \<and> locations s \<noteq> [])"
    if "(l, us) \<in> set c" for l us
  proof -
    have "map_find l c = Some us"
      using that wf by (simp add: map_find_def map_wf_def strict_sorted_iff)
    then have us: "us = filter (\<lambda>s. srv_listen s = l) ss" using push_listen_at [of l ss] c by simp
    have "l \<in> set (map srv_listen ss)"
    proof (rule ccontr)
      assume "l \<notin> set (map srv_listen ss)"
      then have "map snd (filter (\<lambda>e. fst e = l) (map (\<lambda>s. (srv_listen s, s)) ss)) = []"
        by (auto simp: filter_empty_conv)
      then have "map_find l c = None"
        using push_all_find [of "[]" l "map (\<lambda>s. (srv_listen s, s)) ss"] c by (simp add: map_find_def)
      with \<open>map_find l c = Some us\<close> show False by simp
    qed
    then show ?thesis using us each by (auto simp: filter_empty_conv)
  qed
  then show ?thesis using wf ne c by (auto simp: push_servers_empty)
qed

lemma accepted_info_nonempty:
  "serv_conf_from text = Ok conf \<Longrightarrow> config_from conf = Ok c \<Longrightarrow> (l, info) \<in> set c \<Longrightarrow> info \<noteq> []"
  using accepted_servable by blast

text \<open>
  Property C9: a configuration that is accepted can be served. Whatever the text, if it parses
  and converts, there is at least one address, every address has at least one server block
  (so \<open>info->at(0)\<close> never throws), the blocks under an address are those that listen on it,
  and each has locations.
\<close>

theorem config_servable:
  assumes "serv_conf_from text = Ok conf" and "config_from conf = Ok c"
  shows "c \<noteq> [] \<and> map_wf c \<and>
    (\<forall>(l, ss) \<in> set c. ss \<noteq> [] \<and>
       (\<forall>s \<in> set ss. srv_listen s = l \<and> map_wf (locations s) \<and> locations s \<noteq> []))"
  using assms by (rule accepted_servable)

lemmas config_eval = config_from_def conf_get_by_key_def map_find_def add_http_def get_by_key_def
  add_server_def server_from_def get_operator_single_val_def get_operator_args_def is_operator_def
  get_locations_def add_location_def server_init_def location_init_def map_push_def

lemma sample_conf_config: "config_from (ServConf [(''http'', [Node [] (Some
     [(''server'', [Node [] (Some [(''listen'', [Node [''8080''] None]),
       (''location'', [Node [''/''] (Some [(''root'', [Node [''a.html''] None])])])])])])])])
     = Ok sample_config"
  by (simp add: config_eval sample_config_def)

theorem config_servable_witness:
  "sample_config \<noteq> [] \<and> map_wf sample_config \<and> snd (hd sample_config) \<noteq> [] \<and>
    srv_listen (hd (snd (hd sample_config))) = fst (hd sample_config) \<and>
    locations (hd (snd (hd sample_config))) \<noteq> []"
  using config_servable [OF sample_conf_parsed sample_conf_config]
  by (simp add: sample_config_def)

lemma all_convert:
  "(\<exists>ss. list_all2 (\<lambda>n s. server_from n = Ok s) ns ss) \<longleftrightarrow> (\<forall>n \<in> set ns. is_ok (server_from n))"
proof (induction ns)
  case Nil
  then show ?case by simp
next
  case (Cons n ns)
  then show ?case by (cases "server_from n") (simp_all add: list_all2_Cons1)
qed

lemma config_accepts:
  "(\<exists>c. config_from conf = Ok c) \<longleftrightarrow>
     (\<exists>https. conf_get_by_key conf ''http'' = Some https \<and> server_nodes https \<noteq> [] \<and>
        (\<forall>n \<in> set (server_nodes https). is_ok (server_from n)))"
proof -
  have ne: "(\<exists>ss. ss \<noteq> [] \<and> list_all2 (\<lambda>n s. server_from n = Ok s) ns ss) \<longleftrightarrow>
      ns \<noteq> [] \<and> (\<forall>n \<in> set ns. is_ok (server_from n))" for ns
    unfolding all_convert [symmetric] by (cases ns) (auto simp: list_all2_Cons1)
  show ?thesis
  proof (cases "conf_get_by_key conf ''http''")
    case None
    then show ?thesis by (simp add: config_from_Ok)
  next
    case (Some https)
    have "(\<exists>c. config_from conf = Ok c) \<longleftrightarrow>
        (\<exists>ss. ss \<noteq> [] \<and> list_all2 (\<lambda>n s. server_from n = Ok s) (server_nodes https) ss)"
      unfolding config_from_Ok Some by (simp only: option.inject) metis
    then show ?thesis by (simp add: ne Some)
  qed
qed

lemma config_at:
  assumes "config_from conf = Ok c"
  shows "\<exists>https. conf_get_by_key conf ''http'' = Some https \<and>
    (\<forall>l. map Ok (case map_find l c of None \<Rightarrow> [] | Some ss \<Rightarrow> ss) =
       filter (\<lambda>r. map_res r srv_listen = Ok l) (map server_from (server_nodes https)))"
proof -
  from assms obtain https ss where https: "conf_get_by_key conf ''http'' = Some https"
    and ss: "list_all2 (\<lambda>n s. server_from n = Ok s) (server_nodes https) ss"
    and c: "c = fold (\<lambda>(k, s). map_push k s) (map (\<lambda>s. (srv_listen s, s)) ss) []"
    by (auto simp: config_from_Ok)
  from ss have "map server_from (server_nodes https) = map Ok ss"
    by (induction rule: list_all2_induct) simp_all
  moreover have "filter (\<lambda>r. map_res r srv_listen = Ok l) (map Ok ss :: (server, config_error) res list) =
      map Ok (filter (\<lambda>s. srv_listen s = l) ss)" for l
    by (simp add: filter_map comp_def)
  ultimately show ?thesis using push_listen_at [of _ ss] by (simp add: https c)
qed

text \<open>
  The conversion is exact. It succeeds exactly when there is an \<open>http\<close> block, all
  server blocks of all of them convert, and there is one; then the blocks stored under an
  address are those that listen on it, in the order of the text: none is lost, and none
  shadows another.
\<close>

lemma config_exact:
  "(\<exists>c. config_from conf = Ok c) =
     (\<exists>https. conf_get_by_key conf ''http'' = Some https \<and> server_nodes https \<noteq> [] \<and>
        (\<forall>n \<in> set (server_nodes https). is_ok (server_from n))) \<and>
   (case config_from conf of
      Err e \<Rightarrow> True
    | Ok c \<Rightarrow> \<exists>https. conf_get_by_key conf ''http'' = Some https \<and>
        (\<forall>l. map Ok (case map_find l c of None \<Rightarrow> [] | Some ss \<Rightarrow> ss) =
           filter (\<lambda>r. map_res r srv_listen = Ok l) (map server_from (server_nodes https))))"
  using config_accepts config_at by (auto split: res.split)

lemma config_exact_witness:
  "\<exists>https. conf_get_by_key (ServConf [(''http'', [Node [] (Some
     [(''server'', [Node [] (Some [(''listen'', [Node [''8080''] None]),
       (''location'', [Node [''/''] (Some [(''root'', [Node [''a.html''] None])])])])])])])])
     ''http'' = Some https \<and>
     map Ok (case map_find ''8080'' sample_config of None \<Rightarrow> [] | Some ss \<Rightarrow> ss) =
       filter (\<lambda>r. map_res r srv_listen = Ok ''8080'') (map server_from (server_nodes https))"
  using config_exact [of "ServConf [(''http'', [Node [] (Some
     [(''server'', [Node [] (Some [(''listen'', [Node [''8080''] None]),
       (''location'', [Node [''/''] (Some [(''root'', [Node [''a.html''] None])])])])])])])]"]
  unfolding sample_conf_config res.case by (elim conjE exE) metis

text \<open>
  An operator that must have one value has it. The helper returns the default
  exactly when the key is absent; otherwise the key must occur once, as an operator with one
  argument, and each way to violate that is an error that names the key.
\<close>

lemma single_value:
  "get_operator_single_val key node dflt =
     (case get_by_key node key of
        None \<Rightarrow> Ok dflt
      | Some [Node [v] None] \<Rightarrow> Ok v
      | Some [Node args None] \<Rightarrow> Err (key @ '' has more than one arg'')
      | Some [Node args (Some m)] \<Rightarrow> Err (key @ '' must be an operator'')
      | Some bs \<Rightarrow> Err (''several blocks '' @ key))"
  by (auto simp: get_operator_single_val_def is_operator_def Let_def
      split: option.split list.split conf_node.split)

end
