(* ===== verification/Webserv.thy ===== *)
theory Webserv
  imports Config Http_Transfer
begin

text \<open>
  \<open>webserv.cpp\<close>: the choice of the location that serves a request, what the server does with
  it, and the start-up from a configuration file. The file system, the client's address and
  the creation of a server socket are parameters. Sending a file, running a CGI program and
  asking an upstream server are the alternatives of an action; the replies after the latter
  two are functions of their results.
\<close>

section \<open>Choosing a location\<close>

text \<open>The nested loops over the servers and their names, left at the first match.\<close>

definition find_server :: "string \<Rightarrow> server list \<Rightarrow> server option" where
  "find_server hostname info = find (\<lambda>s. list_ex (\<lambda>name. name = hostname) (server_name s)) info"

definition choose_server :: "request \<Rightarrow> server list \<Rightarrow> server option outcome" where
  "choose_server req info =
     (case map_find ''Host'' (req_headers req) of
        None \<Rightarrow> (case info of [] \<Rightarrow> Throws Out_of_range | s # _ \<Rightarrow> Returns (Some s))
      | Some hostname \<Rightarrow> Returns (find_server hostname info))"

definition match_location :: "request \<Rightarrow> string \<times> location \<Rightarrow> location option \<Rightarrow> location option" where
  "match_location req loc loc_ptr =
     (if req_method req \<notin> accepted_methods (snd loc) then loc_ptr
      else if \<not> prefix (fst loc) (req_path req) then loc_ptr
      else Some (snd loc))"

definition get_location :: "request \<Rightarrow> server list \<Rightarrow> location option outcome" where
  "get_location req info =
     bind_outcome (choose_server req info) (\<lambda>server_ptr. case server_ptr of
        None \<Rightarrow> Returns None
      | Some s \<Rightarrow> Returns (fold (match_location req) (locations s) None))"

section \<open>Handling a request\<close>

definition with_error_code :: "status \<Rightarrow> response" where
  "with_error_code code = response_init\<lparr>resp_code := code, resp_version := ''HTTP/1.1'',
     resp_status := ''BAD_REQUEST''\<rparr>"

datatype action =
    Send response
  | Run_cgi string request
  | Proxy string "16 word" request

text \<open>\<open>Response::Status::from(n).get_val()\<close>, put in a response.\<close>

definition error_response :: "int \<Rightarrow> response outcome" where
  "error_response n =
     bind_outcome (get_val (status_from n)) (\<lambda>code. Returns (with_error_code code))"

definition error_reply :: "int \<Rightarrow> action outcome" where
  "error_reply n = bind_outcome (error_response n) (\<lambda>r. Returns (Send r))"

definition add_forwarded :: "string \<Rightarrow> request \<Rightarrow> request" where
  "add_forwarded client_ip req =
     (let forwarded = (case map_find ''X-Forwarder-For'' (req_headers req) of None \<Rightarrow> [] | Some f \<Rightarrow> f)
      in req\<lparr>req_headers := map_insert ''X-Forwarder-For''
           (if forwarded = [] then client_ip else forwarded @ '', '' @ client_ip)
           (req_headers req)\<rparr>)"

text \<open>\<open>uint16_t = std::atoi(...)\<close> keeps the low 16 bits.\<close>

definition port_of :: "string \<Rightarrow> 16 word" where
  "port_of s = word_of_int (atoi (c_str s))"

definition proxy_address :: "string \<Rightarrow> string \<times> 16 word" where
  "proxy_address pass =
     (case find_char (CHR '':'') pass of
        None \<Rightarrow> (''127.0.0.1'', port_of pass)
      | Some pos \<Rightarrow> (take pos pass, port_of (drop (pos + 1) pass)))"

definition handle_request ::
  "(string \<Rightarrow> bytes option) \<Rightarrow> string \<Rightarrow> server list \<Rightarrow> request \<Rightarrow> action outcome" where
  "handle_request file client_ip info req =
     bind_outcome (get_location req info) (\<lambda>loc_ptr. case loc_ptr of
        None \<Rightarrow> error_reply 500
      | Some loc \<Rightarrow>
          if loc_root loc \<noteq> [] then
            (case static_from file (loc_root loc) of
               Err _ \<Rightarrow> error_reply 500
             | Ok response \<Rightarrow> Returns (Send response))
          else if cgi_path loc \<noteq> [] then Returns (Run_cgi (cgi_path loc) req)
          else if proxy_pass loc \<noteq> [] then
            (let (ip, port) = proxy_address (proxy_pass loc)
             in Returns (Proxy ip port (add_forwarded client_ip req)))
          else error_reply 404)"

text \<open>The replies once the CGI program, the connection or the upstream server has answered.\<close>

definition cgi_reply :: "(response, 'e) res \<Rightarrow> response outcome" where
  "cgi_reply r = (case r of Err _ \<Rightarrow> error_response 503 | Ok response \<Rightarrow> Returns response)"

definition proxy_reply :: "(response, http_error) res \<Rightarrow> response outcome" where
  "proxy_reply r = (case r of Err _ \<Rightarrow> error_response 502 | Ok response \<Rightarrow> Returns response)"

section \<open>Start-up\<close>

text \<open>
  The address of a server block. The variables that receive the parts of \<open>ip:port\<close> are local
  to the \<open>if\<close>; the outer ones stay empty and the whole text.
\<close>

definition listen_address :: "string \<Rightarrow> string \<times> 16 word" where
  "listen_address addr = ([], port_of addr)"

datatype main_result =
    Exit int string
  | Running "(string \<times> 16 word \<times> server list) list"

text \<open>
  The loop over \<open>config.servers\<close>; \<open>started\<close> are the servers created so far. (The lookup of
  an error's description always returns, so the other alternatives do not occur.)
\<close>

fun start_servers ::
  "(string \<Rightarrow> 16 word \<Rightarrow> (unit, io_error) res) \<Rightarrow> (string \<times> server list) list \<Rightarrow>
   (string \<times> 16 word \<times> server list) list \<Rightarrow> main_result" where
  "start_servers create [] started = Running started"
| "start_servers create ((addr, info) # servers) started =
     (let (ip, port) = listen_address addr in
      case create ip port of
        Err e \<Rightarrow> Exit (-1) (''Server with listen: '' @ addr @ '' not created: '' @
            (case error_description e of Returns d \<Rightarrow> d | _ \<Rightarrow> []))
      | Ok _ \<Rightarrow> start_servers create servers (started @ [(ip, port, info)]))"

definition async_main ::
  "(string \<Rightarrow> bytes option) \<Rightarrow> (string \<Rightarrow> 16 word \<Rightarrow> (unit, io_error) res) \<Rightarrow> string list \<Rightarrow> main_result" where
  "async_main file create argv =
     (if length argv \<noteq> 2 then Exit 1 ''Not provided path to conf with arg''
      else case file (argv ! 1) of
        None \<Rightarrow> Exit 1 ''Config file error''
      | Some text \<Rightarrow>
          (case serv_conf_from text of
             Err e \<Rightarrow> Exit 1 (err_description e @ '' in conf file'')
           | Ok conf \<Rightarrow>
               (case config_from conf of
                  Err cause \<Rightarrow> Exit 1 cause
                | Ok config \<Rightarrow> start_servers create config [])))"

section \<open>Lemmas\<close>

lemma error_response_valid:
  "100 \<le> n \<Longrightarrow> n < 600 \<Longrightarrow> error_response n = Returns (with_error_code (Status n))"
  by (simp add: error_response_def status_from_def)

text \<open>Of two prefixes of one string the longer one comes later in a map.\<close>

lemma prefix_order:
  fixes p q :: string
  assumes "prefix p s" and "prefix q s" and "p < q"
  shows "length p < length q"
proof (rule ccontr)
  assume "\<not> length p < length q"
  then have "prefix q p" using assms(1,2) prefix_length_prefix by (metis not_less)
  then obtain r where "p = q @ r" by (auto simp: prefix_def)
  then have "q \<le> p" by (cases r) (simp_all add: list_le_def list_less_def lexord_append_rightI)
  then show False using assms(3) by simp
qed

text \<open>The last entry of a list that passes a test, as the location loop finds it.\<close>

definition serves :: "request \<Rightarrow> string \<times> location \<Rightarrow> bool" where
  "serves req e \<longleftrightarrow> req_method req \<in> accepted_methods (snd e) \<and> prefix (fst e) (req_path req)"

lemma match_location_serves:
  "match_location req e ptr = (if serves req e then Some (snd e) else ptr)"
  by (simp add: match_location_def serves_def)

lemma match_last:
  "fold (match_location req) es ptr =
     (if filter (serves req) es = [] then ptr else Some (snd (last (filter (serves req) es))))"
  by (induction es arbitrary: ptr) (auto simp: match_location_serves)

lemma map_wf_filter_last:
  assumes "map_wf m" and "filter P m \<noteq> []" and "e \<in> set (filter P m)"
  shows "e = last (filter P m) \<or> fst e < fst (last (filter P m))"
proof -
  have "sorted_wrt (\<lambda>a b. fst a < fst b) (filter P m)"
    using assms(1) by (simp add: map_wf_def sorted_wrt_map sorted_wrt_filter)
  moreover have "filter P m = butlast (filter P m) @ [last (filter P m)]" using assms(2) by simp
  ultimately have "\<forall>a \<in> set (butlast (filter P m)). fst a < fst (last (filter P m))"
    by (metis list.set_intros(1) sorted_wrt_append)
  moreover have "e \<in> insert (last (filter P m)) (set (butlast (filter P m)))"
    using assms(2,3) by (metis Un_insert_right append_butlast_last_id list.simps(15) set_append
        sup_bot.right_neutral list.set(1))
  ultimately show ?thesis by blast
qed

lemma get_location_returns:
  assumes "info \<noteq> []"
  shows "\<exists>loc_ptr. get_location req info = Returns loc_ptr"
proof -
  have "\<exists>server_ptr. choose_server req info = Returns server_ptr"
    using assms by (cases info; cases "map_find ''Host'' (req_headers req)")
      (simp_all add: choose_server_def)
  then show ?thesis by (auto simp: get_location_def split: option.split)
qed

section \<open>Properties\<close>

definition sample_server :: server where
  "sample_server = \<lparr>srv_listen = ''80'', server_name = [''a'', ''b''],
     locations = [(''/'', location_init\<lparr>accepted_methods := {''GET''}, loc_root := ''r.html''\<rparr>),
       (''/x'', location_init\<lparr>accepted_methods := {''GET'', ''PUT''}, proxy_pass := ''10.0.0.1:90''\<rparr>)]\<rparr>"

definition get_x :: request where
  "get_x = \<lparr>req_method = ''GET'', req_path = ''/x/y'', req_version = ''HTTP/1.1'',
     req_headers = [(''Host'', ''b'')], req_body = []\<rparr>"

lemma get_location_longest:
  assumes "info \<noteq> []" and "\<forall>s \<in> set info. map_wf (locations s)"
  shows "case (case map_find ''Host'' (req_headers req) of None \<Rightarrow> Some (hd info)
        | Some h \<Rightarrow> find (\<lambda>s. h \<in> set (server_name s)) info) of
      None \<Rightarrow> get_location req info = Returns None
    | Some s \<Rightarrow>
        (case get_location req info of
           Returns None \<Rightarrow> \<forall>e \<in> set (locations s). \<not> serves req e
         | Returns (Some loc) \<Rightarrow> \<exists>path. (path, loc) \<in> set (locations s) \<and> serves req (path, loc) \<and>
             (\<forall>e \<in> set (locations s). serves req e \<longrightarrow> e = (path, loc) \<or> length (fst e) < length path)
         | _ \<Rightarrow> False)"
proof -
  have names: "find_server h xs = find (\<lambda>s. h \<in> set (server_name s)) xs" for h xs
    unfolding find_server_def by (rule arg_cong [where f = "\<lambda>P. find P xs"])
      (auto simp: list_ex_iff)
  define chosen where "chosen = (case map_find ''Host'' (req_headers req) of None \<Rightarrow> Some (hd info)
        | Some h \<Rightarrow> find (\<lambda>s. h \<in> set (server_name s)) info)"
  have choose: "choose_server req info = Returns chosen"
    using assms(1) by (cases info; cases "map_find ''Host'' (req_headers req)")
      (simp_all add: choose_server_def chosen_def names)
  show ?thesis
  proof (cases chosen)
    case None
    then show ?thesis using choose by (simp add: chosen_def [symmetric] get_location_def)
  next
    case (Some s)
    have "s \<in> set info"
      using Some assms(1) by (auto simp: chosen_def find_Some_iff split: option.splits)
    then have wf: "map_wf (locations s)" using assms(2) by blast
    let ?fs = "filter (serves req) (locations s)"
    have loc: "get_location req info =
        Returns (if ?fs = [] then None else Some (snd (last ?fs)))"
      using choose Some by (simp add: get_location_def match_last)
    show ?thesis
    proof (cases "?fs = []")
      case True
      then show ?thesis using loc Some by (simp add: chosen_def [symmetric] filter_empty_conv)
    next
      case False
      obtain path l where last: "last ?fs = (path, l)" by fastforce
      then have mem: "(path, l) \<in> set ?fs" using last_in_set [OF False] by simp
      have "e = (path, l) \<or> length (fst e) < length path"
        if "e \<in> set (locations s)" "serves req e" for e
      proof -
        have "e = last ?fs \<or> fst e < fst (last ?fs)"
          using map_wf_filter_last [OF wf False] that by simp
        then show ?thesis
          using last that(2) mem prefix_order [of "fst e" "req_path req" path]
          by (auto simp: serves_def)
      qed
      with mem have "\<exists>path. (path, l) \<in> set (locations s) \<and> serves req (path, l) \<and>
          (\<forall>e \<in> set (locations s). serves req e \<longrightarrow> e = (path, l) \<or> length (fst e) < length path)"
        by (intro exI [of _ path]) auto
      moreover have "get_location req info = Returns (Some l)" using loc False last by simp
      ultimately show ?thesis using Some by (simp add: chosen_def [symmetric])
    qed
  qed
qed

text \<open>
  Property C11: the most specific location serves a request. The server block is the first one
  that has the request's host among its names, or the first one without a Host header; of its
  locations that accept the method and whose path is a prefix of the request's, the longest
  is chosen, and there is none exactly if no location serves the request.
\<close>

theorem location_longest_prefix:
  assumes "info \<noteq> []" and "\<forall>s \<in> set info. map_wf (locations s)"
  shows "case (case map_find ''Host'' (req_headers req) of None \<Rightarrow> Some (hd info)
        | Some h \<Rightarrow> find (\<lambda>s. h \<in> set (server_name s)) info) of
      None \<Rightarrow> get_location req info = Returns None
    | Some s \<Rightarrow>
        (case get_location req info of
           Returns None \<Rightarrow> \<forall>e \<in> set (locations s). \<not> serves req e
         | Returns (Some loc) \<Rightarrow> \<exists>path. (path, loc) \<in> set (locations s) \<and> serves req (path, loc) \<and>
             (\<forall>e \<in> set (locations s). serves req e \<longrightarrow> e = (path, loc) \<or> length (fst e) < length path)
         | _ \<Rightarrow> False)"
  using assms by (rule get_location_longest)

theorem location_longest_prefix_witness:
  "case get_location get_x [sample_server] of
      Returns None \<Rightarrow> False
    | Returns (Some loc) \<Rightarrow> proxy_pass loc = ''10.0.0.1:90''
    | _ \<Rightarrow> False"
proof -
  have wf: "\<forall>s \<in> set [sample_server]. map_wf (locations s)"
    by (simp add: sample_server_def map_wf_def list_less_def)
  from location_longest_prefix [OF _ wf, of get_x] show ?thesis
    by (auto simp: get_x_def sample_server_def map_find_def serves_def location_init_def
        split: outcome.splits option.splits)
qed



text \<open>
  A proxied request is the client's, with its address noted. Only the header
  \<open>X-Forwarder-For\<close> changes (sic): it becomes the client's address, appended with a comma to
  a non-empty earlier value; all other headers, the method, path and body are kept.
\<close>

lemma forwarded_header:
  assumes "map_wf (req_headers req)"
  shows "map_find k (req_headers (add_forwarded ip req)) =
      (if k \<noteq> ''X-Forwarder-For'' then map_find k (req_headers req)
       else case map_find k (req_headers req) of
           None \<Rightarrow> Some ip
         | Some v \<Rightarrow> if v = [] then Some ip else Some (v @ '', '' @ ip)) \<and>
    map_wf (req_headers (add_forwarded ip req)) \<and>
    add_forwarded ip req = req\<lparr>req_headers := req_headers (add_forwarded ip req)\<rparr>"
  using assms
  by (auto simp: add_forwarded_def map_insert_find map_insert_wf Let_def split: option.split)

lemma forwarded_header_witness:
  "map_find ''Host'' (req_headers (add_forwarded ''1.1.1.1'' get_x)) =
      (if ''Host'' \<noteq> ''X-Forwarder-For'' then map_find ''Host'' (req_headers get_x)
       else case map_find ''Host'' (req_headers get_x) of
           None \<Rightarrow> Some ''1.1.1.1''
         | Some v \<Rightarrow> if v = [] then Some ''1.1.1.1'' else Some (v @ '', '' @ ''1.1.1.1'')) \<and>
    map_wf (req_headers (add_forwarded ''1.1.1.1'' get_x)) \<and>
    add_forwarded ''1.1.1.1'' get_x = get_x\<lparr>req_headers := req_headers (add_forwarded ''1.1.1.1'' get_x)\<rparr>"
  by (rule forwarded_header) (simp add: get_x_def map_wf_def)

text \<open>
  An error response has no length, and this program's own response parser throws
  on it: a server that proxies to another one of its kind is hit by an exception, not an
  error, when the upstream server answers with an error code.
\<close>

lemma error_response_unreadable:
  assumes "status_valid code"
  shows "ResponseParser_call m (response_head (with_error_code code) @ rest) ResponseParser =
    Throws Bad_optional_access"
proof -
  have ok: "status_line_ok (with_error_code code)" "headers_ok (resp_headers (with_error_code code))"
    using assms by (simp_all add: status_line_ok_def with_error_code_def response_init_def
        headers_ok_def word_ok_def text_ok_def)
  show ?thesis
    unfolding response_head_read [OF ok]
    by (simp add: response_read_body_def collect_body_def set_content_length_def map_find_def
        response_parsed_def ResponseParser_def with_error_code_def response_init_def)
qed

lemma error_response_unreadable_witness:
  "ResponseParser_call (r_mem (chunk [])) (response_head (with_error_code (Status 404)) @ []) ResponseParser
     = Throws Bad_optional_access"
  by (rule error_response_unreadable) (simp add: status_valid_def)

lemma port_of_digits:
  assumes "n < 2 ^ 31" and "rest = [] \<or> \<not> is_digit (hd rest)"
  shows "port_of (to_string n @ rest) = of_nat n"
proof -
  have "c_str (to_string n @ rest) = to_string n @ c_str rest"
    using to_string_digits digit_props(4) by (simp add: c_str_append_no_NUL)
  moreover have "c_str rest = [] \<or> \<not> is_digit (hd (c_str rest))"
    using assms(2) by (cases rest) (auto simp: c_str_def)
  ultimately show ?thesis
    using atoi_to_string_append [OF assms(1), of "c_str rest"] by (simp add: port_of_def)
qed

text \<open>
  The address of a server block is misread. The address is always the empty one,
  and a text that begins with a number and a dot or colon, such as \<open>127.0.0.1:8080\<close>, gives the
  port with that first number; a plain number below 65536 is taken as the port.
\<close>

lemma listen_address_port:
  assumes "n < 2 ^ 31" and "rest = [] \<or> \<not> is_digit (hd rest)"
  shows "listen_address (to_string n @ rest) = ([], of_nat n) \<and>
    (n < 2 ^ 16 \<longrightarrow> unat (snd (listen_address (to_string n @ rest))) = n)"
  using port_of_digits [OF assms] by (simp add: listen_address_def unat_of_nat)

lemma listen_address_port_witness:
  "listen_address (to_string 127 @ ''.0.0.1:8080'') = ([], of_nat 127) \<and>
    unat (snd (listen_address (to_string 127 @ ''.0.0.1:8080''))) = 127"
  using listen_address_port [of 127 "''.0.0.1:8080''"] by (simp add: is_digit_def)

text \<open>
  Property C30: start-up is all or nothing. Whatever the arguments and files, \<open>async_main\<close>
  either exits with a non-zero code, or one server runs for every address of the accepted
  configuration, in order, each with the server blocks of its address.
\<close>

theorem async_main_starts:
  "case async_main file create argv of
     Exit code msg \<Rightarrow> code \<noteq> 0
   | Running started \<Rightarrow> \<exists>text conf c. file (argv ! 1) = Some text \<and> serv_conf_from text = Ok conf \<and>
       config_from conf = Ok c \<and> started \<noteq> [] \<and>
       started = map (\<lambda>(addr, info). ([], port_of addr, info)) c \<and>
       (\<forall>(ip, port, info) \<in> set started. create ip port = Ok () \<and> info \<noteq> [])"
proof -
  have loop: "case start_servers create servers acc of
      Exit code msg \<Rightarrow> code \<noteq> 0
    | Running started \<Rightarrow> started = acc @ map (\<lambda>(addr, info). ([], port_of addr, info)) servers \<and>
        (\<forall>(addr, info) \<in> set servers. create [] (port_of addr) = Ok ())" for servers acc
  proof (induction servers arbitrary: acc)
    case Nil
    then show ?case by simp
  next
    case (Cons e servers)
    obtain addr info where e: "e = (addr, info)" by (cases e)
    show ?case
    proof (cases "create [] (port_of addr)")
      case (Ok u)
      then show ?thesis
        using Cons.IH [of "acc @ [([], port_of addr, info)]"]
        by (auto simp: e listen_address_def split: main_result.splits)
    next
      case (Err x)
      then show ?thesis by (simp add: e listen_address_def)
    qed
  qed
  have loop_exit: "code \<noteq> 0" if "start_servers create servers [] = Exit code msg" for servers code msg
    using loop [where servers = servers and acc = "[]"] that by simp
  have loop_run: "started = map (\<lambda>(addr, info). ([], port_of addr, info)) servers \<and>
      (\<forall>(addr, info) \<in> set servers. create [] (port_of addr) = Ok ())"
    if "start_servers create servers [] = Running started" for servers started
    using loop [where servers = servers and acc = "[]"] that by simp
  show ?thesis
  proof (cases "async_main file create argv")
    case (Exit code msg)
    then show ?thesis
      using loop_exit by (auto simp: async_main_def split: if_splits option.splits res.splits)
  next
    case (Running started)
    then obtain body conf c where t: "file (argv ! 1) = Some body" "serv_conf_from body = Ok conf"
      "config_from conf = Ok c" and run: "start_servers create c [] = Running started"
      by (auto simp: async_main_def split: if_splits option.splits res.splits)
    have "c \<noteq> []" and "\<forall>(l, info) \<in> set c. info \<noteq> []"
      using accepted_servable [OF t(2,3)] by fastforce+
    with t loop_run [OF run] Running show ?thesis by fastforce
  qed
qed

lemma sample_main:
  "async_main (\<lambda>_. Some (render sample_conf)) (\<lambda>_ _. Ok ()) [''webserv'', ''conf''] =
     Running [([], 8080, snd (hd sample_config))]"
proof -
  have "to_string 8080 = ''8080''" by (simp add: to_string.simps digit_chars)
  then have "port_of ''8080'' = 8080" using port_of_digits [of 8080 "[]"] by simp
  then show ?thesis
    by (simp add: async_main_def sample_conf_parsed sample_conf_config)
      (simp add: sample_config_def listen_address_def)
qed

theorem async_main_starts_witness:
  "\<exists>text conf c. Some (render sample_conf) = Some text \<and> serv_conf_from text = Ok conf \<and>
     config_from conf = Ok c \<and> [([] :: string, 8080 :: 16 word, snd (hd sample_config))] =
       map (\<lambda>(addr, info). ([], port_of addr, info)) c"
proof -
  note async_main_starts [of "\<lambda>_. Some (render sample_conf)" "[''webserv'', ''conf'']" "\<lambda>_ _. Ok ()",
      unfolded sample_main main_result.case]
  then show ?thesis by (elim exE conjE) (intro exI conjI; assumption)
qed

end
