(* ===== verification/Forward_List.thy ===== *)
theory Forward_List
  imports Prelude "HOL-Library.AList"
begin

text \<open>
  \<open>mpmc-queue/detail/forward_list.hpp\<close>: the singly linked list with a dummy head node that
  is the queue's buffer. The nodes live in a heap, a finite map from addresses to cells; an
  access through a null, indeterminate or dangling pointer is \<open>Undefined\<close>. The abstract
  view is a list of values; the locale \<open>fifo\<close> is the contract the queue relies on.
\<close>

section \<open>The heap\<close>

datatype pointer = Null | Ptr nat | Indeterminate

text \<open>The dummy node is allocated but never constructed: it has no value, and its \<open>next\<close> is
  assigned.\<close>

record 'a cell =
  cell_next :: pointer
  cell_value :: "'a option"

record 'a heap =
  cells :: "(nat \<times> 'a cell) list"
  next_addr :: nat

definition deref :: "pointer \<Rightarrow> 'a heap \<Rightarrow> 'a cell outcome" where
  "deref p h =
     (case p of
        Ptr a \<Rightarrow> (case map_of (cells h) a of None \<Rightarrow> Undefined | Some c \<Rightarrow> Returns c)
      | _ \<Rightarrow> Undefined)"

definition alloc :: "'a cell \<Rightarrow> 'a heap \<Rightarrow> pointer \<times> 'a heap" where
  "alloc c h = (Ptr (next_addr h),
     h\<lparr>cells := (next_addr h, c) # cells h, next_addr := next_addr h + 1\<rparr>)"

definition set_next :: "pointer \<Rightarrow> pointer \<Rightarrow> 'a heap \<Rightarrow> 'a heap outcome" where
  "set_next p q h =
     bind_outcome (deref p h) (\<lambda>c. case p of
        Ptr a \<Rightarrow> Returns (h\<lparr>cells := AList.update a (c\<lparr>cell_next := q\<rparr>) (cells h)\<rparr>)
      | _ \<Rightarrow> Undefined)"

definition dealloc :: "pointer \<Rightarrow> 'a heap \<Rightarrow> 'a heap outcome" where
  "dealloc p h =
     bind_outcome (deref p h) (\<lambda>_. case p of
        Ptr a \<Rightarrow> Returns (h\<lparr>cells := AList.delete a (cells h)\<rparr>)
      | _ \<Rightarrow> Undefined)"

section \<open>The list\<close>

record fwd_list =
  fl_head :: pointer
  fl_tail :: pointer

definition forward_list_init :: "'a heap \<Rightarrow> fwd_list \<times> 'a heap" where
  "forward_list_init h =
     (let (dummy, h) = alloc \<lparr>cell_next = Null, cell_value = None\<rparr> h
      in (\<lparr>fl_head = dummy, fl_tail = dummy\<rparr>, h))"

definition push_back :: "'a \<Rightarrow> fwd_list \<Rightarrow> 'a heap \<Rightarrow> (fwd_list \<times> 'a heap) outcome" where
  "push_back v l h =
     (let (node, h) = alloc \<lparr>cell_next = Null, cell_value = Some v\<rparr> h
      in bind_outcome (set_next (fl_tail l) node h) (\<lambda>h. Returns (l\<lparr>fl_tail := node\<rparr>, h)))"

text \<open>Reading an indeterminate pointer is undefined, also in a comparison.\<close>

definition is_empty :: "fwd_list \<Rightarrow> bool outcome" where
  "is_empty l =
     (if fl_head l = Indeterminate \<or> fl_tail l = Indeterminate then Undefined
      else Returns (fl_head l = fl_tail l))"

definition pop_front :: "fwd_list \<Rightarrow> 'a heap \<Rightarrow> ('a option \<times> fwd_list \<times> 'a heap) outcome" where
  "pop_front l h =
     bind_outcome (is_empty l) (\<lambda>empty.
       if empty then Returns (None, l, h)
       else
         bind_outcome (deref (fl_head l) h) (\<lambda>dummy.
         let node = cell_next dummy in
         bind_outcome (deref node h) (\<lambda>c.
         bind_outcome (set_next (fl_head l) (cell_next c) h) (\<lambda>h.
         let l = (if cell_next c = Null then l\<lparr>fl_tail := fl_head l\<rparr> else l) in
         case cell_value c of
           None \<Rightarrow> Undefined
         | Some v \<Rightarrow> bind_outcome (dealloc node h) (\<lambda>h. Returns (Some v, l, h))))))"

text \<open>The loop of \<open>_delete_values\<close> over the nodes after the dummy. Each turn frees a cell.\<close>

lemma delete_shorter: "map_of m a = Some c \<Longrightarrow> length (AList.delete a m) < length m"
  by (induction m) (auto simp: less_Suc_eq_le length_delete_le)

function delete_nodes :: "pointer \<Rightarrow> 'a heap \<Rightarrow> 'a heap outcome" where
  "delete_nodes Null h = Returns h"
| "delete_nodes Indeterminate h = Undefined"
| "delete_nodes (Ptr a) h =
     (case map_of (cells h) a of
        None \<Rightarrow> Undefined
      | Some c \<Rightarrow> delete_nodes (cell_next c) (h\<lparr>cells := AList.delete a (cells h)\<rparr>))"
  by pat_completeness auto
termination
  by (relation "measure (\<lambda>(p, h). length (cells h))") (simp_all add: delete_shorter)

definition delete_values :: "fwd_list \<Rightarrow> 'a heap \<Rightarrow> 'a heap outcome" where
  "delete_values l h =
     bind_outcome (deref (fl_head l) h) (\<lambda>dummy.
     bind_outcome (delete_nodes (cell_next dummy) h) (\<lambda>h.
       dealloc (fl_head l) h))"

text \<open>
  The loop of \<open>_copy_values\<close>: \<open>prev\<close> (\<open>curr\<close> in the code) is the last node copied,
  \<open>other_curr\<close> the next one to copy. The dummy's \<open>next\<close> is indeterminate until the first turn,
  or the end of the loop, sets it.
  The fuel bounds the number of nodes; \<open>None\<close> is a loop that has not ended within it.
\<close>

fun copy_nodes :: "nat \<Rightarrow> pointer \<Rightarrow> pointer \<Rightarrow> 'a heap \<Rightarrow> 'a heap outcome option" where
  "copy_nodes fuel Null prev h = Some (set_next prev Null h)"
| "copy_nodes 0 other_curr prev h = None"
| "copy_nodes (Suc fuel) other_curr prev h =
     (case deref other_curr h of
        Returns c \<Rightarrow>
          (let (node, h) = alloc \<lparr>cell_next = Null, cell_value = cell_value c\<rparr> h in
           case set_next prev node h of
             Returns h \<Rightarrow> copy_nodes fuel (cell_next c) node h
           | Throws e \<Rightarrow> Some (Throws e)
           | Undefined \<Rightarrow> Some Undefined)
      | Throws e \<Rightarrow> Some (Throws e)
      | Undefined \<Rightarrow> Some Undefined)"

text \<open>The copy constructor: \<open>_tail\<close> is not initialised.\<close>

definition forward_list_copy ::
  "nat \<Rightarrow> fwd_list \<Rightarrow> 'a heap \<Rightarrow> (fwd_list \<times> 'a heap) outcome option" where
  "forward_list_copy fuel other h =
     (let (dummy, h) = alloc \<lparr>cell_next = Indeterminate, cell_value = None\<rparr> h in
      case deref (fl_head other) h of
        Returns d \<Rightarrow> map_option (\<lambda>r. bind_outcome r (\<lambda>h.
            Returns (\<lparr>fl_head = dummy, fl_tail = Indeterminate\<rparr>, h)))
          (copy_nodes fuel (cell_next d) dummy h)
      | _ \<Rightarrow> Some Undefined)"

text \<open>The move constructor: the new list and the one that was moved from.\<close>

definition forward_list_move :: "fwd_list \<Rightarrow> fwd_list \<times> fwd_list" where
  "forward_list_move other = (other, \<lparr>fl_head = Null, fl_tail = Null\<rparr>)"

text \<open>
  The assignment operators. Both lack the \<open>return\<close> their type asks for, so that reaching their
  end is undefined, after the old nodes have been freed and the new ones have been made or taken.
\<close>

definition forward_list_assign ::
  "nat \<Rightarrow> fwd_list \<Rightarrow> fwd_list \<Rightarrow> 'a heap \<Rightarrow> (fwd_list \<times> 'a heap) outcome option" where
  "forward_list_assign fuel l other h =
     (case delete_values l h of
        Returns h \<Rightarrow> map_option (\<lambda>r. bind_outcome r (\<lambda>_. Undefined)) (forward_list_copy fuel other h)
      | Throws e \<Rightarrow> Some (Throws e)
      | Undefined \<Rightarrow> Some Undefined)"

definition forward_list_assign_move ::
  "fwd_list \<Rightarrow> fwd_list \<Rightarrow> 'a heap \<Rightarrow> (fwd_list \<times> fwd_list \<times> 'a heap) outcome" where
  "forward_list_assign_move l other h =
     bind_outcome (delete_values l h) (\<lambda>h.
       let (l, other) = forward_list_move other in Undefined)"

section \<open>The abstract list\<close>

text \<open>\<open>chain h p as vs\<close>: from \<open>p\<close> the heap has a null-terminated chain through the addresses
  \<open>as\<close> that hold \<open>vs\<close>.\<close>

fun chain :: "'a heap \<Rightarrow> pointer \<Rightarrow> nat list \<Rightarrow> 'a list \<Rightarrow> bool" where
  "chain h p [] [] = (p = Null)"
| "chain h p (a # as) (v # vs) =
     (p = Ptr a \<and> (case map_of (cells h) a of
        None \<Rightarrow> False
      | Some c \<Rightarrow> cell_value c = Some v \<and> chain h (cell_next c) as vs))"
| "chain h p _ _ = False"

definition heap_wf :: "'a heap \<Rightarrow> bool" where
  "heap_wf h \<longleftrightarrow> distinct (map fst (cells h)) \<and> (\<forall>a \<in> fst ` set (cells h). a < next_addr h)"

text \<open>\<open>holds F l h vs\<close>: the list is intact and holds \<open>vs\<close>; \<open>F\<close> is the rest of the heap.\<close>

definition holds :: "(nat \<rightharpoonup> 'a cell) \<Rightarrow> fwd_list \<Rightarrow> 'a heap \<Rightarrow> 'a list \<Rightarrow> bool" where
  "holds F l h vs \<longleftrightarrow> heap_wf h \<and>
     (\<exists>d as c. fl_head l = Ptr d \<and> map_of (cells h) d = Some c \<and> distinct (d # as) \<and>
        chain h (cell_next c) as vs \<and> fl_tail l = Ptr (last (d # as)) \<and>
        map_of (cells h) |` (- set (d # as)) = F)"

lemma chain_length: "chain h p as vs \<Longrightarrow> length as = length vs"
  by (induction h p as vs rule: chain.induct) (auto split: option.splits)

lemma chain_alloced: "chain h p as vs \<Longrightarrow> a \<in> set as \<Longrightarrow> map_of (cells h) a \<noteq> None"
  by (induction h p as vs rule: chain.induct) (auto split: option.splits)

text \<open>A chain depends only on the cells it goes through.\<close>

lemma chain_frame:
  "chain h p as vs \<Longrightarrow> (\<And>a. a \<in> set as \<Longrightarrow> map_of (cells h') a = map_of (cells h) a) \<Longrightarrow>
     chain h' p as vs"
proof (induction h p as vs rule: chain.induct)
  case (2 h p a as v vs)
  then show ?case by (auto split: option.splits)
qed auto

lemma chain_Cons:
  "chain h p (a # as) vs \<longleftrightarrow> (\<exists>c v vs'. vs = v # vs' \<and> p = Ptr a \<and> map_of (cells h) a = Some c \<and>
     cell_value c = Some v \<and> chain h (cell_next c) as vs')"
  by (cases vs) (auto split: option.splits)

lemma chain_Null: "chain h Null as vs \<longleftrightarrow> as = [] \<and> vs = []"
  by (cases as; cases vs) auto

text \<open>Linking a new node after the last one.\<close>

lemma chain_snoc:
  assumes "chain h p as vs" and "distinct as" and "n \<notin> set as" and "as \<noteq> []"
    and "map_of (cells h) (last as) = Some c"
    and "\<And>a. a \<in> set (butlast as) \<Longrightarrow> map_of (cells h') a = map_of (cells h) a"
    and "map_of (cells h') (last as) = Some (c\<lparr>cell_next := Ptr n\<rparr>)"
    and "map_of (cells h') n = Some \<lparr>cell_next = Null, cell_value = Some v\<rparr>"
  shows "chain h' p (as @ [n]) (vs @ [v])"
  using assms
proof (induction as arbitrary: p vs)
  case Nil
  then show ?case by simp
next
  case (Cons a as)
  from Cons.prems(1) obtain ca va vs' where a: "vs = va # vs'" "p = Ptr a"
    "map_of (cells h) a = Some ca" "cell_value ca = Some va" "chain h (cell_next ca) as vs'"
    by (auto simp: chain_Cons)
  show ?case
  proof (cases "as = []")
    case True
    with a Cons.prems show ?thesis by (cases vs') auto
  next
    case False
    have "map_of (cells h') a = Some ca" using Cons.prems(6) [of a] False a(3) by simp
    moreover have "chain h' (cell_next ca) (as @ [n]) (vs' @ [v])"
      using Cons.prems False by (intro Cons.IH [OF a(5)]) auto
    ultimately show ?thesis using a by simp
  qed
qed

lemma heap_update [simp]:
  "map_of (AList.update a c m) b = (if b = a then Some c else map_of m b)"
  "map_of (AList.delete a m) b = (if b = a then None else map_of m b)"
  by (simp_all add: update_conv' delete_conv')

lemma heap_wf_alloc: "heap_wf h \<Longrightarrow> heap_wf (snd (alloc c h))"
  by (auto simp: heap_wf_def alloc_def less_Suc_eq)

lemma heap_wf_fresh: "heap_wf h \<Longrightarrow> map_of (cells h) (next_addr h) = None"
  by (auto simp: heap_wf_def map_of_eq_None_iff)

lemma heap_wf_update:
  "heap_wf h \<Longrightarrow> map_of (cells h) a \<noteq> None \<Longrightarrow> heap_wf (h\<lparr>cells := AList.update a c (cells h)\<rparr>)"
  by (auto simp: heap_wf_def distinct_update dom_update map_of_eq_None_iff)

lemma heap_wf_delete: "heap_wf h \<Longrightarrow> heap_wf (h\<lparr>cells := AList.delete a (cells h)\<rparr>)"
  by (auto simp: heap_wf_def delete_keys distinct_removeAll simp flip: set_map)

lemma init_holds:
  assumes "heap_wf h"
  shows "holds (map_of (cells h)) (fst (forward_list_init h)) (snd (forward_list_init h)) []"
  using heap_wf_alloc [OF assms, of "\<lparr>cell_next = Null, cell_value = None\<rparr>"]
  unfolding holds_def
  by (intro conjI exI [of _ "next_addr h"] exI [of _ "[]"])
    (auto simp: forward_list_init_def alloc_def fun_eq_iff restrict_map_def heap_wf_fresh [OF assms])

lemma push_back_holds:
  assumes "holds F l h vs"
  shows "\<exists>l' h'. push_back v l h = Returns (l', h') \<and> holds F l' h' (vs @ [v])"
proof -
  from assms obtain d as c where wf: "heap_wf h" and d: "fl_head l = Ptr d" "map_of (cells h) d = Some c"
    and dist: "distinct (d # as)" and ch: "chain h (cell_next c) as vs"
    and tail: "fl_tail l = Ptr (last (d # as))" and F: "map_of (cells h) |` (- set (d # as)) = F"
    unfolding holds_def by blast
  define n where "n = next_addr h"
  define t where "t = last (d # as)"
  define new :: "'a cell" where "new = \<lparr>cell_next = Null, cell_value = Some v\<rparr>"
  have fresh: "map_of (cells h) n = None" using heap_wf_fresh [OF wf] by (simp add: n_def)
  have "t \<in> insert d (set as)" by (simp add: t_def)
  then obtain ct where ct: "map_of (cells h) t = Some ct"
    using d(2) chain_alloced [OF ch] by (cases "t = d") auto
  have nt: "n \<noteq> t" "n \<noteq> d" using fresh ct d(2) by auto
  have nas: "n \<notin> set as" using fresh chain_alloced [OF ch] by blast
  define h1 where "h1 = snd (alloc new h)"
  define h2 where "h2 = h1\<lparr>cells := AList.update t (ct\<lparr>cell_next := Ptr n\<rparr>) (cells h1)\<rparr>"
  have get: "map_of (cells h2) a = (if a = t then Some (ct\<lparr>cell_next := Ptr n\<rparr>)
      else if a = n then Some new else map_of (cells h) a)" for a
    by (simp add: h2_def h1_def alloc_def n_def)
  have push: "push_back v l h = Returns (l\<lparr>fl_tail := Ptr n\<rparr>, h2)"
    using tail ct nt(1)
    by (simp add: push_back_def set_next_def deref_def h2_def h1_def alloc_def n_def t_def new_def)
  have wf2: "heap_wf h2"
    using heap_wf_update [OF heap_wf_alloc [OF wf, of new], of t] ct nt(1)
    by (simp add: h2_def h1_def alloc_def n_def)
  have "holds F (l\<lparr>fl_tail := Ptr n\<rparr>) h2 (vs @ [v])"
  proof (cases "as = []")
    case True
    then have "vs = []" using chain_length [OF ch] by simp
    with True wf2 d dist nt nas show ?thesis
      unfolding holds_def
      by (intro conjI exI [of _ d] exI [of _ "[n]"] exI [of _ "ct\<lparr>cell_next := Ptr n\<rparr>"])
        (auto simp: get t_def new_def fun_eq_iff restrict_map_def fresh simp flip: F)
  next
    case False
    then have "d \<noteq> t" using dist by (auto simp: t_def)
    have "chain h2 (cell_next c) (as @ [n]) (vs @ [v])"
    proof (rule chain_snoc [OF ch _ nas False])
      show "distinct as" using dist by simp
      show "map_of (cells h) (last as) = Some ct" using ct False by (simp add: t_def)
      show "map_of (cells h2) (last as) = Some (ct\<lparr>cell_next := Ptr n\<rparr>)"
        using False by (simp add: get t_def)
      show "map_of (cells h2) n = Some \<lparr>cell_next = Null, cell_value = Some v\<rparr>"
        using nt(1) by (simp add: get new_def)
      show "map_of (cells h2) a = map_of (cells h) a" if a: "a \<in> set (butlast as)" for a
      proof -
        have "as = butlast as @ [last as]" using False by simp
        then have "a \<noteq> last as" using a dist by (metis distinct_append not_distinct_conv_prefix
            distinct.simps(2) append.assoc)
        moreover have "a \<noteq> n" using a nas by (auto dest: in_set_butlastD)
        ultimately show ?thesis using False by (simp add: get t_def)
      qed
    qed
    with wf2 d dist nt nas \<open>d \<noteq> t\<close> show ?thesis
      unfolding holds_def
      by (intro conjI exI [of _ d] exI [of _ "as @ [n]"] exI [of _ c])
        (auto simp: get fun_eq_iff restrict_map_def fresh t_def simp flip: F)
  qed
  with push show ?thesis by blast
qed

lemma is_empty_holds:
  assumes "holds F l h vs"
  shows "is_empty l = Returns (vs = [])"
proof -
  from assms obtain d as c where d: "fl_head l = Ptr d" and "map_of (cells h) d = Some c"
    and dist: "distinct (d # as)" and ch: "chain h (cell_next c) as vs" and tail: "fl_tail l = Ptr (last (d # as))"
    unfolding holds_def by blast
  have "last (d # as) = d \<longleftrightarrow> as = []" using dist by (auto simp: last_in_set)
  moreover have "as = [] \<longleftrightarrow> vs = []" using chain_length [OF ch] by auto
  ultimately show ?thesis using d tail by (auto simp: is_empty_def)
qed

lemma pop_front_empty: "holds F l h [] \<Longrightarrow> pop_front l h = Returns (None, l, h)"
  using is_empty_holds [of F l h "[]"] by (simp add: pop_front_def)

lemma pop_front_holds:
  assumes "holds F l h (v # vs)"
  shows "\<exists>l' h'. pop_front l h = Returns (Some v, l', h') \<and> holds F l' h' vs"
proof -
  from assms obtain d as0 c where wf: "heap_wf h" and d: "fl_head l = Ptr d" "map_of (cells h) d = Some c"
    and dist0: "distinct (d # as0)" and ch0: "chain h (cell_next c) as0 (v # vs)"
    and tail0: "fl_tail l = Ptr (last (d # as0))" and F: "map_of (cells h) |` (- set (d # as0)) = F"
    unfolding holds_def by blast
  from chain_length [OF ch0] obtain a as where as0: "as0 = a # as" by (cases as0) auto
  with ch0 obtain ca where a: "cell_next c = Ptr a" "map_of (cells h) a = Some ca" "cell_value ca = Some v"
    and ch: "chain h (cell_next ca) as vs" by (auto split: option.splits)
  have dist: "d \<noteq> a" "d \<notin> set as" "a \<notin> set as" "distinct as" using dist0 as0 by auto
  define h1 where "h1 = h\<lparr>cells := AList.update d (c\<lparr>cell_next := cell_next ca\<rparr>) (cells h)\<rparr>"
  define h2 where "h2 = h1\<lparr>cells := AList.delete a (cells h1)\<rparr>"
  define l' where "l' = (if cell_next ca = Null then l\<lparr>fl_tail := fl_head l\<rparr> else l)"
  have pop: "pop_front l h = Returns (Some v, l', h2)"
    using is_empty_holds [OF assms] d a dist(1)
    by (simp add: pop_front_def deref_def set_next_def dealloc_def h2_def h1_def l'_def Let_def)
  have wf2: "heap_wf h2"
    unfolding h2_def by (intro heap_wf_delete) (simp add: h1_def heap_wf_update [OF wf] d(2))
  have get: "map_of (cells h2) b = (if b = a then None
      else if b = d then Some (c\<lparr>cell_next := cell_next ca\<rparr>) else map_of (cells h) b)" for b
    by (simp add: h2_def h1_def)
  have "chain h2 (cell_next ca) as vs"
    by (rule chain_frame [OF ch]) (use dist in \<open>auto simp: get\<close>)
  moreover have "fl_tail l' = Ptr (last (d # as)) \<and> fl_head l' = Ptr d"
  proof (cases "as = []")
    case True
    with ch have "cell_next ca = Null" by (cases vs) auto
    with True d show ?thesis by (simp add: l'_def)
  next
    case False
    then have "cell_next ca \<noteq> Null" using ch by (auto simp: chain_Null)
    with False tail0 as0 d show ?thesis by (simp add: l'_def)
  qed
  ultimately have "holds F l' h2 vs"
    unfolding holds_def using wf2 dist
    by (intro conjI exI [of _ d] exI [of _ as] exI [of _ "c\<lparr>cell_next := cell_next ca\<rparr>"])
      (auto simp: get as0 fun_eq_iff restrict_map_def simp flip: F)
  with pop show ?thesis by blast
qed

text \<open>The destructor frees the nodes of an intact list, and only them.\<close>

lemma delete_nodes_chain:
  assumes "chain h p as vs" and "distinct as" and "heap_wf h"
  shows "\<exists>h'. delete_nodes p h = Returns h' \<and> heap_wf h' \<and>
    (\<forall>b. map_of (cells h') b = (if b \<in> set as then None else map_of (cells h) b))"
  using assms
proof (induction as arbitrary: p vs h)
  case Nil
  then show ?case by (cases vs) auto
next
  case (Cons a as)
  then obtain c v vs' where a: "p = Ptr a" "map_of (cells h) a = Some c"
    and ch: "chain h (cell_next c) as vs'" by (auto simp: chain_Cons)
  let ?h = "h\<lparr>cells := AList.delete a (cells h)\<rparr>"
  have "chain ?h (cell_next c) as vs'"
    by (rule chain_frame [OF ch]) (use Cons.prems(2) in auto)
  then obtain h' where "delete_nodes (cell_next c) ?h = Returns h'" "heap_wf h'"
    "\<forall>b. map_of (cells h') b = (if b \<in> set as then None else map_of (cells ?h) b)"
    using Cons.IH Cons.prems(2) heap_wf_delete [OF Cons.prems(3)] by fastforce
  then show ?case using a Cons.prems(2) by (intro exI [of _ h']) auto
qed

lemma delete_values_holds:
  assumes "holds F l h vs"
  shows "\<exists>h'. delete_values l h = Returns h' \<and> map_of (cells h') = F"
proof -
  from assms obtain d as c where wf: "heap_wf h" and d: "fl_head l = Ptr d" "map_of (cells h) d = Some c"
    and dist: "distinct (d # as)" and ch: "chain h (cell_next c) as vs"
    and F: "map_of (cells h) |` (- set (d # as)) = F"
    unfolding holds_def by blast
  from delete_nodes_chain [OF ch _ wf] dist obtain h1 where
    h1: "delete_nodes (cell_next c) h = Returns h1"
      "\<forall>b. map_of (cells h1) b = (if b \<in> set as then None else map_of (cells h) b)" by auto
  then have "map_of (cells h1) d = Some c" using dist d(2) by simp
  then have "delete_values l h = Returns (h1\<lparr>cells := AList.delete d (cells h1)\<rparr>)"
    using d h1(1) by (simp add: delete_values_def deref_def dealloc_def)
  moreover have "map_of (cells (h1\<lparr>cells := AList.delete d (cells h1)\<rparr>)) = F"
    using h1(2) by (auto simp: fun_eq_iff restrict_map_def simp flip: F)
  ultimately show ?thesis by blast
qed

text \<open>The loop of the copy constructor, run to its end, builds a chain of new cells with the
  same values and changes no old cell.\<close>

lemma copy_nodes_chain:
  assumes "chain h p as vs" and "length vs \<le> fuel" and "heap_wf h"
    and "map_of (cells h) d = Some c" and "d \<notin> set as"
  shows "\<exists>h' bs c'. copy_nodes fuel p (Ptr d) h = Some (Returns h') \<and> heap_wf h' \<and>
    map_of (cells h') d = Some (c\<lparr>cell_next := c'\<rparr>) \<and> chain h' c' bs vs \<and> distinct (d # bs) \<and>
    (\<forall>b \<in> set bs. next_addr h \<le> b) \<and>
    (\<forall>b. b \<noteq> d \<longrightarrow> b \<notin> set bs \<longrightarrow> map_of (cells h') b = map_of (cells h) b)"
  using assms
proof (induction as arbitrary: p vs fuel h d c)
  case Nil
  then show ?case
    by (cases vs) (auto simp: set_next_def deref_def heap_wf_update intro!: exI [of _ "[]"] exI [of _ Null])
next
  case (Cons a as)
  then obtain ca v vs' where a: "p = Ptr a" "map_of (cells h) a = Some ca" "vs = v # vs'"
      "cell_value ca = Some v"
    and ch: "chain h (cell_next ca) as vs'" by (auto simp: chain_Cons)
  from Cons.prems(2) a(3) obtain f where f: "fuel = Suc f" "length vs' \<le> f" by (cases fuel) auto
  define n where "n = next_addr h"
  define new :: "'a cell" where "new = \<lparr>cell_next = Null, cell_value = Some v\<rparr>"
  define h1 where "h1 = snd (alloc new h)"
  define h2 where "h2 = h1\<lparr>cells := AList.update d (c\<lparr>cell_next := Ptr n\<rparr>) (cells h1)\<rparr>"
  have fresh: "map_of (cells h) n = None" using heap_wf_fresh [OF Cons.prems(3)] by (simp add: n_def)
  have nd: "n \<noteq> d" using fresh Cons.prems(4) by auto
  have nas: "n \<notin> set as" using fresh chain_alloced [OF ch] by blast
  have get: "map_of (cells h2) b = (if b = d then Some (c\<lparr>cell_next := Ptr n\<rparr>)
      else if b = n then Some new else map_of (cells h) b)" for b
    by (simp add: h2_def h1_def alloc_def n_def)
  have wf2: "heap_wf h2"
    using heap_wf_update [OF heap_wf_alloc [OF Cons.prems(3), of new], of d] Cons.prems(4) nd
    by (simp add: h2_def h1_def alloc_def n_def)
  have na: "next_addr h2 = Suc n" by (simp add: h2_def h1_def alloc_def n_def)
  have step: "copy_nodes fuel p (Ptr d) h = copy_nodes f (cell_next ca) (Ptr n) h2"
    using a f nd Cons.prems(4)
    by (simp add: deref_def set_next_def h2_def h1_def alloc_def n_def new_def Let_def)
  have "chain h2 (cell_next ca) as vs'"
    by (rule chain_frame [OF ch]) (use nas Cons.prems(5) in \<open>auto simp: get\<close>)
  moreover have "map_of (cells h2) n = Some new" using nd by (simp add: get)
  ultimately obtain h' bs c' where ih:
    "copy_nodes f (cell_next ca) (Ptr n) h2 = Some (Returns h')" "heap_wf h'"
    "map_of (cells h') n = Some (new\<lparr>cell_next := c'\<rparr>)" "chain h' c' bs vs'" "distinct (n # bs)"
    "\<forall>b \<in> set bs. next_addr h2 \<le> b"
    "\<forall>b. b \<noteq> n \<longrightarrow> b \<notin> set bs \<longrightarrow> map_of (cells h') b = map_of (cells h2) b"
    using Cons.IH [of h2 "cell_next ca" vs' f n new] f(2) wf2 nas by blast
  have d: "d < n" using Cons.prems(3,4) by (force simp: heap_wf_def n_def dest: map_of_SomeD)
  have dbs: "d \<notin> set bs" using ih(6) d na by auto
  show ?case
  proof (intro exI conjI)
    show "copy_nodes fuel p (Ptr d) h = Some (Returns h')" using step ih(1) by simp
    show "heap_wf h'" by fact
    show "map_of (cells h') d = Some (c\<lparr>cell_next := Ptr n\<rparr>)" using ih(7) nd dbs by (simp add: get)
    show "chain h' (Ptr n) (n # bs) vs" using ih(3,4) by (simp add: a(3) new_def)
    show "distinct (d # n # bs)" using ih(5) nd dbs by simp
    show "\<forall>b \<in> set (n # bs). next_addr h \<le> b" using ih(6) na by (auto simp: n_def)
    show "\<forall>b. b \<noteq> d \<longrightarrow> b \<notin> set (n # bs) \<longrightarrow> map_of (cells h') b = map_of (cells h) b"
      using ih(7) by (simp add: get)
  qed
qed

section \<open>The contract of a queue\<close>

locale fifo =
  fixes push :: "'v \<Rightarrow> 's \<Rightarrow> 's outcome"
    and pop :: "'s \<Rightarrow> ('v option \<times> 's) outcome"
    and empty :: "'s \<Rightarrow> bool outcome"
    and repr :: "'s \<Rightarrow> 'v list \<Rightarrow> bool"
  assumes push_repr: "repr s vs \<Longrightarrow> \<exists>s'. push v s = Returns s' \<and> repr s' (vs @ [v])"
    and pop_Nil: "repr s [] \<Longrightarrow> pop s = Returns (None, s)"
    and pop_Cons: "repr s (v # vs) \<Longrightarrow> \<exists>s'. pop s = Returns (Some v, s') \<and> repr s' vs"
    and empty_repr: "repr s vs \<Longrightarrow> empty s = Returns (vs = [])"
begin

fun push_all :: "'v list \<Rightarrow> 's \<Rightarrow> 's outcome" where
  "push_all [] s = Returns s"
| "push_all (v # vs) s = bind_outcome (push v s) (push_all vs)"

fun pop_all :: "nat \<Rightarrow> 's \<Rightarrow> ('v list \<times> 's) outcome" where
  "pop_all 0 s = Returns ([], s)"
| "pop_all (Suc n) s = bind_outcome (pop s) (\<lambda>(r, s).
     case r of None \<Rightarrow> Returns ([], s)
     | Some v \<Rightarrow> bind_outcome (pop_all n s) (\<lambda>(vs, s). Returns (v # vs, s)))"

lemma push_all_repr: "repr s us \<Longrightarrow> \<exists>s'. push_all vs s = Returns s' \<and> repr s' (us @ vs)"
proof (induction vs arbitrary: s us)
  case Nil
  then show ?case by simp
next
  case (Cons v vs)
  from push_repr [OF Cons.prems, of v] obtain s' where s': "push v s = Returns s'" "repr s' (us @ [v])"
    by blast
  from Cons.IH [OF s'(2)] s'(1) show ?case by simp
qed

lemma pop_all_repr:
  "repr s vs \<Longrightarrow> \<exists>s'. pop_all n s = Returns (take n vs, s') \<and> repr s' (drop n vs)"
proof (induction n arbitrary: s vs)
  case 0
  then show ?case by simp
next
  case (Suc n)
  show ?case
  proof (cases vs)
    case Nil
    with Suc.prems pop_Nil show ?thesis by simp
  next
    case (Cons v us)
    with Suc.prems pop_Cons obtain s' where "pop s = Returns (Some v, s')" "repr s' us" by blast
    with Suc.IH Cons show ?thesis by fastforce
  qed
qed

end

definition fl_push :: "'a \<Rightarrow> fwd_list \<times> 'a heap \<Rightarrow> (fwd_list \<times> 'a heap) outcome" where
  "fl_push v s = push_back v (fst s) (snd s)"

definition fl_pop :: "fwd_list \<times> 'a heap \<Rightarrow> ('a option \<times> fwd_list \<times> 'a heap) outcome" where
  "fl_pop s = pop_front (fst s) (snd s)"

definition fl_empty :: "fwd_list \<times> 'a heap \<Rightarrow> bool outcome" where
  "fl_empty s = is_empty (fst s)"

definition fl_holds :: "(nat \<rightharpoonup> 'a cell) \<Rightarrow> fwd_list \<times> 'a heap \<Rightarrow> 'a list \<Rightarrow> bool" where
  "fl_holds F s vs = holds F (fst s) (snd s) vs"

interpretation fl: fifo fl_push fl_pop fl_empty "fl_holds F"
  for F :: "nat \<rightharpoonup> 'a cell"
proof
  fix s :: "fwd_list \<times> 'a heap" and v :: 'a and vs :: "'a list"
  show "fl_holds F s vs \<Longrightarrow> \<exists>s'. fl_push v s = Returns s' \<and> fl_holds F s' (vs @ [v])"
    using push_back_holds [of F "fst s" "snd s" vs v] by (auto simp: fl_holds_def fl_push_def)
  show "fl_holds F s [] \<Longrightarrow> fl_pop s = Returns (None, s)"
    using pop_front_empty [of F "fst s" "snd s"] by (simp add: fl_holds_def fl_pop_def)
  show "fl_holds F s (v # vs) \<Longrightarrow> \<exists>s'. fl_pop s = Returns (Some v, s') \<and> fl_holds F s' vs"
    using pop_front_holds [of F "fst s" "snd s" v vs] by (auto simp: fl_holds_def fl_pop_def)
  show "fl_holds F s vs \<Longrightarrow> fl_empty s = Returns (vs = [])"
    using is_empty_holds [of F "fst s" "snd s" vs] by (simp add: fl_holds_def fl_empty_def)
qed

section \<open>Properties\<close>

text \<open>The pushes and pops of a client, as the locale composes them.\<close>

definition empty_heap :: "'a heap" where
  "empty_heap = \<lparr>cells = [], next_addr = 0\<rparr>"

text \<open>
  Property C37: the pointer-based list is a queue. From a new list, any values pushed are popped
  in the same order, however many are popped; no access goes through a bad pointer; and the
  destructor then returns exactly the rest of the heap as it was before the list was built:
  no node leaks, none is freed twice, nothing else is touched.
\<close>

theorem forward_list_queue:
  assumes "heap_wf h"
  shows "\<exists>s s' h'. fl.push_all vs (forward_list_init h) = Returns s \<and>
    fl.pop_all n s = Returns (take n vs, s') \<and>
    fl_empty s' = Returns (length vs \<le> n) \<and>
    delete_values (fst s') (snd s') = Returns h' \<and>
    map_of (cells h') = map_of (cells h)"
proof -
  have "fl_holds (map_of (cells h)) (forward_list_init h) []"
    using init_holds [OF assms] by (simp add: fl_holds_def)
  from fl.push_all_repr [OF this, of vs] obtain s where
    s: "fl.push_all vs (forward_list_init h) = Returns s" "fl_holds (map_of (cells h)) s vs" by auto
  from fl.pop_all_repr [OF s(2), of n] obtain s' where
    s': "fl.pop_all n s = Returns (take n vs, s')" "fl_holds (map_of (cells h)) s' (drop n vs)" by auto
  from s'(2) have "holds (map_of (cells h)) (fst s') (snd s') (drop n vs)" by (simp add: fl_holds_def)
  from delete_values_holds [OF this] obtain h' where
    "delete_values (fst s') (snd s') = Returns h'" "map_of (cells h') = map_of (cells h)" by blast
  moreover have "fl_empty s' = Returns (length vs \<le> n)"
    using is_empty_holds [OF \<open>holds (map_of (cells h)) (fst s') (snd s') (drop n vs)\<close>]
    by (simp add: fl_empty_def)
  ultimately show ?thesis using s(1) s'(1) by blast
qed

theorem forward_list_queue_witness:
  "\<exists>s s' h'. fl.push_all [1, 2, 3 :: nat] (forward_list_init empty_heap) = Returns s \<and>
    fl.pop_all 2 s = Returns (take 2 [1, 2, 3], s') \<and>
    fl_empty s' = Returns (length [1, 2, 3 :: nat] \<le> 2) \<and>
    delete_values (fst s') (snd s') = Returns h' \<and>
    map_of (cells h') = map_of (cells (empty_heap :: nat heap))"
  by (rule forward_list_queue) (simp add: heap_wf_def empty_heap_def)

text \<open>
  Copies and moves leave lists that cannot be used. The copy constructor builds a
  second chain of new nodes with the same values and leaves the original as it was, but the
  copy's tail is indeterminate, so pushing to the copy, popping from it or asking whether it is
  empty is undefined. Moving hands the list over, and destroying the list that was moved from
  dereferences a null pointer.
\<close>

lemma forward_list_copy_move:
  assumes "holds F other h vs" and "length vs \<le> fuel"
  shows "\<exists>l h' d bs p. forward_list_copy fuel other h = Some (Returns (l, h')) \<and>
    fl_head l = Ptr d \<and> map_of (cells h') d = Some \<lparr>cell_next = p, cell_value = None\<rparr> \<and>
    chain h' p bs vs \<and> distinct (d # bs) \<and>
    map_of (cells h') |` {..<next_addr h} = map_of (cells h) \<and>
    push_back v l h' = Undefined \<and> is_empty l = Undefined \<and> pop_front l h' = Undefined \<and>
    fst (forward_list_move other) = other \<and>
    delete_values (snd (forward_list_move other)) h = Undefined"
proof -
  from assms(1) obtain d0 as c0 where wf: "heap_wf h" and d0: "fl_head other = Ptr d0"
      "map_of (cells h) d0 = Some c0" and ch: "chain h (cell_next c0) as vs"
    unfolding holds_def by blast
  define d where "d = next_addr h"
  define dummy :: "'a cell" where "dummy = \<lparr>cell_next = Indeterminate, cell_value = None\<rparr>"
  define h1 where "h1 = snd (alloc dummy h)"
  have fresh: "map_of (cells h) d = None" using heap_wf_fresh [OF wf] by (simp add: d_def)
  have get: "map_of (cells h1) b = (if b = d then Some dummy else map_of (cells h) b)" for b
    by (simp add: h1_def alloc_def d_def)
  have das: "d \<notin> set as" using fresh chain_alloced [OF ch] by blast
  have ch1: "chain h1 (cell_next c0) as vs"
    by (rule chain_frame [OF ch]) (use das in \<open>auto simp: get\<close>)
  have d1: "map_of (cells h1) d = Some dummy" by (simp add: get)
  have "heap_wf h1" using heap_wf_alloc [OF wf] by (simp add: h1_def)
  from copy_nodes_chain [OF ch1 assms(2) this d1 das] obtain h' bs c' where
    h': "copy_nodes fuel (cell_next c0) (Ptr d) h1 = Some (Returns h')"
      "map_of (cells h') d = Some (dummy\<lparr>cell_next := c'\<rparr>)" "chain h' c' bs vs" "distinct (d # bs)"
      "\<forall>b \<in> set bs. next_addr h1 \<le> b"
      "\<forall>b. b \<noteq> d \<longrightarrow> b \<notin> set bs \<longrightarrow> map_of (cells h') b = map_of (cells h1) b"
    by blast
  have "d0 \<noteq> d" using d0(2) fresh by auto
  then have "forward_list_copy fuel other h =
      Some (Returns (\<lparr>fl_head = Ptr d, fl_tail = Indeterminate\<rparr>, h'))"
    using d0 h'(1) by (simp add: forward_list_copy_def deref_def h1_def alloc_def dummy_def d_def)
  moreover have "map_of (cells h') |` {..<next_addr h} = map_of (cells h)"
  proof
    fix b
    have "map_of (cells h) b = None" if "\<not> b < d"
      using that wf by (force simp: heap_wf_def d_def map_of_eq_None_iff)
    moreover have "b \<notin> set bs" if "b < d"
      using that h'(5) by (auto simp: h1_def alloc_def d_def)
    ultimately show "(map_of (cells h') |` {..<next_addr h}) b = map_of (cells h) b"
      using h'(6) by (auto simp: restrict_map_def get d_def)
  qed
  ultimately show ?thesis
    using h'(2-4) by (fastforce simp: dummy_def forward_list_move_def delete_values_def deref_def
        push_back_def set_next_def alloc_def is_empty_def pop_front_def)
qed

lemma forward_list_copy_move_witness:
  "\<exists>other h. (\<exists>l h' d bs p. forward_list_copy 2 other h = Some (Returns (l, h')) \<and>
    fl_head l = Ptr d \<and> map_of (cells h') d = Some \<lparr>cell_next = p, cell_value = None\<rparr> \<and>
    chain h' p bs [7, 8 :: nat] \<and> distinct (d # bs) \<and>
    map_of (cells h') |` {..<next_addr h} = map_of (cells h) \<and>
    push_back 9 l h' = Undefined \<and> is_empty l = Undefined \<and> pop_front l h' = Undefined \<and>
    fst (forward_list_move other) = other \<and>
    delete_values (snd (forward_list_move other)) h = Undefined)"
proof -
  have "fl_holds (map_of (cells (empty_heap :: nat heap))) (forward_list_init empty_heap) []"
    using init_holds [of "empty_heap :: nat heap"]
    by (simp add: fl_holds_def heap_wf_def empty_heap_def)
  from fl.push_all_repr [OF this, of "[7, 8]"] obtain s where
    "fl_holds (map_of (cells (empty_heap :: nat heap))) s [7, 8]" by auto
  then have "holds (map_of (cells (empty_heap :: nat heap))) (fst s) (snd s) [7, 8]"
    by (simp add: fl_holds_def)
  from forward_list_copy_move [OF this, of 2 9] show ?thesis
    by - (rule exI [where x = "fst s"], rule exI [where x = "snd s"], simp)
qed

text \<open>No assignment ever returns.\<close>

lemma forward_list_assign_never:
  "forward_list_assign fuel l other h \<noteq> Some (Returns r)" "forward_list_assign_move l other h \<noteq> Returns q"
  by (auto simp: forward_list_assign_def forward_list_assign_move_def bind_outcome_Returns_iff forward_list_move_def
    split: outcome.splits)

end
