(* ===== verification/Mpmc_Queue.thy ===== *)
theory Mpmc_Queue
  imports Res Forward_List
begin

text \<open>
  \<open>mpmc-queue/mpmc_queue.hpp\<close>: the unbounded channel with many producers and many consumers.
  Every operation of \<open>UnboundedMPMCQueue\<close> runs under the queue's mutex, so it is one atomic
  step on the queue's fields; what it does to the condition variable is its \<open>signal\<close>. A call of
  \<open>pop\<close> is a loop of turns, each under the mutex, with \<open>wait\<close> between them. The step relation
  \<open>mpmc_step\<close> interleaves the operations of any number of threads and of the handles
  (\<open>Sender\<close>, \<open>Receiver\<close>) in any order, with spurious wake-ups.
\<close>

section \<open>The queue\<close>

datatype closed = Closed

datatype signal = No_Signal | Notify_One | Notify_All

text \<open>\<open>buffer\<close> is \<open>_queue\<close>, the list together with the memory its nodes live in.\<close>

record 'a mpmc =
  buffer :: "fwd_list \<times> 'a heap"
  consumder_count :: "32 word"
  producer_count :: "32 word"

definition mpmc_init :: "'a heap \<Rightarrow> 'a mpmc" where
  "mpmc_init h =
     \<lparr>buffer = forward_list_init h, consumder_count = 1, producer_count = 1\<rparr>"

definition incr_consumer_cnt :: "'a mpmc \<Rightarrow> 'a mpmc" where
  "incr_consumer_cnt q = q\<lparr>consumder_count := consumder_count q + 1\<rparr>"

definition decr_consumer_cnt :: "'a mpmc \<Rightarrow> 'a mpmc" where
  "decr_consumer_cnt q = q\<lparr>consumder_count := consumder_count q - 1\<rparr>"

definition incr_producer_cnt :: "'a mpmc \<Rightarrow> 'a mpmc" where
  "incr_producer_cnt q = q\<lparr>producer_count := producer_count q + 1\<rparr>"

definition decr_producer_cnt :: "'a mpmc \<Rightarrow> 'a mpmc \<times> signal" where
  "decr_producer_cnt q =
     (let q = q\<lparr>producer_count := producer_count q - 1\<rparr>
      in (q, if producer_count q = 0 then Notify_All else No_Signal))"

definition push :: "'a \<Rightarrow> 'a mpmc \<Rightarrow> ((unit, closed) res \<times> 'a mpmc \<times> signal) outcome" where
  "push v q =
     (if consumder_count q = 0 then Returns (Err Closed, q, No_Signal)
      else bind_outcome (fl_push v (buffer q)) (\<lambda>b.
        Returns (Ok (), q\<lparr>buffer := b\<rparr>, Notify_One)))"

text \<open>One turn of the loop of \<open>pop\<close>: \<open>None\<close> when the thread goes to wait.\<close>

definition pop_turn :: "'a mpmc \<Rightarrow> (('a, closed) res option \<times> 'a mpmc) outcome" where
  "pop_turn q =
     bind_outcome (fl_empty (buffer q)) (\<lambda>empty.
       if empty then
         (if producer_count q = 0 then Returns (Some (Err Closed), q) else Returns (None, q))
       else bind_outcome (fl_pop (buffer q)) (\<lambda>(r, b). case r of
           None \<Rightarrow> Throws Bad_optional_access
         | Some v \<Rightarrow> Returns (Some (Ok v), q\<lparr>buffer := b\<rparr>)))"

definition try_pop :: "'a mpmc \<Rightarrow> (('a option, closed) res \<times> 'a mpmc) outcome" where
  "try_pop q =
     bind_outcome (fl_empty (buffer q)) (\<lambda>empty.
       if empty \<and> producer_count q = 0 then Returns (Err Closed, q)
       else bind_outcome (fl_pop (buffer q)) (\<lambda>(r, b). Returns (Ok r, q\<lparr>buffer := b\<rparr>)))"

text \<open>The destructor, run when the last handle gives up the shared pointer.\<close>

definition mpmc_destroy :: "'a mpmc \<Rightarrow> 'a mpmc outcome" where
  "mpmc_destroy q =
     bind_outcome (delete_values (fst (buffer q)) (snd (buffer q))) (\<lambda>h.
       Returns (q\<lparr>buffer := (fst (buffer q), h)\<rparr>))"

section \<open>Handles\<close>

text \<open>
  A handle owns a shared pointer to the queue, or nothing after a move. The functions give the
  effect of the special members on the queue: \<open>None\<close> is a handle that was moved from.
\<close>

definition sender_copy :: "'a mpmc option \<Rightarrow> 'a mpmc option" where
  "sender_copy other = map_option incr_producer_cnt other"

definition sender_destroy :: "'a mpmc option \<Rightarrow> ('a mpmc \<times> signal) option" where
  "sender_destroy self = map_option decr_producer_cnt self"

text \<open>Copying a receiver does not check for null, destroying one does.\<close>

definition receiver_copy :: "'a mpmc option \<Rightarrow> 'a mpmc outcome" where
  "receiver_copy other =
     (case other of None \<Rightarrow> Undefined | Some q \<Rightarrow> Returns (incr_consumer_cnt q))"

definition receiver_destroy :: "'a mpmc option \<Rightarrow> 'a mpmc option" where
  "receiver_destroy self = map_option decr_consumer_cnt self"

definition send :: "'a \<Rightarrow> 'a mpmc option \<Rightarrow> ((unit, closed) res \<times> 'a mpmc \<times> signal) outcome" where
  "send v self = (case self of None \<Rightarrow> Undefined | Some q \<Rightarrow> push v q)"

definition recv_turn :: "'a mpmc option \<Rightarrow> (('a, closed) res option \<times> 'a mpmc) outcome" where
  "recv_turn self = (case self of None \<Rightarrow> Undefined | Some q \<Rightarrow> pop_turn q)"

definition try_recv :: "'a mpmc option \<Rightarrow> (('a option, closed) res \<times> 'a mpmc) outcome" where
  "try_recv self = (case self of None \<Rightarrow> Undefined | Some q \<Rightarrow> try_pop q)"

section \<open>Threads and handles together\<close>

text \<open>
  \<open>senders\<close> and \<open>receivers\<close> count the live handles that own the queue. A thread inside
  \<open>pop\<close> is in \<open>entered\<close> when it runs or is about to acquire the mutex, in \<open>waiting\<close> when it is
  blocked on the condition variable.
\<close>

record 'a system =
  chan :: "'a mpmc"
  senders :: nat
  receivers :: nat
  entered :: "nat set"
  waiting :: "nat set"

datatype 'a action =
    Send nat 'a "(unit, closed) res"
  | Enter nat
  | Recv nat "('a, closed) res"
  | Wait nat
  | Wake_Up nat
  | Try_Recv nat "('a option, closed) res"
  | Clone_Sender
  | Drop_Sender
  | Clone_Receiver
  | Drop_Receiver

text \<open>\<open>channel()\<close>: one sender and one receiver.\<close>

definition channel :: "'a heap \<Rightarrow> 'a system" where
  "channel h = \<lparr>chan = mpmc_init h, senders = 1, receivers = 1, entered = {}, waiting = {}\<rparr>"

text \<open>The threads a signal may wake. \<open>notify_one\<close> picks any waiting thread, if there is one.\<close>

fun woken :: "signal \<Rightarrow> nat set \<Rightarrow> nat set \<Rightarrow> bool" where
  "woken No_Signal W K = (K = {})"
| "woken Notify_One W K = (if W = {} then K = {} else (\<exists>j \<in> W. K = {j}))"
| "woken Notify_All W K = (K = W)"

definition wake :: "nat set \<Rightarrow> 'a system \<Rightarrow> 'a system" where
  "wake K s = s\<lparr>entered := entered s \<union> K, waiting := waiting s - K\<rparr>"

definition outside :: "nat \<Rightarrow> 'a system \<Rightarrow> bool" where
  "outside i s \<longleftrightarrow> i \<notin> entered s \<and> i \<notin> waiting s"

text \<open>The handles' shared pointer: the queue is destroyed with the last of them.\<close>

definition release :: "'a system \<Rightarrow> 'a system outcome" where
  "release s =
     (if senders s = 0 \<and> receivers s = 0
      then bind_outcome (mpmc_destroy (chan s)) (\<lambda>q. Returns (s\<lparr>chan := q\<rparr>))
      else Returns s)"

text \<open>
  A handle is used only while it lives, and the last receiver lives as long as a thread is inside
  one of its calls. Fewer than \<open>2 ^ 32\<close> handles of a kind exist at a time.
\<close>

inductive mpmc_step :: "'a system \<Rightarrow> 'a action \<Rightarrow> 'a system \<Rightarrow> bool" where
  step_send: "0 < senders s \<Longrightarrow> outside i s \<Longrightarrow> send v (Some (chan s)) = Returns (r, q, sig) \<Longrightarrow>
     woken sig (waiting s) K \<Longrightarrow> mpmc_step s (Send i v r) (wake K (s\<lparr>chan := q\<rparr>))"
| step_enter: "0 < receivers s \<Longrightarrow> outside i s \<Longrightarrow>
     mpmc_step s (Enter i) (s\<lparr>entered := insert i (entered s)\<rparr>)"
| step_recv: "i \<in> entered s \<Longrightarrow> recv_turn (Some (chan s)) = Returns (Some r, q) \<Longrightarrow>
     mpmc_step s (Recv i r) (s\<lparr>chan := q, entered := entered s - {i}\<rparr>)"
| step_wait: "i \<in> entered s \<Longrightarrow> recv_turn (Some (chan s)) = Returns (None, q) \<Longrightarrow>
     mpmc_step s (Wait i)
       (s\<lparr>chan := q, entered := entered s - {i}, waiting := insert i (waiting s)\<rparr>)"
| step_wake_up: "i \<in> waiting s \<Longrightarrow> mpmc_step s (Wake_Up i) (wake {i} s)"
| step_try_recv: "0 < receivers s \<Longrightarrow> outside i s \<Longrightarrow>
     try_recv (Some (chan s)) = Returns (r, q) \<Longrightarrow>
     mpmc_step s (Try_Recv i r) (s\<lparr>chan := q\<rparr>)"
| step_clone_sender: "0 < senders s \<Longrightarrow> senders s + 1 < 2 ^ 32 \<Longrightarrow>
     sender_copy (Some (chan s)) = Some q \<Longrightarrow>
     mpmc_step s Clone_Sender (s\<lparr>chan := q, senders := senders s + 1\<rparr>)"
| step_clone_receiver: "0 < receivers s \<Longrightarrow> receivers s + 1 < 2 ^ 32 \<Longrightarrow>
     receiver_copy (Some (chan s)) = Returns q \<Longrightarrow>
     mpmc_step s Clone_Receiver (s\<lparr>chan := q, receivers := receivers s + 1\<rparr>)"
| step_drop_sender: "0 < senders s \<Longrightarrow> sender_destroy (Some (chan s)) = Some (q, sig) \<Longrightarrow>
     woken sig (waiting s) K \<Longrightarrow>
     release (wake K (s\<lparr>chan := q, senders := senders s - 1\<rparr>)) = Returns s' \<Longrightarrow>
     mpmc_step s Drop_Sender s'"
| step_drop_receiver: "0 < receivers s \<Longrightarrow> (receivers s = 1 \<Longrightarrow> entered s = {} \<and> waiting s = {}) \<Longrightarrow>
     receiver_destroy (Some (chan s)) = Some q \<Longrightarrow>
     release (s\<lparr>chan := q, receivers := receivers s - 1\<rparr>) = Returns s' \<Longrightarrow>
     mpmc_step s Drop_Receiver s'"

inductive mpmc_run :: "'a system \<Rightarrow> 'a action list \<Rightarrow> 'a system \<Rightarrow> bool" where
  run_Nil: "mpmc_run s [] s"
| run_snoc: "mpmc_run s ls t \<Longrightarrow> mpmc_step t l u \<Longrightarrow> mpmc_run s (ls @ [l]) u"

text \<open>The values accepted by \<open>send\<close> and handed out by \<open>recv\<close> and \<open>try_recv\<close>, in order.\<close>

fun sent_by :: "'a action \<Rightarrow> 'a list" where
  "sent_by (Send i v (Ok _)) = [v]"
| "sent_by _ = []"

fun received_by :: "'a action \<Rightarrow> 'a list" where
  "received_by (Recv i (Ok v)) = [v]"
| "received_by (Try_Recv i (Ok (Some v))) = [v]"
| "received_by _ = []"

definition sent :: "'a action list \<Rightarrow> 'a list" where
  "sent ls = concat (map sent_by ls)"

definition received :: "'a action list \<Rightarrow> 'a list" where
  "received ls = concat (map received_by ls)"

section \<open>What the operations do to the buffered values\<close>

lemma push_closed: "consumder_count q = 0 \<Longrightarrow> push v q = Returns (Err Closed, q, No_Signal)"
  by (simp add: push_def)

lemma push_open:
  assumes "fl_holds F (buffer q) vs" and "consumder_count q \<noteq> 0"
  shows "\<exists>b. push v q = Returns (Ok (), q\<lparr>buffer := b\<rparr>, Notify_One) \<and> fl_holds F b (vs @ [v])"
proof -
  from fl.push_repr [OF assms(1)] obtain b where
    "fl_push v (buffer q) = Returns b" "fl_holds F b (vs @ [v])" by blast
  with assms(2) show ?thesis by (intro exI [of _ b]) (simp add: push_def)
qed

lemma pop_turn_Nil:
  "fl_holds F (buffer q) [] \<Longrightarrow>
     pop_turn q = Returns (if producer_count q = 0 then Some (Err Closed) else None, q)"
  using fl.empty_repr [of F "buffer q" "[]"] by (simp add: pop_turn_def)

lemma pop_turn_Cons:
  assumes "fl_holds F (buffer q) (v # vs)"
  shows "\<exists>b. pop_turn q = Returns (Some (Ok v), q\<lparr>buffer := b\<rparr>) \<and> fl_holds F b vs"
proof -
  from fl.pop_Cons [OF assms] obtain b where
    "fl_pop (buffer q) = Returns (Some v, b)" "fl_holds F b vs" by blast
  with fl.empty_repr [OF assms] show ?thesis by (intro exI [of _ b]) (simp add: pop_turn_def)
qed

lemma try_pop_Nil:
  "fl_holds F (buffer q) [] \<Longrightarrow>
     try_pop q = Returns (if producer_count q = 0 then Err Closed else Ok None, q)"
  using fl.empty_repr [of F "buffer q" "[]"] fl.pop_Nil [of F "buffer q"]
  by (cases "buffer q") (simp add: try_pop_def)

lemma try_pop_Cons:
  assumes "fl_holds F (buffer q) (v # vs)"
  shows "\<exists>b. try_pop q = Returns (Ok (Some v), q\<lparr>buffer := b\<rparr>) \<and> fl_holds F b vs"
proof -
  from fl.pop_Cons [OF assms] obtain b where
    "fl_pop (buffer q) = Returns (Some v, b)" "fl_holds F b vs" by blast
  with fl.empty_repr [OF assms] show ?thesis by (intro exI [of _ b]) (simp add: try_pop_def)
qed

lemma mpmc_destroy_holds:
  "fl_holds F (buffer q) vs \<Longrightarrow> \<exists>h. mpmc_destroy q = Returns (q\<lparr>buffer := (fst (buffer q), h)\<rparr>) \<and>
     map_of (cells h) = F"
  using delete_values_holds [of F "fst (buffer q)" "snd (buffer q)" vs]
  by (auto simp: mpmc_destroy_def fl_holds_def)

section \<open>The invariant\<close>

definition counts_ok :: "'a system \<Rightarrow> bool" where
  "counts_ok s \<longleftrightarrow> senders s < 2 ^ 32 \<and> receivers s < 2 ^ 32 \<and>
     producer_count (chan s) = of_nat (senders s) \<and> consumder_count (chan s) = of_nat (receivers s)"

definition threads_ok :: "'a system \<Rightarrow> bool" where
  "threads_ok s \<longleftrightarrow> finite (entered s) \<and> finite (waiting s) \<and> entered s \<inter> waiting s = {} \<and>
     (receivers s = 0 \<longrightarrow> entered s = {} \<and> waiting s = {})"

text \<open>No wake-up is lost: while a thread waits the channel is open, and for every buffered value
  there is a thread on its way to the buffer.\<close>

definition wakeups_ok :: "'a system \<Rightarrow> 'a list \<Rightarrow> bool" where
  "wakeups_ok s vs \<longleftrightarrow>
     (waiting s \<noteq> {} \<longrightarrow> 0 < senders s \<and> length vs \<le> card (entered s))"

definition buffer_ok :: "(nat \<rightharpoonup> 'a cell) \<Rightarrow> 'a system \<Rightarrow> 'a list \<Rightarrow> bool" where
  "buffer_ok F s vs \<longleftrightarrow>
     (if senders s = 0 \<and> receivers s = 0 then map_of (cells (snd (buffer (chan s)))) = F
      else fl_holds F (buffer (chan s)) vs)"

definition mpmc_inv :: "(nat \<rightharpoonup> 'a cell) \<Rightarrow> 'a system \<Rightarrow> 'a list \<Rightarrow> bool" where
  "mpmc_inv F s vs \<longleftrightarrow> counts_ok s \<and> threads_ok s \<and> wakeups_ok s vs \<and> buffer_ok F s vs"

lemmas inv_parts = mpmc_inv_def counts_ok_def threads_ok_def wakeups_ok_def buffer_ok_def

lemma count_zero: "n < 2 ^ 32 \<Longrightarrow> (of_nat n :: 32 word) = 0 \<longleftrightarrow> n = 0"
  by (simp add: word_of_nat_eq_0_iff nat_dvd_not_less) (metis nat_dvd_not_less bot_nat_0.not_eq_extremum dvd_0_right)

lemma channel_inv: "heap_wf h \<Longrightarrow> mpmc_inv (map_of (cells h)) (channel h) []"
  using init_holds [of h] by (simp add: inv_parts channel_def mpmc_init_def fl_holds_def)

lemma waking_keeps:
  assumes "threads_ok s" and "K \<subseteq> waiting s"
  shows "threads_ok (wake K s)" and "card (entered (wake K s)) = card (entered s) + card K"
proof -
  from assms have "finite K" "entered s \<inter> K = {}" by (auto simp: threads_ok_def intro: finite_subset)
  with assms show "card (entered (wake K s)) = card (entered s) + card K"
    by (simp add: wake_def threads_ok_def card_Un_disjoint)
  from assms \<open>finite K\<close> show "threads_ok (wake K s)" by (auto simp: wake_def threads_ok_def)
qed

lemma woken_subset: "woken sig W K \<Longrightarrow> K \<subseteq> W"
  by (cases sig) (auto split: if_splits)

lemma wake_sel [simp]:
  "chan (wake K s) = chan s" "senders (wake K s) = senders s" "receivers (wake K s) = receivers s"
  "waiting (wake K s) = waiting s - K"
  by (simp_all add: wake_def)


text \<open>Each kind of step keeps the invariant and moves the values it sends and receives.\<close>

lemma send_inv:
  assumes "mpmc_inv F s vs" and "0 < senders s" and "outside i s"
    and "send v (Some (chan s)) = Returns (r, q, sig)" and "woken sig (waiting s) K"
  shows "mpmc_inv F (wake K (s\<lparr>chan := q\<rparr>)) (vs @ sent_by (Send i v r))"
proof (cases "receivers s = 0")
  case True
  with assms(1) have "consumder_count (chan s) = 0" by (simp add: inv_parts)
  with assms(4) have "r = Err Closed" "q = chan s" "sig = No_Signal"
    by (auto simp: send_def push_closed)
  with assms True show ?thesis by (simp add: inv_parts wake_def)
next
  case False
  have h: "fl_holds F (buffer (chan s)) vs" and c: "consumder_count (chan s) \<noteq> 0"
    using assms(1,2) False by (auto simp: inv_parts count_zero)
  from push_open [OF h c, of v] assms(4) obtain b where
    b: "r = Ok ()" "q = chan s\<lparr>buffer := b\<rparr>" "sig = Notify_One" "fl_holds F b (vs @ [v])"
    by (auto simp: send_def)
  have K: "K \<subseteq> waiting s" using assms(5) by (rule woken_subset)
  have t: "threads_ok s" using assms(1) by (simp add: mpmc_inv_def)
  have n: "waiting s \<noteq> {} \<Longrightarrow> card K = 1" using assms(5) b(3) by auto
  have "wakeups_ok (wake K (s\<lparr>chan := q\<rparr>)) (vs @ [v])"
  proof -
    have "card (entered (wake K (s\<lparr>chan := q\<rparr>))) = card (entered s) + card K"
      using waking_keeps(2) [OF t K] by (simp add: wake_def)
    with assms(1,2) n show ?thesis by (cases "waiting s = {}") (auto simp: inv_parts)
  qed
  moreover have "threads_ok (wake K (s\<lparr>chan := q\<rparr>))"
    using waking_keeps(1) [OF t K] False by (simp add: wake_def threads_ok_def)
  ultimately show ?thesis using assms(1,2) b
    by (simp add: mpmc_inv_def counts_ok_def buffer_ok_def)
qed

lemma recv_inv:
  assumes "mpmc_inv F s vs" and "i \<in> entered s" and "recv_turn (Some (chan s)) = Returns (Some r, q)"
  shows "\<exists>vs'. mpmc_inv F (s\<lparr>chan := q, entered := entered s - {i}\<rparr>) vs' \<and>
    vs = received_by (Recv i r) @ vs' \<and> (r = Err Closed \<longrightarrow> vs = [] \<and> senders s = 0)"
proof (cases vs)
  case Nil
  have h: "fl_holds F (buffer (chan s)) []" using assms(1,2) Nil by (auto simp: inv_parts)
  from pop_turn_Nil [OF h] assms(3) have "producer_count (chan s) = 0" "r = Err Closed" "q = chan s"
    by (auto simp: recv_turn_def split: if_splits)
  with assms(1) Nil show ?thesis by (auto simp: inv_parts count_zero)
next
  case (Cons v us)
  have h: "fl_holds F (buffer (chan s)) (v # us)" using assms(1,2) Cons by (auto simp: inv_parts)
  from pop_turn_Cons [OF h] assms(3) obtain b where
    b: "r = Ok v" "q = chan s\<lparr>buffer := b\<rparr>" "fl_holds F b us"
    by (auto simp: recv_turn_def)
  have "card (entered s - {i}) = card (entered s) - 1"
    using assms(1,2) by (simp add: inv_parts)
  with assms(1,2) b Cons show ?thesis by (auto simp: inv_parts)
qed

lemma wait_inv:
  assumes "mpmc_inv F s vs" and "i \<in> entered s" and "recv_turn (Some (chan s)) = Returns (None, q)"
  shows "mpmc_inv F (s\<lparr>chan := q, entered := entered s - {i}, waiting := insert i (waiting s)\<rparr>) vs"
proof (cases vs)
  case Nil
  have h: "fl_holds F (buffer (chan s)) []" using assms(1,2) Nil by (auto simp: inv_parts)
  from pop_turn_Nil [OF h] assms(3) have "producer_count (chan s) \<noteq> 0" "q = chan s"
    by (auto simp: recv_turn_def split: if_splits)
  with assms(1,2) Nil show ?thesis by (auto simp: inv_parts count_zero)
next
  case (Cons v us)
  have h: "fl_holds F (buffer (chan s)) (v # us)" using assms(1,2) Cons by (auto simp: inv_parts)
  from pop_turn_Cons [OF h] assms(3) show ?thesis by (auto simp: recv_turn_def)
qed

lemma try_recv_inv:
  assumes "mpmc_inv F s vs" and "0 < receivers s" and "try_recv (Some (chan s)) = Returns (r, q)"
  shows "\<exists>vs'. mpmc_inv F (s\<lparr>chan := q\<rparr>) vs' \<and>
    vs = received_by (Try_Recv i r) @ vs' \<and> (r = Err Closed \<longrightarrow> vs = [] \<and> senders s = 0)"
proof (cases vs)
  case Nil
  have h: "fl_holds F (buffer (chan s)) []" using assms(1,2) Nil by (auto simp: inv_parts)
  from try_pop_Nil [OF h] assms(3) have "q = chan s"
    "r = (if producer_count (chan s) = 0 then Err Closed else Ok None)"
    by (auto simp: try_recv_def)
  with assms(1) Nil show ?thesis by (auto simp: inv_parts count_zero)
next
  case (Cons v us)
  have h: "fl_holds F (buffer (chan s)) (v # us)" using assms(1,2) Cons by (auto simp: inv_parts)
  from try_pop_Cons [OF h] assms(3) obtain b where
    b: "r = Ok (Some v)" "q = chan s\<lparr>buffer := b\<rparr>" "fl_holds F b us"
    by (auto simp: try_recv_def)
  with assms(1,2) Cons show ?thesis by (auto simp: inv_parts)
qed

lemma release_inv:
  assumes "release s = Returns s'" and "counts_ok s" and "threads_ok s" and "wakeups_ok s vs"
    and "fl_holds F (buffer (chan s)) vs"
  shows "mpmc_inv F s' vs"
proof (cases "senders s = 0 \<and> receivers s = 0")
  case True
  from mpmc_destroy_holds [OF assms(5)] True assms(1) obtain h where
    "s' = s\<lparr>chan := (chan s)\<lparr>buffer := (fst (buffer (chan s)), h)\<rparr>\<rparr>" "map_of (cells h) = F"
    by (auto simp: release_def)
  with assms True show ?thesis by (simp add: inv_parts)
next
  case False
  with assms show ?thesis by (auto simp: release_def mpmc_inv_def buffer_ok_def)
qed

lemma of_nat_pred: "0 < n \<Longrightarrow> (of_nat n :: 32 word) - 1 = of_nat (n - 1)"
  by (cases n) simp_all

lemma drop_sender_inv:
  assumes "mpmc_inv F s vs" and "0 < senders s" and "sender_destroy (Some (chan s)) = Some (q, sig)"
    and "woken sig (waiting s) K"
    and "release (wake K (s\<lparr>chan := q, senders := senders s - 1\<rparr>)) = Returns s'"
  shows "mpmc_inv F s' vs"
proof (rule release_inv [OF assms(5)])
  let ?s = "wake K (s\<lparr>chan := q, senders := senders s - 1\<rparr>)"
  have pc: "producer_count (chan s) - 1 = of_nat (senders s - 1)"
  proof -
    have "producer_count (chan s) = of_nat (senders s)" using assms(1) by (simp add: inv_parts)
    then show ?thesis by (simp only: of_nat_pred [OF assms(2)])
  qed
  have lt: "senders s - 1 < 2 ^ 32" using assms(1) unfolding inv_parts by linarith
  define z :: "32 word" where "z = of_nat (senders s - 1)"
  have z: "z = 0 \<longleftrightarrow> senders s = 1" using count_zero [OF lt] assms(2) by (auto simp: z_def)
  have q: "q = (chan s)\<lparr>producer_count := z\<rparr>" and sig: "sig = (if z = 0 then Notify_All else No_Signal)"
    using assms(3) pc [folded z_def] by (auto simp: sender_destroy_def decr_producer_cnt_def Let_def)
  have K: "K \<subseteq> waiting s" using assms(4) by (rule woken_subset)
  have t: "threads_ok s" using assms(1) by (simp add: mpmc_inv_def)
  show "counts_ok ?s" using assms(1) lt by (simp add: inv_parts q z_def)
  show "threads_ok ?s" using waking_keeps(1) [OF t K] t by (auto simp: wake_def threads_ok_def)
  have K': "senders s = 1 \<Longrightarrow> K = waiting s" "senders s \<noteq> 1 \<Longrightarrow> K = {}"
    using assms(4) sig z by auto
  have w: "wakeups_ok s vs" using assms(1) by (simp add: mpmc_inv_def)
  show "wakeups_ok ?s vs"
  proof (cases "senders s = 1")
    case True
    with K' show ?thesis by (simp add: wakeups_ok_def)
  next
    case False
    with K' w assms(2) show ?thesis by (simp add: wakeups_ok_def wake_def)
  qed
  show "fl_holds F (buffer (chan ?s)) vs" using assms(1,2) by (simp add: inv_parts q)
qed

lemma drop_receiver_inv:
  assumes "mpmc_inv F s vs" and "0 < receivers s"
    and "receivers s = 1 \<Longrightarrow> entered s = {} \<and> waiting s = {}"
    and "receiver_destroy (Some (chan s)) = Some q"
    and "release (s\<lparr>chan := q, receivers := receivers s - 1\<rparr>) = Returns s'"
  shows "mpmc_inv F s' vs"
proof (rule release_inv [OF assms(5)])
  let ?s = "s\<lparr>chan := q, receivers := receivers s - 1\<rparr>"
  have q: "q = (chan s)\<lparr>consumder_count := of_nat (receivers s - 1)\<rparr>"
  proof -
    have "consumder_count (chan s) = of_nat (receivers s)" using assms(1) by (simp add: inv_parts)
    then have "consumder_count (chan s) - 1 = of_nat (receivers s - 1)"
      by (simp only: of_nat_pred [OF assms(2)])
    with assms(4) show ?thesis by (simp add: receiver_destroy_def decr_consumer_cnt_def)
  qed
  have "receivers s - 1 < 2 ^ 32" using assms(1) unfolding inv_parts by linarith
  then show "counts_ok ?s" using assms(1) by (simp add: inv_parts q)
  have "receivers s - 1 = 0 \<Longrightarrow> receivers s = 1" using assms(2) by simp
  then show "threads_ok ?s" using assms(1,3) by (auto simp: mpmc_inv_def threads_ok_def)
  show "wakeups_ok ?s vs" using assms(1) by (simp add: mpmc_inv_def wakeups_ok_def)
  show "fl_holds F (buffer (chan ?s)) vs" using assms(1,2) by (simp add: inv_parts q)
qed

lemma mpmc_step_inv:
  assumes "mpmc_step s l s'" and "mpmc_inv F s vs"
  shows "\<exists>vs'. mpmc_inv F s' vs' \<and> vs @ sent_by l = received_by l @ vs'"
  using assms
proof (cases rule: mpmc_step.cases)
  case (step_send i v r q sig K)
  then show ?thesis using send_inv [OF assms(2) step_send(3-6)] by simp
next
  case (step_enter i)
  with assms(2) show ?thesis
    by (intro exI [of _ vs]) (auto simp: inv_parts outside_def)
next
  case (step_recv i r q)
  with recv_inv [OF assms(2)] show ?thesis by fastforce
next
  case (step_wait i q)
  with wait_inv [OF assms(2)] show ?thesis by auto
next
  case (step_wake_up i)
  have t: "threads_ok s" using assms(2) by (simp add: mpmc_inv_def)
  from waking_keeps [OF t, of "{i}"] step_wake_up assms(2) show ?thesis
    by (intro exI [of _ vs]) (auto simp: mpmc_inv_def counts_ok_def wakeups_ok_def buffer_ok_def)
next
  case (step_try_recv i r q)
  with try_recv_inv [OF assms(2)] show ?thesis by fastforce
next
  case (step_clone_sender q)
  with assms(2) show ?thesis
    by (intro exI [of _ vs]) (auto simp: inv_parts sender_copy_def incr_producer_cnt_def add.commute)
next
  case (step_clone_receiver q)
  with assms(2) show ?thesis
    by (intro exI [of _ vs]) (auto simp: inv_parts receiver_copy_def incr_consumer_cnt_def add.commute)
next
  case (step_drop_sender q sig K)
  with drop_sender_inv [OF assms(2)] show ?thesis by auto
next
  case (step_drop_receiver q)
  with drop_receiver_inv [OF assms(2)] show ?thesis by auto
qed

lemma mpmc_run_inv:
  assumes "mpmc_run s ls s'" and "mpmc_inv F s us"
  shows "\<exists>vs. mpmc_inv F s' vs \<and> us @ sent ls = received ls @ vs"
  using assms
proof (induction rule: mpmc_run.induct)
  case (run_Nil s)
  then show ?case by (auto simp: sent_def received_def)
next
  case (run_snoc s ls t l u)
  then obtain vs where vs: "mpmc_inv F t vs" "us @ sent ls = received ls @ vs" by auto
  from mpmc_step_inv [OF run_snoc.hyps(2) vs(1)] obtain vs' where
    "mpmc_inv F u vs'" "vs @ sent_by l = received_by l @ vs'" by blast
  moreover have "us @ sent (ls @ [l]) = (us @ sent ls) @ sent_by l"
    and "received (ls @ [l]) = received ls @ received_by l"
    by (simp_all add: sent_def received_def)
  ultimately show ?case using vs(2) by auto
qed


text \<open>Under the invariant no operation on a live handle throws or is undefined.\<close>

lemma operations_return:
  assumes "mpmc_inv F s vs"
  shows "0 < senders s \<Longrightarrow> \<exists>r q sig. send v (Some (chan s)) = Returns (r, q, sig)"
    and "0 < receivers s \<Longrightarrow> \<exists>r q. recv_turn (Some (chan s)) = Returns (r, q)"
    and "0 < receivers s \<Longrightarrow> \<exists>r q. try_recv (Some (chan s)) = Returns (r, q)"
proof -
  have h: "0 < senders s \<or> 0 < receivers s \<Longrightarrow> fl_holds F (buffer (chan s)) vs"
    using assms by (auto simp: inv_parts)
  show "\<exists>r q sig. send v (Some (chan s)) = Returns (r, q, sig)" if "0 < senders s"
    using push_open [OF h, of v] push_closed [of "chan s" v] that
    by (cases "consumder_count (chan s) = 0") (auto simp: send_def)
  show "\<exists>r q. recv_turn (Some (chan s)) = Returns (r, q)" if "0 < receivers s"
    using h that pop_turn_Nil [of F "chan s"] pop_turn_Cons [of F "chan s"]
    by (cases vs) (fastforce simp: recv_turn_def)+
  show "\<exists>r q. try_recv (Some (chan s)) = Returns (r, q)" if "0 < receivers s"
    using h that try_pop_Nil [of F "chan s"] try_pop_Cons [of F "chan s"]
    by (cases vs) (fastforce simp: try_recv_def)+
qed

lemma send_closed:
  assumes "mpmc_inv F s vs" and "0 < senders s" and "send v (Some (chan s)) = Returns (Err Closed, q, sig)"
  shows "receivers s = 0"
proof (rule ccontr)
  assume "receivers s \<noteq> 0"
  with assms(1,2) have "fl_holds F (buffer (chan s)) vs" "consumder_count (chan s) \<noteq> 0"
    by (auto simp: inv_parts count_zero)
  from push_open [OF this, of v] assms(3) show False by (auto simp: send_def)
qed

lemma recv_turn_closed:
  assumes "mpmc_inv F s vs" and "senders s = 0" and "i \<in> entered s"
  shows "\<exists>r q. recv_turn (Some (chan s)) = Returns (Some r, q)"
proof -
  have h: "fl_holds F (buffer (chan s)) vs" and "producer_count (chan s) = 0"
    using assms by (auto simp: inv_parts)
  then show ?thesis
    using pop_turn_Nil [of F "chan s"] pop_turn_Cons [of F "chan s"]
    by (cases vs) (fastforce simp: recv_turn_def)+
qed

lemma drops_return:
  assumes "mpmc_inv F s vs"
  shows "0 < senders s \<Longrightarrow> \<exists>t. mpmc_step s Drop_Sender t"
    and "0 < receivers s \<Longrightarrow> receivers s = 1 \<longrightarrow> entered s = {} \<and> waiting s = {} \<Longrightarrow>
      \<exists>t. mpmc_step s Drop_Receiver t"
proof -
  have released: "\<exists>t. release u = Returns t" if "fl_holds F (buffer (chan u)) vs" for u
    using mpmc_destroy_holds [OF that] by (auto simp: release_def)
  have h: "0 < senders s \<or> 0 < receivers s \<Longrightarrow> fl_holds F (buffer (chan s)) vs"
    using assms by (auto simp: inv_parts)
  show "\<exists>t. mpmc_step s Drop_Sender t" if n: "0 < senders s"
  proof -
    obtain q sig where d: "sender_destroy (Some (chan s)) = Some (q, sig)"
      by (cases "decr_producer_cnt (chan s)") (simp add: sender_destroy_def)
    then have b: "buffer q = buffer (chan s)"
      by (auto simp: sender_destroy_def decr_producer_cnt_def Let_def)
    obtain K where K: "woken sig (waiting s) K" by (cases sig; cases "waiting s = {}") auto
    let ?u = "wake K (s\<lparr>chan := q, senders := senders s - 1\<rparr>)"
    have "fl_holds F (buffer (chan ?u)) vs" using h n b by simp
    from released [OF this] obtain t where "release ?u = Returns t" by blast
    then show ?thesis by (blast intro: step_drop_sender [OF n d K])
  qed
  show "\<exists>t. mpmc_step s Drop_Receiver t"
    if n: "0 < receivers s" and e: "receivers s = 1 \<longrightarrow> entered s = {} \<and> waiting s = {}"
  proof -
    let ?q = "decr_consumer_cnt (chan s)"
    have d: "receiver_destroy (Some (chan s)) = Some ?q" by (simp add: receiver_destroy_def)
    let ?u = "s\<lparr>chan := ?q, receivers := receivers s - 1\<rparr>"
    have "fl_holds F (buffer (chan ?u)) vs" using h n by (simp add: decr_consumer_cnt_def)
    from released [OF this] obtain t where "release ?u = Returns t" by blast
    then show ?thesis using e by (blast intro: step_drop_receiver [OF n _ d])
  qed
qed

inductive_cases recv_step: "mpmc_step s (Recv i r) t"
inductive_cases try_recv_step: "mpmc_step s (Try_Recv i r) t"
inductive_cases send_step: "mpmc_step s (Send i v r) t"

text \<open>Steps that are enabled, with the state they lead to.\<close>

definition state_is :: "(nat \<rightharpoonup> 'a cell) \<Rightarrow> 'a list \<Rightarrow> nat \<Rightarrow> nat \<Rightarrow> nat set \<Rightarrow> nat set \<Rightarrow> 'a system \<Rightarrow> bool" where
  "state_is F vs a b E W s \<longleftrightarrow>
     mpmc_inv F s vs \<and> senders s = a \<and> receivers s = b \<and> entered s = E \<and> waiting s = W"

lemma state_is_holds: "state_is F vs a b E W s \<Longrightarrow> 0 < b \<Longrightarrow> fl_holds F (buffer (chan s)) vs"
  by (auto simp: state_is_def inv_parts)

lemma channel_state_is: "heap_wf h \<Longrightarrow> state_is (map_of (cells h)) [] 1 1 {} {} (channel h)"
  using channel_inv [of h] by (simp add: state_is_def channel_def)

lemma can_enter:
  assumes "state_is F vs a b E W s" and "0 < b" and "i \<notin> E \<union> W"
  shows "\<exists>t. mpmc_step s (Enter i) t \<and> state_is F vs a b (insert i E) W t"
proof (intro exI conjI)
  have o: "outside i s" using assms by (simp add: state_is_def outside_def)
  show "mpmc_step s (Enter i) (s\<lparr>entered := insert i (entered s)\<rparr>)"
    using assms o by (intro step_enter) (simp_all add: state_is_def)
  then show "state_is F vs a b (insert i E) W (s\<lparr>entered := insert i (entered s)\<rparr>)"
    using assms by (auto simp: state_is_def inv_parts)
qed

lemma can_wait:
  assumes "state_is F [] a b E W s" and "0 < a" and "i \<in> E"
  shows "\<exists>t. mpmc_step s (Wait i) t \<and> state_is F [] a b (E - {i}) (insert i W) t"
proof -
  have "0 < b" and "producer_count (chan s) \<noteq> 0" and i: "i \<in> entered s" and inv: "mpmc_inv F s []"
    using assms by (auto simp: state_is_def inv_parts count_zero)
  with pop_turn_Nil [OF state_is_holds [OF assms(1)]]
  have r: "recv_turn (Some (chan s)) = Returns (None, chan s)" by (simp add: recv_turn_def)
  from step_wait [OF i r] wait_inv [OF inv i r] assms(1) show ?thesis
    by (auto simp: state_is_def)
qed

lemma can_recv:
  assumes "state_is F (v # vs) a b E W s" and "i \<in> E"
  shows "\<exists>t. mpmc_step s (Recv i (Ok v)) t \<and> state_is F vs a b (E - {i}) W t"
proof -
  have "0 < b" and i: "i \<in> entered s" and inv: "mpmc_inv F s (v # vs)"
    using assms by (auto simp: state_is_def inv_parts)
  with pop_turn_Cons [OF state_is_holds [OF assms(1)]] obtain q where
    r: "recv_turn (Some (chan s)) = Returns (Some (Ok v), q)" by (auto simp: recv_turn_def)
  from step_recv [OF i r] recv_inv [OF inv i r] assms(1) show ?thesis
    by (auto simp: state_is_def)
qed

lemma can_send:
  assumes "state_is F vs a b E W s" and "0 < a" and "0 < b" and "i \<notin> E \<union> W"
    and "woken Notify_One W K"
  shows "\<exists>t. mpmc_step s (Send i v (Ok ())) t \<and> state_is F (vs @ [v]) a b (E \<union> K) (W - K) t"
proof -
  have inv: "mpmc_inv F s vs" and n: "0 < senders s" and o: "outside i s"
    and c: "consumder_count (chan s) \<noteq> 0" and K: "woken Notify_One (waiting s) K"
    using assms by (auto simp: state_is_def inv_parts count_zero outside_def simp del: woken.simps)
  from push_open [OF state_is_holds [OF assms(1,3)] c, of v] obtain q where
    r: "send v (Some (chan s)) = Returns (Ok (), q, Notify_One)" by (auto simp: send_def)
  from step_send [OF n o r K] send_inv [OF inv n o r K] assms(1) show ?thesis
    by (auto simp: state_is_def wake_def)
qed

lemma can_close:
  assumes "state_is F vs 1 b E W s" and "0 < b"
  shows "\<exists>t. mpmc_step s Drop_Sender t \<and> state_is F vs 0 b (E \<union> W) {} t"
proof -
  define q where "q = (chan s)\<lparr>producer_count := 0\<rparr>"
  define t where "t = wake (waiting s) (s\<lparr>chan := q, senders := senders s - 1\<rparr>)"
  have inv: "mpmc_inv F s vs" and n: "0 < senders s" using assms by (simp_all add: state_is_def)
  have d: "sender_destroy (Some (chan s)) = Some (q, Notify_All)"
    using assms(1) by (simp add: sender_destroy_def decr_producer_cnt_def state_is_def inv_parts q_def Let_def)
  have w: "woken Notify_All (waiting s) (waiting s)" by simp
  have r: "release t = Returns t" using assms by (simp add: release_def t_def state_is_def)
  from step_drop_sender [OF n d w r [unfolded t_def]]
    drop_sender_inv [OF inv n d w r [unfolded t_def]] assms(1) show ?thesis
    by (auto simp: state_is_def wake_def)
qed

lemma run_one: "mpmc_step s l t \<Longrightarrow> mpmc_run s [l] t"
  using run_snoc [OF run_Nil] by fastforce

lemma empty_heap_wf: "heap_wf empty_heap"
  by (simp add: heap_wf_def empty_heap_def)

text \<open>Runs of a channel of numbers: two threads go to wait and one value is sent; a value is sent
  and the only sender dropped; the last value is taken from a closed channel.\<close>

abbreviation number_channel :: "nat system" where "number_channel \<equiv> channel empty_heap"

lemma waiting_run:
  "\<exists>s. mpmc_run number_channel [Enter 0, Enter 1, Wait 0, Wait 1, Send 2 7 (Ok ())] s \<and>
     state_is (map_of (cells empty_heap)) [7] 1 1 {0} {1} s"
proof -
  from can_enter [OF channel_state_is [OF empty_heap_wf], of 0] obtain s1 where
    s1: "mpmc_step number_channel (Enter 0) s1" "state_is (map_of (cells empty_heap)) [] 1 1 {0} {} s1" by auto
  from can_enter [OF s1(2), of 1] obtain s2 where
    s2: "mpmc_step s1 (Enter 1) s2" "state_is (map_of (cells empty_heap)) [] 1 1 {1, 0} {} s2" by auto
  from can_wait [OF s2(2), of 0] obtain s3 where
    s3: "mpmc_step s2 (Wait 0) s3" "state_is (map_of (cells empty_heap)) [] 1 1 {1} {0} s3"
    by (auto simp: insert_Diff_if)
  from can_wait [OF s3(2), of 1] obtain s4 where
    s4: "mpmc_step s3 (Wait 1) s4" "state_is (map_of (cells empty_heap)) [] 1 1 {} {1, 0} s4"
    by auto
  from can_send [OF s4(2), of 2 "{0}" 7] obtain s5 where
    s5: "mpmc_step s4 (Send 2 7 (Ok ())) s5" "state_is (map_of (cells empty_heap)) [7] 1 1 {0} {1} s5"
    by (auto simp: insert_Diff_if)
  have "mpmc_run number_channel ([] @ [Enter 0] @ [Enter 1] @ [Wait 0] @ [Wait 1] @ [Send 2 7 (Ok ())]) s5"
    unfolding append_assoc [symmetric] append_Nil
    by (intro run_snoc [OF _ s5(1)] run_snoc [OF _ s4(1)] run_snoc [OF _ s3(1)] run_snoc [OF _ s2(1)]
        run_one s1(1))
  with s5(2) show ?thesis by auto
qed

lemma closing_run:
  "\<exists>s. mpmc_run number_channel [Enter 0, Wait 0, Drop_Sender] s \<and>
     state_is (map_of (cells empty_heap)) [] 0 1 {0} {} s"
proof -
  from can_enter [OF channel_state_is [OF empty_heap_wf], of 0] obtain s1 where
    s1: "mpmc_step number_channel (Enter 0) s1" "state_is (map_of (cells empty_heap)) [] 1 1 {0} {} s1" by auto
  from can_wait [OF s1(2), of 0] obtain s2 where
    s2: "mpmc_step s1 (Wait 0) s2" "state_is (map_of (cells empty_heap)) [] 1 1 {} {0} s2" by auto
  from can_close [OF s2(2)] obtain s3 where
    s3: "mpmc_step s2 Drop_Sender s3" "state_is (map_of (cells empty_heap)) [] 0 1 {0} {} s3" by auto
  have "mpmc_run number_channel ([] @ [Enter 0] @ [Wait 0] @ [Drop_Sender]) s3"
    unfolding append_assoc [symmetric] append_Nil
    by (intro run_snoc [OF _ s3(1)] run_snoc [OF _ s2(1)] run_one s1(1))
  with s3(2) show ?thesis by auto
qed

section \<open>Properties\<close>

text \<open>
  Property C20: the channel is a queue under every interleaving. In any run of any number of
  threads and handles, the values accepted so far are the values handed out so far followed by
  the buffer, in the order of sending: nothing is lost, invented, duplicated or reordered. No
  operation on a live handle throws or accesses bad memory, and once the last handle is gone all
  memory of the channel has been given back.
\<close>

theorem mpmc_fifo:
  assumes "heap_wf h" and "mpmc_run (channel h) ls s"
  shows "\<exists>vs. sent ls = received ls @ vs \<and>
    (if senders s = 0 \<and> receivers s = 0
     then map_of (cells (snd (buffer (chan s)))) = map_of (cells h)
     else fl_holds (map_of (cells h)) (buffer (chan s)) vs) \<and>
    (0 < senders s \<longrightarrow> (\<exists>r q sig. send v (Some (chan s)) = Returns (r, q, sig))) \<and>
    (0 < receivers s \<longrightarrow> (\<exists>r q. recv_turn (Some (chan s)) = Returns (r, q)) \<and>
      (\<exists>r q. try_recv (Some (chan s)) = Returns (r, q)))"
proof -
  from mpmc_run_inv [OF assms(2) channel_inv [OF assms(1)]] obtain vs where
    vs: "mpmc_inv (map_of (cells h)) s vs" "sent ls = received ls @ vs" by auto
  then have "buffer_ok (map_of (cells h)) s vs" by (simp add: mpmc_inv_def)
  with vs(2) operations_return [OF vs(1)] show ?thesis
    by (intro exI [of _ vs]) (simp add: buffer_ok_def)
qed

theorem mpmc_fifo_witness:
  "\<exists>s vs. mpmc_run number_channel [Enter 0, Enter 1, Wait 0, Wait 1, Send 2 7 (Ok ())] s \<and>
    sent [Enter 0, Enter 1, Wait 0, Wait 1, Send 2 7 (Ok ())] =
      received [Enter 0, Enter 1, Wait 0, Wait 1, Send 2 (7 :: nat) (Ok ())] @ vs \<and>
    fl_holds (map_of (cells empty_heap)) (buffer (chan s)) vs \<and>
    (\<exists>r q sig. send 8 (Some (chan s)) = Returns (r, q, sig)) \<and>
    (\<exists>r q. recv_turn (Some (chan s)) = Returns (r, q))"
proof -
  from waiting_run obtain s where
    s: "mpmc_run number_channel [Enter 0, Enter 1, Wait 0, Wait 1, Send 2 7 (Ok ())] s"
      "state_is (map_of (cells empty_heap)) [7] 1 1 {0} {1} s" by blast
  with mpmc_fifo [OF empty_heap_wf s(1), of 8] show ?thesis by (auto simp: state_is_def)
qed

text \<open>
  Property C21: no wake-up is lost. While a thread waits for a value the channel is still open, and
  every value in the buffer has a thread on its way to it; so when no thread is running, a thread
  waits only because the buffer is empty. The code signals one thread for one value, and threads
  that did not wait may take a value first.
\<close>

theorem mpmc_no_lost_wakeup:
  assumes "heap_wf h" and "mpmc_run (channel h) ls s" and "waiting s \<noteq> {}"
  shows "0 < senders s \<and> length (sent ls) \<le> length (received ls) + card (entered s)"
proof -
  from mpmc_run_inv [OF assms(2) channel_inv [OF assms(1)]] obtain vs where
    "mpmc_inv (map_of (cells h)) s vs" "sent ls = received ls @ vs" by auto
  with assms(3) show ?thesis by (auto simp: mpmc_inv_def wakeups_ok_def)
qed

theorem mpmc_no_lost_wakeup_witness:
  "\<exists>s. mpmc_run number_channel [Enter 0, Enter 1, Wait 0, Wait 1, Send 2 7 (Ok ())] s \<and> waiting s = {1} \<and>
    0 < senders s \<and>
    length (sent [Enter 0, Enter 1, Wait 0, Wait 1, Send 2 (7 :: nat) (Ok ())]) \<le>
      length (received [Enter 0, Enter 1, Wait 0, Wait 1, Send 2 (7 :: nat) (Ok ())]) + card (entered s)"
proof -
  from waiting_run obtain s where
    s: "mpmc_run number_channel [Enter 0, Enter 1, Wait 0, Wait 1, Send 2 7 (Ok ())] s" "waiting s = {1}"
    by (auto simp: state_is_def)
  with mpmc_no_lost_wakeup [OF empty_heap_wf s(1)] show ?thesis by blast
qed

text \<open>
  Property C22: closing. A receiver is told that the channel is closed only when no sender is left
  and every value sent has been received; a sender only when no receiver is left. Once the last
  sender is gone nobody waits any more, and every pending \<open>recv\<close> returns at its next turn. Handles
  can always be dropped.
\<close>

theorem mpmc_closing:
  assumes "heap_wf h" and "mpmc_run (channel h) ls s"
  shows "(mpmc_step s (Recv i (Err Closed)) t \<longrightarrow> senders s = 0 \<and> sent ls = received ls) \<and>
    (mpmc_step s (Try_Recv i (Err Closed)) t \<longrightarrow> senders s = 0 \<and> sent ls = received ls) \<and>
    (mpmc_step s (Send i v (Err Closed)) t \<longrightarrow> receivers s = 0) \<and>
    (senders s = 0 \<longrightarrow> waiting s = {} \<and>
       (i \<in> entered s \<longrightarrow> (\<exists>r u. mpmc_step s (Recv i r) u))) \<and>
    (0 < senders s \<longrightarrow> (\<exists>u. mpmc_step s Drop_Sender u)) \<and>
    (0 < receivers s \<and> (receivers s = 1 \<longrightarrow> entered s = {} \<and> waiting s = {}) \<longrightarrow>
       (\<exists>u. mpmc_step s Drop_Receiver u))"
proof -
  from mpmc_run_inv [OF assms(2) channel_inv [OF assms(1)]] obtain vs where
    vs: "mpmc_inv (map_of (cells h)) s vs" "sent ls = received ls @ vs" by auto
  have "senders s = 0 \<and> sent ls = received ls" if "mpmc_step s (Recv i (Err Closed)) t"
    using that recv_inv [OF vs(1)] vs(2) by (elim recv_step) fastforce
  moreover have "senders s = 0 \<and> sent ls = received ls" if "mpmc_step s (Try_Recv i (Err Closed)) t"
    using that try_recv_inv [OF vs(1)] vs(2) by (elim try_recv_step) fastforce
  moreover have "receivers s = 0" if "mpmc_step s (Send i v (Err Closed)) t"
    using that send_closed [OF vs(1)] by (elim send_step) blast
  moreover have "waiting s = {}" if "senders s = 0"
    using vs(1) that by (auto simp: mpmc_inv_def wakeups_ok_def)
  moreover have "\<exists>r u. mpmc_step s (Recv i r) u" if "senders s = 0" "i \<in> entered s"
    using recv_turn_closed [OF vs(1) that] that(2) by (blast intro: step_recv)
  ultimately show ?thesis using drops_return [OF vs(1)] by blast
qed

theorem mpmc_closing_witness:
  "\<exists>s t. mpmc_run number_channel [Enter 0, Wait 0, Drop_Sender] s \<and> waiting s = {} \<and> senders s = 0 \<and>
    (\<exists>r u. mpmc_step s (Recv 0 r) u) \<and>
    mpmc_step s (Recv 0 (Err Closed)) t \<and>
    sent [Enter 0, Wait 0, Drop_Sender :: nat action] = received [Enter 0, Wait 0, Drop_Sender]"
proof -
  from closing_run obtain s where
    s: "mpmc_run number_channel [Enter 0, Wait 0, Drop_Sender] s"
      "state_is (map_of (cells empty_heap)) [] 0 1 {0} {} s" by blast
  have "pop_turn (chan s) = Returns (Some (Err Closed), chan s)"
    using pop_turn_Nil [OF state_is_holds [OF s(2)]] s(2) by (simp add: state_is_def inv_parts)
  then have t: "mpmc_step s (Recv 0 (Err Closed)) (s\<lparr>chan := chan s, entered := entered s - {0}\<rparr>)"
    using s(2) by (intro step_recv) (simp_all add: recv_turn_def state_is_def)
  with mpmc_closing [OF empty_heap_wf s(1), of 0 _ 0] s(1,2) show ?thesis
    by (auto simp: state_is_def)
qed

end
