(* ===== verification/Future_State.thy ===== *)
theory Future_State
  imports Prelude
begin

text \<open>
  \<open>future/detail/_shared_state.hpp\<close>: the state a \<open>Future\<close> shares with its \<open>Promise\<close>. Each
  operation runs under the state's mutex, so it is one step; the call of the callback that a
  step makes is part of its result, a \<open>task\<close> for the state's executor. The type of the callbacks
  is a parameter: a client's callback here, the closures of \<open>map\<close> and \<open>flatmap\<close> in the theory of
  futures.

  A move leaves an object behind: \<open>residue v\<close> is what the type's move operations leave of \<open>v\<close>. A
  \<open>unique_function\<close> that was moved from is empty, and calling it throws
  \<open>std::bad_function_call\<close>. The optional that holds either stays engaged.
\<close>

section \<open>The shared state\<close>

text \<open>\<open>Own_Thread\<close> is \<open>same_thread\<close>, which runs a task inside \<open>execute\<close>; any other executor
  keeps it for later.\<close>

datatype executor = Own_Thread | Queued nat

record ('v, 'c) state =
  slot :: "'v option"
  callback :: "'c option option"
  executor :: executor

datatype ('v, 'c) task = Task executor "'c option" 'v

definition state_init :: "('v, 'c) state" where
  "state_init = \<lparr>slot = None, callback = None, executor = Own_Thread\<rparr>"

definition set_executor :: "executor \<Rightarrow> ('v, 'c) state \<Rightarrow> ('v, 'c) state" where
  "set_executor e s = s\<lparr>executor := e\<rparr>"

text \<open>\<open>_call_by_executor\<close>: both optionals are engaged where it is called; \<open>value()\<close> throws if not.\<close>

definition call_by_executor ::
  "('v \<Rightarrow> 'v) \<Rightarrow> ('v, 'c) state \<Rightarrow> (('v, 'c) state \<times> ('v, 'c) task) outcome" where
  "call_by_executor residue s =
     (case (slot s, callback s) of
        (Some v, Some f) \<Rightarrow>
          Returns (s\<lparr>slot := Some (residue v), callback := Some None\<rparr>, Task (executor s) f v)
      | _ \<Rightarrow> Throws Bad_optional_access)"

text \<open>
  \<open>set_value\<close> up to the call it makes, if any; \<open>after_call\<close> is the assignment that follows the
  call. The flag tells whether a thread blocked in \<open>get_value\<close> is notified.
\<close>

definition set_value ::
  "('v \<Rightarrow> 'v) \<Rightarrow> 'v \<Rightarrow> ('v, 'c) state \<Rightarrow>
     (('v, 'c) state \<times> ('v, 'c) task option \<times> bool) outcome" where
  "set_value residue v s =
     (let s = s\<lparr>slot := Some v\<rparr> in
      if callback s \<noteq> None
      then bind_outcome (call_by_executor residue s) (\<lambda>(s, t). Returns (s, Some t, False))
      else Returns (s, None, True))"

definition after_call :: "('v, 'c) state \<Rightarrow> ('v, 'c) state" where
  "after_call s = s\<lparr>callback := None\<rparr>"

definition set_callback ::
  "('v \<Rightarrow> 'v) \<Rightarrow> 'c option \<Rightarrow> ('v, 'c) state \<Rightarrow> (('v, 'c) state \<times> ('v, 'c) task option) outcome"
where
  "set_callback residue f s =
     (let s = s\<lparr>callback := Some f\<rparr> in
      if slot s \<noteq> None
      then bind_outcome (call_by_executor residue s) (\<lambda>(s, t). Returns (s, Some t))
      else Returns (s, None))"

definition try_get :: "('v \<Rightarrow> 'v) \<Rightarrow> ('v, 'c) state \<Rightarrow> 'v option \<times> ('v, 'c) state" where
  "try_get residue s =
     (case slot s of
        Some v \<Rightarrow> (Some v, s\<lparr>slot := Some (residue v)\<rparr>)
      | None \<Rightarrow> (None, s))"

text \<open>A turn of the loop of \<open>get_value\<close>: \<open>None\<close> when the thread goes to wait.\<close>

definition get_value_turn :: "('v \<Rightarrow> 'v) \<Rightarrow> ('v, 'c) state \<Rightarrow> 'v option \<times> ('v, 'c) state" where
  "get_value_turn residue s = try_get residue s"

text \<open>What an executor does with a task. A call of an empty function throws.\<close>

fun call_task :: "('c \<Rightarrow> 'v \<Rightarrow> 's \<Rightarrow> 's outcome) \<Rightarrow> ('v, 'c) task \<Rightarrow> 's \<Rightarrow> 's outcome" where
  "call_task call (Task e None v) s = Throws Bad_function_call"
| "call_task call (Task e (Some f) v) s = call f v s"

section \<open>Sequences of operations\<close>

text \<open>
  The operations in any order, as any number of threads make them, on a state whose executor is
  \<open>same_thread\<close>. A client's callback is a name, and the log lists the calls made.
\<close>

datatype ('v, 'c) state_op = Set_Value 'v | On_Complete 'c | Try_Get

fun state_step ::
  "('v \<Rightarrow> 'v) \<Rightarrow> ('v, 'c) state_op \<Rightarrow> ('v, 'c) state \<times> ('c \<times> 'v) list \<Rightarrow>
     (('v, 'c) state \<times> ('c \<times> 'v) list) outcome" where
  "state_step residue (Set_Value v) (s, ls) =
     bind_outcome (set_value residue v s) (\<lambda>(s, t, _). case t of
         None \<Rightarrow> Returns (s, ls)
       | Some t \<Rightarrow> bind_outcome (call_task (\<lambda>c v ls. Returns (ls @ [(c, v)])) t ls) (\<lambda>ls.
           Returns (after_call s, ls)))"
| "state_step residue (On_Complete c) (s, ls) =
     bind_outcome (set_callback residue (Some c) s) (\<lambda>(s, t). case t of
         None \<Rightarrow> Returns (s, ls)
       | Some t \<Rightarrow> bind_outcome (call_task (\<lambda>c v ls. Returns (ls @ [(c, v)])) t ls) (\<lambda>ls.
           Returns (s, ls)))"
| "state_step residue Try_Get (s, ls) = Returns (snd (try_get residue s), ls)"

fun state_run ::
  "('v \<Rightarrow> 'v) \<Rightarrow> ('v, 'c) state_op list \<Rightarrow> ('v, 'c) state \<times> ('c \<times> 'v) list \<Rightarrow>
     (('v, 'c) state \<times> ('c \<times> 'v) list) outcome" where
  "state_run residue [] s = Returns s"
| "state_run residue (a # as) s = bind_outcome (state_step residue a s) (state_run residue as)"

lemma state_run_append:
  "state_run residue (as @ bs) s = bind_outcome (state_run residue as s) (state_run residue bs)"
proof (induction as arbitrary: s)
  case Nil
  then show ?case by simp
next
  case (Cons a as)
  then show ?case by (cases "state_step residue a s") simp_all
qed

text \<open>The operations as equations on the fields.\<close>

lemma set_value_simps:
  "callback s = None \<Longrightarrow> set_value residue v s = Returns (s\<lparr>slot := Some v\<rparr>, None, True)"
  "callback s = Some f \<Longrightarrow> set_value residue v s =
     Returns (s\<lparr>slot := Some (residue v), callback := Some None\<rparr>, Some (Task (executor s) f v), False)"
  by (simp_all add: set_value_def call_by_executor_def)

lemma set_callback_simps:
  "slot s = None \<Longrightarrow> set_callback residue f s = Returns (s\<lparr>callback := Some f\<rparr>, None)"
  "slot s = Some v \<Longrightarrow> set_callback residue f s =
     Returns (s\<lparr>slot := Some (residue v), callback := Some None\<rparr>, Some (Task (executor s) f v))"
  by (simp_all add: set_callback_def call_by_executor_def)

text \<open>Gets before the value is set change nothing.\<close>

lemma gets_while_empty:
  "slot s = None \<Longrightarrow> state_run residue (replicate n Try_Get) (s, ls) = Returns (s, ls)"
  by (induction n) (simp_all add: try_get_def)

lemma gets_keep:
  "\<exists>s'. state_run residue (replicate n Try_Get) (s, ls) = Returns (s', ls) \<and>
     callback s' = callback s \<and> executor s' = executor s \<and> (slot s' = None) = (slot s = None)"
proof (induction n arbitrary: s)
  case 0
  then show ?case by simp
next
  case (Suc n)
  have "callback (snd (try_get residue s)) = callback s \<and> executor (snd (try_get residue s)) = executor s
      \<and> (slot (snd (try_get residue s)) = None) = (slot s = None)"
    by (auto simp: try_get_def split: option.split)
  with Suc [of "snd (try_get residue s)"] show ?case by auto
qed

section \<open>Properties\<close>

text \<open>
  The callback runs exactly once. If the promise is set once and one callback is
  registered, in either order and with any number of \<open>try_get\<close> before and between them, the
  callback is called exactly once: with the value set, unless it is registered after the value
  was set and taken by a \<open>try_get\<close>; then it gets what the move left of it.
\<close>

lemma callback_exactly_once:
  "(\<exists>s. state_run residue (replicate n Try_Get @ [On_Complete c] @ replicate m Try_Get @ [Set_Value v])
       (state_init, []) = Returns (s, [(c, v)])) \<and>
   (\<exists>s. state_run residue (replicate n Try_Get @ [Set_Value v, On_Complete c]) (state_init, []) =
      Returns (s, [(c, v)])) \<and>
   (\<exists>s. state_run residue (replicate n Try_Get @ [Set_Value v, Try_Get, On_Complete c])
      (state_init, []) = Returns (s, [(c, residue v)]))"
proof -
  have gets: "state_run residue (replicate n Try_Get) (state_init, []) = Returns (state_init, [])"
    by (rule gets_while_empty) (simp add: state_init_def)
  let ?s = "\<lparr>slot = None, callback = Some (Some c), executor = Own_Thread\<rparr>"
  have "state_run residue [On_Complete c] (state_init, []) = Returns (?s, [])"
    by (simp add: set_callback_simps state_init_def)
  moreover have "state_run residue (replicate m Try_Get) (?s, []) = Returns (?s, [])"
    by (rule gets_while_empty) simp
  ultimately have "\<exists>s. state_run residue (replicate n Try_Get @ [On_Complete c] @
      replicate m Try_Get @ [Set_Value v]) (state_init, []) = Returns (s, [(c, v)])"
    by (simp only: state_run_append gets bind_outcome.simps)
      (simp add: set_value_simps after_call_def)
  moreover have "\<exists>s. state_run residue (replicate n Try_Get @ [Set_Value v, On_Complete c])
      (state_init, []) = Returns (s, [(c, v)])"
    by (simp only: state_run_append gets bind_outcome.simps)
      (simp add: set_value_simps set_callback_simps state_init_def)
  moreover have "\<exists>s. state_run residue (replicate n Try_Get @ [Set_Value v, Try_Get, On_Complete c])
      (state_init, []) = Returns (s, [(c, residue v)])"
    by (simp only: state_run_append gets bind_outcome.simps)
      (simp add: set_value_simps set_callback_simps state_init_def try_get_def)
  ultimately show ?thesis by blast
qed

section \<open>\<open>fastest\<close>\<close>

text \<open>
  \<open>futures::fastest\<close> registers with every future of the range a callback that sets a copy of one
  promise. \<open>us\<close> are the values of the futures that are complete already, in the order of the
  range: their callbacks run inside the loop. The client then registers \<open>c\<close> with the result, and
  the others complete with \<open>ws\<close>.
\<close>

definition fastest ::
  "('v \<Rightarrow> 'v) \<Rightarrow> 'v list \<Rightarrow> 'c \<Rightarrow> 'v list \<Rightarrow> (('v, 'c) state \<times> ('c \<times> 'v) list) outcome" where
  "fastest residue us c ws =
     state_run residue (map Set_Value us @ [On_Complete c] @ map Set_Value ws) (state_init, [])"

lemma sets_without_callback:
  "callback s = None \<Longrightarrow> us \<noteq> [] \<Longrightarrow>
     state_run residue (map Set_Value us) (s, ls) = Returns (s\<lparr>slot := Some (last us)\<rparr>, ls)"
proof (induction us arbitrary: s)
  case Nil
  then show ?case by simp
next
  case (Cons u us)
  then show ?case by (cases "us = []") (simp_all add: set_value_simps)
qed

text \<open>
  \<open>fastest\<close> delivers the first value only if no future was complete when it was
  called. If some were, the client gets the value of the last of them in the range, not the
  first; and the next future to complete calls the empty function that the delivery left behind,
  so \<open>std::bad_function_call\<close> is thrown out of that future's promise.
\<close>

lemma fastest_result:
  fixes c :: 'c and residue :: "'v \<Rightarrow> 'v"
  shows "(\<exists>s. fastest residue [] c (w # ws) = Returns (s, [(c, w)])) \<and>
   (\<exists>s. fastest residue (us @ [u]) c [] = Returns (s, [(c, u)])) \<and>
   fastest residue (us @ [u]) c (w # ws) = Throws Bad_function_call"
proof -
  let ?t = "\<lparr>slot = Some (residue w), callback = None, executor = Own_Thread\<rparr> :: ('v, 'c) state"
  have "\<exists>s. state_run residue (map Set_Value ws) (?t, [(c, w)]) = Returns (s, [(c, w)])"
    using sets_without_callback [of ?t ws residue "[(c, w)]"] by (cases "ws = []") auto
  then have "\<exists>s. fastest residue [] c (w # ws) = Returns (s, [(c, w)])"
    by (simp add: fastest_def set_callback_simps state_init_def set_value_simps after_call_def)
  moreover have us: "fastest residue (us @ [u]) c vs = state_run residue (On_Complete c # map Set_Value vs)
      (state_init\<lparr>slot := Some u\<rparr>, [])" for vs
    unfolding fastest_def state_run_append
    by (subst sets_without_callback) (simp_all add: state_init_def set_callback_simps)
  have "\<exists>s. fastest residue (us @ [u]) c [] = Returns (s, [(c, u)])"
    "fastest residue (us @ [u]) c (w # ws) = Throws Bad_function_call"
    by (simp_all add: us state_init_def set_callback_simps set_value_simps)
  ultimately show ?thesis by blast
qed

section \<open>\<open>execute\<close>\<close>

text \<open>
  \<open>futures::execute\<close> hands an executor a job that calls the task and sets the promise. \<open>same_thread\<close>
  runs the job before \<open>execute\<close> returns; any other executor keeps it, and \<open>run_job\<close> is what its
  thread does. The task is given by how its call ends.
\<close>

definition run_job :: "('v \<Rightarrow> 'v) \<Rightarrow> 'v outcome \<Rightarrow> ('v, 'c) state \<Rightarrow> (('v, 'c) state \<times> ('v, 'c) task option) outcome"
where
  "run_job residue task s =
     bind_outcome task (\<lambda>v. bind_outcome (set_value residue v s) (\<lambda>(s, t, _). Returns (s, t)))"

definition execute_on ::
  "('v \<Rightarrow> 'v) \<Rightarrow> executor \<Rightarrow> 'v outcome \<Rightarrow> (('v, 'c) state \<times> (nat \<times> 'v outcome) option) outcome" where
  "execute_on residue e task =
     (case e of
        Own_Thread \<Rightarrow> bind_outcome (run_job residue task state_init) (\<lambda>(s, _). Returns (s, None))
      | Queued n \<Rightarrow> Returns (state_init, Some (n, task)))"

text \<open>
  A task that returns completes the future, at once or when the executor's thread gets to it, and
  then runs the callback registered meanwhile. One that throws reaches the caller of \<open>execute\<close>
  on \<open>same_thread\<close> and the thread of the executor otherwise; the future never completes.
\<close>

lemma execute_completes:
  "execute_on residue Own_Thread (Returns v) = Returns (state_init\<lparr>slot := Some v\<rparr>, None)"
  "execute_on residue Own_Thread (Throws x) = Throws x"
  "execute_on residue (Queued n) task = Returns (state_init, Some (n, task))"
  "run_job residue (Throws x) s = Throws x"
  "callback s = Some f \<Longrightarrow> run_job residue (Returns v) s =
     Returns (s\<lparr>slot := Some (residue v), callback := Some None\<rparr>, Some (Task (executor s) f v))"
  by (simp_all add: execute_on_def run_job_def state_init_def set_value_simps)

end
