(* ===== verification/Future_Collect.thy ===== *)
theory Future_Collect
  imports Future_State
begin

text \<open>
  \<open>future/detail/_promise_container.hpp\<close> and \<open>futures::collect\<close>: a container that is complete
  when it holds the required number of values, in the order they arrive, and the future of them.
\<close>

section \<open>The shared container\<close>

record ('v, 'c) container =
  contents :: "'v list"
  required_amount :: "32 word"
  on_full :: "'c option"

definition container_init :: "32 word \<Rightarrow> ('v, 'c) container" where
  "container_init n = \<lparr>contents = [], required_amount = n, on_full = None\<rparr>"

text \<open>
  The operations return the call they make under the lock, if any: the callback and a copy of the
  values. The flag of \<open>add_value\<close> tells whether a thread in \<open>get_value\<close> is notified.
\<close>

definition add_value ::
  "'v \<Rightarrow> ('v, 'c) container \<Rightarrow> ('v, 'c) container \<times> ('c \<times> 'v list) option \<times> bool" where
  "add_value v k =
     (if unat (required_amount k) \<le> length (contents k) + 1 then
        (let k = k\<lparr>contents := contents k @ [v]\<rparr> in
         case on_full k of
           Some c \<Rightarrow> (k\<lparr>on_full := None\<rparr>, Some (c, contents k), True)
         | None \<Rightarrow> (k, None, True))
      else (k\<lparr>contents := contents k @ [v]\<rparr>, None, False))"

text \<open>A turn of the loop of \<open>get_value\<close>: \<open>None\<close> when the thread goes to wait. A moved-from vector
  is empty.\<close>

definition container_get_turn :: "('v, 'c) container \<Rightarrow> 'v list option \<times> ('v, 'c) container" where
  "container_get_turn k =
     (if length (contents k) < unat (required_amount k) then (None, k)
      else (Some (contents k), k\<lparr>contents := []\<rparr>))"

definition container_set_callback ::
  "'c \<Rightarrow> ('v, 'c) container \<Rightarrow> ('v, 'c) container \<times> ('c \<times> 'v list) option" where
  "container_set_callback c k =
     (if unat (required_amount k) \<le> length (contents k) then (k, Some (c, contents k))
      else (k\<lparr>on_full := Some c\<rparr>, None))"

section \<open>\<open>collect\<close>\<close>

text \<open>
  The values that arrive one after another, with the calls they make: \<open>add_all\<close>.
\<close>

fun add_all ::
  "'v list \<Rightarrow> ('v, 'c) container \<times> ('c \<times> 'v list) list \<Rightarrow>
     ('v, 'c) container \<times> ('c \<times> 'v list) list" where
  "add_all [] (k, ls) = (k, ls)"
| "add_all (v # vs) (k, ls) =
     (let (k, call, _) = add_value v k
      in add_all vs (k, ls @ (case call of None \<Rightarrow> [] | Some t \<Rightarrow> [t])))"

text \<open>
  \<open>collect(it, end, n_expected)\<close>: a contract for the result, a container for \<open>n_expected\<close> values
  (an \<open>int\<close> that becomes \<open>unsigned\<close>), a callback on each future that adds its value, and a
  callback on the container that sets the result. \<open>us\<close> are the values of the futures that are
  complete already, in the order of the range; \<open>ws\<close> complete later, in this order. The result
  is the list of the values the result's promise is set to.
\<close>

definition collect :: "'v list \<Rightarrow> int \<Rightarrow> 'v list \<Rightarrow> 'v list list" where
  "collect us n_expected ws =
     (let (k, ls) = add_all us (container_init (word_of_int n_expected :: 32 word), []);
          (k, call) = container_set_callback () k;
          ls = ls @ (case call of None \<Rightarrow> [] | Some t \<Rightarrow> [t]);
          (k, ls) = add_all ws (k, ls)
      in map snd ls)"

lemma add_all_no_callback:
  "on_full k = None \<Longrightarrow> add_all us (k, ls) = (k\<lparr>contents := contents k @ us\<rparr>, ls)"
  by (induction us arbitrary: k) (auto simp: add_value_def Let_def)

lemma add_all_callback:
  assumes "on_full k = Some c" and "length (contents k) < unat (required_amount k)"
  shows "snd (add_all ws (k, ls)) =
    (if length (contents k) + length ws < unat (required_amount k) then ls
     else ls @ [(c, take (unat (required_amount k)) (contents k @ ws))])"
  using assms
proof (induction ws arbitrary: k)
  case Nil
  then show ?case by simp
next
  case (Cons w ws)
  show ?case
  proof (cases "unat (required_amount k) = length (contents k) + 1")
    case True
    with Cons.prems show ?thesis
      by (simp add: add_value_def Let_def add_all_no_callback)
  next
    case False
    with Cons.prems(2) have "\<not> unat (required_amount k) \<le> length (contents k) + 1" by simp
    with Cons.IH [of "k\<lparr>contents := contents k @ [w]\<rparr>"] Cons.prems show ?thesis
      by (simp add: add_value_def)
  qed
qed

section \<open>Properties\<close>

text \<open>
  Property C38: \<open>collect\<close> completes exactly once, as soon as \<open>n_expected\<close> values are there, with
  exactly the first \<open>n_expected\<close> in the order they arrived, or, when at least that many futures
  were complete when it was called, with the values of all of those. With fewer futures than
  that it never completes. A negative \<open>n_expected\<close> counts as \<open>2 ^ 32 + n_expected\<close>.
\<close>

theorem collect_result:
  "collect us n_expected ws =
     (let n = nat (n_expected mod 2 ^ 32)
      in if n \<le> length us then [us]
         else if n \<le> length us + length ws then [take n (us @ ws)]
         else [])"
proof -
  define n where "n = nat (n_expected mod 2 ^ 32)"
  have n: "unat (word_of_int n_expected :: 32 word) = n"
    by (simp add: n_def unat_eq_nat_uint uint_word_of_int)
  let ?k = "container_init (word_of_int n_expected) :: ('a, unit) container"
  have us: "add_all us (?k, []) = (?k\<lparr>contents := us\<rparr>, [])"
    using add_all_no_callback [of ?k us "[]"] by (simp add: container_init_def)
  show ?thesis
  proof (cases "n \<le> length us")
    case True
    have "add_all ws (?k\<lparr>contents := us\<rparr>, [((), us)]) = (?k\<lparr>contents := us @ ws\<rparr>, [((), us)])"
      by (subst add_all_no_callback) (simp_all add: container_init_def)
    with True n us show ?thesis
      unfolding Let_def n_def [symmetric]
      by (simp add: collect_def container_set_callback_def container_init_def)
  next
    case False
    let ?k' = "?k\<lparr>contents := us, on_full := Some ()\<rparr>"
    have "snd (add_all ws (?k', [])) =
        (if length us + length ws < n then [] else [((), take n (us @ ws))])"
      using add_all_callback [of ?k' "()" ws "[]"] False by (simp add: container_init_def n)
    with False n us show ?thesis
      unfolding Let_def n_def [symmetric]
      by (simp add: collect_def container_set_callback_def container_init_def split_beta)
  qed
qed

end
