(* ===== verification/Futures.thy ===== *)
theory Futures
  imports Future_State
begin

text \<open>
  \<open>future/future.hpp\<close>: contracts, \<open>map\<close>, \<open>flatmap\<close> and \<open>from_val\<close> over a store of shared states.
  Setting a promise runs the callback of its future on the spot, while the state's mutex is held,
  and the callback may set further promises and build further futures: \<open>exec\<close> is this mutual
  recursion, with \<open>None\<close> for a recursion that does not end. The specification is a small language
  of asynchronous programs; the theorems say that the futures built for a program do what the
  program says.
\<close>

section \<open>Programs\<close>

text \<open>
  A client's expression over futures. \<open>External l\<close> is a contract whose promise is given to the
  environment, \<open>l\<close> says for what: the event loop sets it. A function given to \<open>map\<close> yields a value;
  one given to \<open>flatmap\<close> yields a future, that is a program, and may call itself through futures,
  so it has a name and \<open>body\<close> is the table of the named functions. Both may throw.
\<close>

datatype ('v, 'k, 'l) prog =
    From_Val 'v
  | External 'l
  | Map_F "('v, 'k, 'l) prog" "'v \<Rightarrow> 'v outcome"
  | Flatmap_F "('v, 'k, 'l) prog" 'k

text \<open>
  The program after everything that can be done at once, and after the environment has delivered
  \<open>v\<close>. A program that is not a value waits for exactly one promise.
\<close>

fun is_val :: "('v, 'k, 'l) prog \<Rightarrow> bool" where
  "is_val (From_Val v) = True"
| "is_val _ = False"

fun failure :: "'a outcome \<Rightarrow> bool" where
  "failure (Returns a) = False"
| "failure _ = True"

inductive settles :: "('k \<Rightarrow> 'v \<Rightarrow> ('v, 'k, 'l) prog outcome) \<Rightarrow> ('v, 'k, 'l) prog \<Rightarrow>
    ('v, 'k, 'l) prog outcome \<Rightarrow> bool" for body where
  settles_val: "settles body (From_Val v) (Returns (From_Val v))"
| settles_external: "settles body (External l) (Returns (External l))"
| settles_map: "settles body q (Returns (From_Val y)) \<Longrightarrow>
    settles body (Map_F q f) (bind_outcome (f y) (\<lambda>x. Returns (From_Val x)))"
| settles_map_wait: "settles body q (Returns r) \<Longrightarrow> \<not> is_val r \<Longrightarrow>
    settles body (Map_F q f) (Returns (Map_F r f))"
| settles_map_fail: "settles body q r \<Longrightarrow> failure r \<Longrightarrow> settles body (Map_F q f) r"
| settles_flatmap: "settles body q (Returns (From_Val y)) \<Longrightarrow> body k y = Returns p \<Longrightarrow>
    settles body p r \<Longrightarrow> settles body (Flatmap_F q k) r"
| settles_flatmap_throw: "settles body q (Returns (From_Val y)) \<Longrightarrow> body k y = r \<Longrightarrow> failure r \<Longrightarrow>
    settles body (Flatmap_F q k) r"
| settles_flatmap_wait: "settles body q (Returns r) \<Longrightarrow> \<not> is_val r \<Longrightarrow>
    settles body (Flatmap_F q k) (Returns (Flatmap_F r k))"
| settles_flatmap_fail: "settles body q r \<Longrightarrow> failure r \<Longrightarrow> settles body (Flatmap_F q k) r"

inductive resumes :: "('k \<Rightarrow> 'v \<Rightarrow> ('v, 'k, 'l) prog outcome) \<Rightarrow> 'v \<Rightarrow> ('v, 'k, 'l) prog \<Rightarrow>
    ('v, 'k, 'l) prog outcome \<Rightarrow> bool" for body and v where
  resumes_external: "resumes body v (External l) (Returns (From_Val v))"
| resumes_map: "resumes body v q (Returns (From_Val y)) \<Longrightarrow>
    resumes body v (Map_F q f) (bind_outcome (f y) (\<lambda>x. Returns (From_Val x)))"
| resumes_map_wait: "resumes body v q (Returns r) \<Longrightarrow> \<not> is_val r \<Longrightarrow>
    resumes body v (Map_F q f) (Returns (Map_F r f))"
| resumes_map_fail: "resumes body v q r \<Longrightarrow> failure r \<Longrightarrow> resumes body v (Map_F q f) r"
| resumes_flatmap: "resumes body v q (Returns (From_Val y)) \<Longrightarrow> body k y = Returns p \<Longrightarrow>
    settles body p r \<Longrightarrow> resumes body v (Flatmap_F q k) r"
| resumes_flatmap_throw: "resumes body v q (Returns (From_Val y)) \<Longrightarrow> body k y = r \<Longrightarrow> failure r \<Longrightarrow>
    resumes body v (Flatmap_F q k) r"
| resumes_flatmap_wait: "resumes body v q (Returns r) \<Longrightarrow> \<not> is_val r \<Longrightarrow>
    resumes body v (Flatmap_F q k) (Returns (Flatmap_F r k))"
| resumes_flatmap_fail: "resumes body v q r \<Longrightarrow> failure r \<Longrightarrow> resumes body v (Flatmap_F q k) r"

fun waits_on :: "('v, 'k, 'l) prog \<Rightarrow> 'l option" where
  "waits_on (From_Val v) = None"
| "waits_on (External l) = Some l"
| "waits_on (Map_F q f) = waits_on q"
| "waits_on (Flatmap_F q k) = waits_on q"

section \<open>The store\<close>

text \<open>The closures the library registers, and a client's callback.\<close>

datatype ('v, 'k, 'u) closure =
    Set_Mapped "'v \<Rightarrow> 'v outcome" nat
  | Continue 'k nat
  | Forward nat
  | User 'u

text \<open>
  \<open>externals\<close> are the promises the environment has, \<open>calls\<close> the calls of clients' callbacks,
  \<open>posted\<close> the tasks left to other executors. States are never removed: a state nothing refers to
  any more is the freed one of the code.
\<close>

record ('v, 'k, 'l, 'u) store =
  states :: "('v, ('v, 'k, 'u) closure) state list"
  locks :: "nat set"
  externals :: "('l \<times> nat) list"
  calls :: "('u \<times> 'v) list"
  posted :: "('v, ('v, 'k, 'u) closure) task list"

definition access :: "nat \<Rightarrow> ('v, 'k, 'l, 'u) store \<Rightarrow> ('v, ('v, 'k, 'u) closure) state outcome" where
  "access i st = (if i < length (states st) \<and> i \<notin> locks st then Returns (states st ! i) else Undefined)"

definition put :: "nat \<Rightarrow> ('v, ('v, 'k, 'u) closure) state \<Rightarrow> ('v, 'k, 'l, 'u) store \<Rightarrow>
    ('v, 'k, 'l, 'u) store" where
  "put i s st = st\<lparr>states := (states st)[i := s]\<rparr>"

definition lock :: "nat \<Rightarrow> ('v, 'k, 'l, 'u) store \<Rightarrow> ('v, 'k, 'l, 'u) store" where
  "lock i st = st\<lparr>locks := insert i (locks st)\<rparr>"

definition unlock :: "nat \<Rightarrow> ('v, 'k, 'l, 'u) store \<Rightarrow> ('v, 'k, 'l, 'u) store" where
  "unlock i st = st\<lparr>locks := locks st - {i}\<rparr>"

text \<open>\<open>make_contract\<close>: the future and the promise are both the state's index.\<close>

definition make_contract :: "('v, 'k, 'l, 'u) store \<Rightarrow> nat \<times> ('v, 'k, 'l, 'u) store" where
  "make_contract st = (length (states st), st\<lparr>states := states st @ [state_init]\<rparr>)"

text \<open>Sequencing of calls that may throw and may not end.\<close>

definition and_then :: "'a outcome option \<Rightarrow> ('a \<Rightarrow> 'b outcome option) \<Rightarrow> 'b outcome option" where
  "and_then m f = Option.bind m (\<lambda>r. case r of
      Returns a \<Rightarrow> f a | Throws e \<Rightarrow> Some (Throws e) | Undefined \<Rightarrow> Some Undefined)"

lemma and_then_mono [partial_function_mono]:
  fixes C :: "'c \<Rightarrow> ('x \<Rightarrow> 'a option) \<Rightarrow> 'b outcome option"
  assumes "mono_option B" and "\<And>y. mono_option (\<lambda>f. C y f)"
  shows "mono_option (\<lambda>f. and_then (B f) (\<lambda>y. C y f))"
  unfolding and_then_def
proof (intro bind_mono assms)
  fix y :: "'c outcome"
  show "mono_option (\<lambda>f. case y of Returns a \<Rightarrow> C a f | Throws e \<Rightarrow> Some (Throws e)
      | Undefined \<Rightarrow> Some Undefined)"
    by (cases y) (simp_all add: assms(2) option.const_mono)
qed

lemma and_then_simps [simp]:
  "and_then (Some (Returns a)) f = f a"
  "and_then (Some (Throws e)) f = Some (Throws e)"
  "and_then (Some Undefined) f = Some Undefined"
  "and_then None f = None"
  by (simp_all add: and_then_def)

lemma and_then_assoc: "and_then (and_then m f) g = and_then m (\<lambda>a. and_then (f a) g)"
  by (cases m) (auto simp: and_then_def split: outcome.split)

text \<open>
  The calls of the library: \<open>Promise::set\<close>, \<open>Future::on_complete\<close>, the executor's \<open>execute\<close>, the
  call of a callback, and the evaluation of a client's expression. \<open>Job_Link q c\<close> is what \<open>map\<close>
  and \<open>flatmap\<close> share: a new contract, whose promise the callback registered with \<open>q\<close> is given.
\<close>

datatype ('v, 'k, 'l, 'u) job =
    Job_Set nat 'v
  | Job_On_Complete nat "('v, 'k, 'u) closure"
  | Job_Task "('v, ('v, 'k, 'u) closure) task"
  | Job_Call "('v, 'k, 'u) closure" 'v
  | Job_Build "('v, 'k, 'l) prog"
  | Job_Link "('v, 'k, 'l) prog" "nat \<Rightarrow> ('v, 'k, 'u) closure"
  | Job_Register nat "('v, 'k, 'u) closure" nat

text \<open>
  What a call does: it ends with a result, or goes on as another call, or makes a call and then
  ends or goes on. The number in a result is the future, for an expression.
\<close>

datatype ('v, 'k, 'l, 'u) next_step =
    Result "(nat \<times> ('v, 'k, 'l, 'u) store) outcome"
  | Tail "('v, 'k, 'l, 'u) job" "('v, 'k, 'l, 'u) store"

datatype ('v, 'k, 'l, 'u) course =
    Next "('v, 'k, 'l, 'u) next_step"
  | Sub "('v, 'k, 'l, 'u) job" "('v, 'k, 'l, 'u) store"
      "nat \<times> ('v, 'k, 'l, 'u) store \<Rightarrow> ('v, 'k, 'l, 'u) next_step"

fun bind_plan :: "'a outcome \<Rightarrow> ('a \<Rightarrow> ('v, 'k, 'l, 'u) course) \<Rightarrow> ('v, 'k, 'l, 'u) course" where
  "bind_plan (Returns a) f = f a"
| "bind_plan (Throws e) f = Next (Result (Throws e))"
| "bind_plan Undefined f = Next (Result Undefined)"

text \<open>A state that is locked already cannot be locked again by the same thread: that is undefined.\<close>

fun plan ::
  "('v \<Rightarrow> 'v) \<Rightarrow> ('k \<Rightarrow> 'v \<Rightarrow> ('v, 'k, 'l) prog outcome) \<Rightarrow> ('v, 'k, 'l, 'u) job \<Rightarrow>
     ('v, 'k, 'l, 'u) store \<Rightarrow> ('v, 'k, 'l, 'u) course" where
  "plan residue body (Job_Set i v) st =
     bind_plan (access i st) (\<lambda>s. bind_plan (set_value residue v s) (\<lambda>(s, t, _). case t of
         None \<Rightarrow> Next (Result (Returns (i, put i s st)))
       | Some t \<Rightarrow> Sub (Job_Task t) (lock i (put i s st)) (\<lambda>(_, st).
           Result (Returns (i, unlock i (put i (after_call (states st ! i)) st))))))"
| "plan residue body (Job_On_Complete i c) st =
     bind_plan (access i st) (\<lambda>s. bind_plan (set_callback residue (Some c) s) (\<lambda>(s, t). case t of
         None \<Rightarrow> Next (Result (Returns (i, put i s st)))
       | Some t \<Rightarrow> Sub (Job_Task t) (lock i (put i s st)) (\<lambda>(_, st).
           Result (Returns (i, unlock i st)))))"
| "plan residue body (Job_Task (Task Own_Thread None v)) st =
     Next (Result (Throws Bad_function_call))"
| "plan residue body (Job_Task (Task Own_Thread (Some c) v)) st = Next (Tail (Job_Call c v) st)"
| "plan residue body (Job_Task (Task (Queued n) f v)) st =
     Next (Result (Returns (n, st\<lparr>posted := posted st @ [Task (Queued n) f v]\<rparr>)))"
| "plan residue body (Job_Call (Set_Mapped f p) v) st =
     bind_plan (f v) (\<lambda>w. Next (Tail (Job_Set p w) st))"
| "plan residue body (Job_Call (Continue k p) v) st =
     bind_plan (body k v) (\<lambda>q. Sub (Job_Build q) st (\<lambda>(n, st).
       Tail (Job_On_Complete n (Forward p)) st))"
| "plan residue body (Job_Call (Forward p) v) st = Next (Tail (Job_Set p v) st)"
| "plan residue body (Job_Call (User u) v) st =
     Next (Result (Returns (0, st\<lparr>calls := calls st @ [(u, v)]\<rparr>)))"
| "plan residue body (Job_Build (From_Val v)) st =
     (let (i, st) = make_contract st in Next (Tail (Job_Set i v) st))"
| "plan residue body (Job_Build (External l)) st =
     (let (i, st) = make_contract st
      in Next (Result (Returns (i, st\<lparr>externals := externals st @ [(l, i)]\<rparr>))))"
| "plan residue body (Job_Build (Map_F q f)) st = Next (Tail (Job_Link q (Set_Mapped f)) st)"
| "plan residue body (Job_Build (Flatmap_F q k)) st = Next (Tail (Job_Link q (Continue k)) st)"
| "plan residue body (Job_Link q c) st =
     Sub (Job_Build q) st (\<lambda>(j, st).
       let (i, st) = make_contract st in Tail (Job_Register j (c i) i) st)"
| "plan residue body (Job_Register j c i) st =
     Sub (Job_On_Complete j c) st (\<lambda>(_, st). Result (Returns (i, st)))"

partial_function (option) exec ::
  "('v \<Rightarrow> 'v) \<Rightarrow> ('k \<Rightarrow> 'v \<Rightarrow> ('v, 'k, 'l) prog outcome) \<Rightarrow> ('v, 'k, 'l, 'u) job \<Rightarrow>
     ('v, 'k, 'l, 'u) store \<Rightarrow> (nat \<times> ('v, 'k, 'l, 'u) store) outcome option" where
  "exec residue body job st = (case plan residue body job st of
     Next n \<Rightarrow> (case n of Result r \<Rightarrow> Some r | Tail j st \<Rightarrow> exec residue body j st)
   | Sub j st k \<Rightarrow> and_then (exec residue body j st) (\<lambda>r. case k r of
         Result r \<Rightarrow> Some r | Tail j st \<Rightarrow> exec residue body j st))"

section \<open>What the calls do\<close>

abbreviation continue_call ::
  "('v \<Rightarrow> 'v) \<Rightarrow> ('k \<Rightarrow> 'v \<Rightarrow> ('v, 'k, 'l) prog outcome) \<Rightarrow> ('v, 'k, 'l, 'u) next_step \<Rightarrow>
     (nat \<times> ('v, 'k, 'l, 'u) store) outcome option" where
  "continue_call residue body n \<equiv>
     (case n of Result r \<Rightarrow> Some r | Tail j st \<Rightarrow> exec residue body j st)"

text \<open>A state that waits, with the callback registered with it, if any, and one that is complete.\<close>

definition fresh :: "'c option \<Rightarrow> ('v, 'c) state" where
  "fresh c = \<lparr>slot = None, callback = map_option Some c, executor = Own_Thread\<rparr>"

definition completed :: "'v \<Rightarrow> ('v, 'c) state" where
  "completed v = \<lparr>slot = Some v, callback = None, executor = Own_Thread\<rparr>"

definition busy :: "'v \<Rightarrow> ('v, 'c) state" where
  "busy v = \<lparr>slot = Some v, callback = Some None, executor = Own_Thread\<rparr>"

lemma state_init_fresh: "state_init = fresh None"
  by (simp add: state_init_def fresh_def)

definition is_at :: "nat \<Rightarrow> ('v, ('v, 'k, 'u) closure) state \<Rightarrow> ('v, 'k, 'l, 'u) store \<Rightarrow> bool" where
  "is_at i s st \<longleftrightarrow> i < length (states st) \<and> i \<notin> locks st \<and> states st ! i = s"

lemma access_is_at: "is_at i s st \<Longrightarrow> access i st = Returns s"
  by (simp add: is_at_def access_def)

text \<open>The state while its callback runs, and after.\<close>

definition enter_call :: "('v \<Rightarrow> 'v) \<Rightarrow> nat \<Rightarrow> 'v \<Rightarrow> ('v, 'k, 'l, 'u) store \<Rightarrow> ('v, 'k, 'l, 'u) store" where
  "enter_call residue i v st = lock i (put i (busy (residue v)) st)"

definition leave_set :: "nat \<Rightarrow> ('v, 'k, 'l, 'u) store \<Rightarrow> ('v, 'k, 'l, 'u) store" where
  "leave_set i st = unlock i (put i (after_call (states st ! i)) st)"

lemma exec_task:
  "exec residue body (Job_Task (Task Own_Thread (Some c) v)) st = exec residue body (Job_Call c v) st"
  by (subst exec.simps) simp

lemma exec_set_waiting:
  assumes "is_at i (fresh None) st"
  shows "exec residue body (Job_Set i v) st = Some (Returns (i, put i (completed v) st))"
  using assms by (subst exec.simps)
    (simp add: access_is_at set_value_simps fresh_def completed_def is_at_def)

lemma exec_set_callback:
  assumes "is_at i (fresh (Some c)) st"
  shows "exec residue body (Job_Set i v) st =
    and_then (exec residue body (Job_Call c v) (enter_call residue i v st)) (\<lambda>(_, st).
      Some (Returns (i, leave_set i st)))"
proof -
  have "access i st = Returns (fresh (Some c))" using assms by (rule access_is_at)
  then have "plan residue body (Job_Set i v) st =
      Sub (Job_Task (Task Own_Thread (Some c) v)) (enter_call residue i v st)
        (\<lambda>(_, st). Result (Returns (i, leave_set i st)))"
    by (simp add: set_value_simps(2) [of _ "Some c"] fresh_def enter_call_def busy_def leave_set_def)
  then show ?thesis
    by (subst exec.simps) (simp add: exec_task case_prod_beta')
qed

lemma exec_on_complete_waiting:
  assumes "is_at i (fresh None) st"
  shows "exec residue body (Job_On_Complete i c) st = Some (Returns (i, put i (fresh (Some c)) st))"
  using assms by (subst exec.simps) (simp add: access_is_at set_callback_simps fresh_def)

lemma exec_on_complete_completed:
  assumes "is_at i (completed v) st"
  shows "exec residue body (Job_On_Complete i c) st =
    and_then (exec residue body (Job_Call c v) (enter_call residue i v st)) (\<lambda>(_, st).
      Some (Returns (i, unlock i st)))"
proof -
  have "access i st = Returns (completed v)" using assms by (rule access_is_at)
  then have "plan residue body (Job_On_Complete i c) st =
      Sub (Job_Task (Task Own_Thread (Some c) v)) (enter_call residue i v st)
        (\<lambda>(_, st). Result (Returns (i, unlock i st)))"
    by (simp add: set_callback_simps(2) [of _ v] completed_def enter_call_def busy_def)
  then show ?thesis
    by (subst exec.simps) (simp add: exec_task case_prod_beta')
qed

lemma exec_call_mapped:
  "exec residue body (Job_Call (Set_Mapped f p) v) st =
     and_then (Some (f v)) (\<lambda>w. exec residue body (Job_Set p w) st)"
  by (subst exec.simps) (cases "f v"; simp)

lemma exec_call_continue:
  "exec residue body (Job_Call (Continue k p) v) st =
     and_then (Some (body k v)) (\<lambda>q. and_then (exec residue body (Job_Build q) st) (\<lambda>(n, st).
       exec residue body (Job_On_Complete n (Forward p)) st))"
  by (subst exec.simps) (cases "body k v"; simp add: case_prod_beta')

lemma exec_call_forward:
  "exec residue body (Job_Call (Forward p) v) st = exec residue body (Job_Set p v) st"
  by (subst exec.simps) simp

lemma exec_call_user:
  "exec residue body (Job_Call (User u) v) st =
     Some (Returns (0, st\<lparr>calls := calls st @ [(u, v)]\<rparr>))"
  by (subst exec.simps) simp

lemmas exec_calls = exec_call_mapped exec_call_continue exec_call_forward exec_call_user

lemma exec_register:
  "exec residue body (Job_Register j c i) st =
     and_then (exec residue body (Job_On_Complete j c) st) (\<lambda>(_, st). Some (Returns (i, st)))"
  by (subst exec.simps) (simp add: case_prod_beta')

lemma exec_link:
  "exec residue body (Job_Link q c) st =
     and_then (exec residue body (Job_Build q) st) (\<lambda>(j, st).
       and_then (exec residue body (Job_On_Complete j (c (length (states st))))
         (snd (make_contract st))) (\<lambda>(_, st').
       Some (Returns (length (states st), st'))))"
  by (subst exec.simps) (simp add: case_prod_beta' make_contract_def exec_register)

lemma exec_build:
  "exec residue body (Job_Build (From_Val v)) st =
     exec residue body (Job_Set (length (states st)) v) (snd (make_contract st))"
  "exec residue body (Job_Build (External l)) st =
     Some (Returns (length (states st),
       (snd (make_contract st))\<lparr>externals := externals st @ [(l, length (states st))]\<rparr>))"
  "exec residue body (Job_Build (Map_F q f)) st = exec residue body (Job_Link q (Set_Mapped f)) st"
  "exec residue body (Job_Build (Flatmap_F q k)) st = exec residue body (Job_Link q (Continue k)) st"
  by (subst exec.simps, simp add: make_contract_def)+

end
