(* ===== verification/Futures_Sim.thy ===== *)
theory Futures_Sim
  imports Futures
begin

text \<open>
  How the shared states of a store represent a program that waits (\<open>pend\<close>), and that building a
  program's future (\<open>settles_builds\<close>) and setting the promise it waits for (\<open>pend_steps\<close>) do what
  the program's specification says, whatever else is in the store.
\<close>

section \<open>Stores that agree\<close>

text \<open>\<open>agree E st st'\<close>: the states outside \<open>E\<close> are as they were, and no client was called.\<close>

definition agree :: "nat set \<Rightarrow> ('v, 'k, 'l, 'u) store \<Rightarrow> ('v, 'k, 'l, 'u) store \<Rightarrow> bool" where
  "agree E st st' \<longleftrightarrow> length (states st) \<le> length (states st') \<and>
     (\<forall>x < length (states st). x \<notin> E \<longrightarrow>
        states st' ! x = states st ! x \<and> (x \<in> locks st' \<longleftrightarrow> x \<in> locks st)) \<and>
     calls st' = calls st \<and> posted st' = posted st \<and> set (externals st) \<subseteq> set (externals st')"

definition quiet :: "nat set \<Rightarrow> ('v, 'k, 'l, 'u) store \<Rightarrow> ('v, 'k, 'l, 'u) store \<Rightarrow> bool" where
  "quiet E st st' \<longleftrightarrow> agree E st st' \<and> length (states st') = length (states st) \<and>
     locks st' \<subseteq> locks st"

definition locks_ok :: "('v, 'k, 'l, 'u) store \<Rightarrow> bool" where
  "locks_ok st \<longleftrightarrow> locks st \<subseteq> {..<length (states st)}"

lemma agree_refl: "agree E st st"
  by (simp add: agree_def)

lemma agree_trans:
  "agree E st st1 \<Longrightarrow> agree E' st1 st2 \<Longrightarrow> E \<union> (E' \<inter> {..<length (states st)}) \<subseteq> E'' \<Longrightarrow>
     agree E'' st st2"
  unfolding agree_def
proof (elim conjE, intro conjI allI impI)
  fix x
  assume E: "E \<union> (E' \<inter> {..<length (states st)}) \<subseteq> E''" and x: "x < length (states st)" "x \<notin> E''"
    and le: "length (states st) \<le> length (states st1)"
    and 1: "\<forall>x<length (states st). x \<notin> E \<longrightarrow> states st1 ! x = states st ! x \<and> (x \<in> locks st1) = (x \<in> locks st)"
    and 2: "\<forall>x<length (states st1). x \<notin> E' \<longrightarrow>
      states st2 ! x = states st1 ! x \<and> (x \<in> locks st2) = (x \<in> locks st1)"
  from E x have "x \<notin> E" "x \<notin> E'" by auto
  with 1 2 x le show "states st2 ! x = states st ! x" "(x \<in> locks st2) = (x \<in> locks st)"
    by simp_all
qed auto

lemma quiet_trans: "quiet E st st1 \<Longrightarrow> quiet E' st1 st2 \<Longrightarrow> E \<union> E' \<subseteq> E'' \<Longrightarrow> quiet E'' st st2"
  by (auto simp: quiet_def intro: agree_trans)

lemma quiet_mono: "quiet E st st' \<Longrightarrow> E \<subseteq> E' \<Longrightarrow> quiet E' st st'"
  by (auto simp: quiet_def agree_def)

lemma is_at_agree: "is_at x s st \<Longrightarrow> agree E st st' \<Longrightarrow> x \<notin> E \<Longrightarrow> is_at x s st'"
  by (auto simp: is_at_def agree_def)

lemma locks_ok_quiet: "locks_ok st \<Longrightarrow> quiet E st st' \<Longrightarrow> locks_ok st'"
  by (auto simp: locks_ok_def quiet_def)

lemma store_sel [simp]:
  "length (states (put i s st)) = length (states st)" "locks (put i s st) = locks st"
  "externals (put i s st) = externals st" "calls (put i s st) = calls st" "posted (put i s st) = posted st"
  "states (lock i st) = states st" "locks (lock i st) = insert i (locks st)"
  "externals (lock i st) = externals st" "calls (lock i st) = calls st" "posted (lock i st) = posted st"
  "states (unlock i st) = states st" "locks (unlock i st) = locks st - {i}"
  "externals (unlock i st) = externals st" "calls (unlock i st) = calls st"
  "posted (unlock i st) = posted st"
  by (simp_all add: put_def lock_def unlock_def)

lemma states_put: "states (put i s st) ! x = (if x = i \<and> i < length (states st) then s else states st ! x)"
  by (cases "i < length (states st)") (auto simp: put_def nth_list_update not_less list_update_beyond)

lemma put_quiet: "quiet {i} st (put i s st)"
  by (auto simp: quiet_def agree_def states_put)

lemma unlock_quiet: "quiet {i} st (unlock i st)"
  by (auto simp: quiet_def agree_def)

lemma leave_set_quiet: "quiet {i} st (leave_set i st)"
  unfolding leave_set_def by (rule quiet_trans [OF put_quiet unlock_quiet]) simp

lemma enter_call_agree: "agree {i} st (enter_call residue i v st)"
  by (auto simp: agree_def enter_call_def states_put)

lemma length_enter_call [simp]: "length (states (enter_call residue i v st)) = length (states st)"
  by (simp add: enter_call_def)

lemma enter_call_locks_ok: "locks_ok st \<Longrightarrow> i < length (states st) \<Longrightarrow> locks_ok (enter_call residue i v st)"
  by (auto simp: locks_ok_def enter_call_def)

lemma is_at_put: "is_at i s st \<Longrightarrow> is_at i s' (put i s' st)"
  by (simp add: is_at_def states_put)

lemma make_contract_agree: "agree {} st (snd (make_contract st))"
  by (auto simp: agree_def make_contract_def nth_append)

lemma make_contract_locks_ok: "locks_ok st \<Longrightarrow> locks_ok (snd (make_contract st))"
  by (auto simp: locks_ok_def make_contract_def)

lemma make_contract_at: "locks_ok st \<Longrightarrow> is_at (length (states st)) (fresh None) (snd (make_contract st))"
  by (auto simp: is_at_def make_contract_def locks_ok_def state_init_fresh)

section \<open>The states that represent a waiting program\<close>

text \<open>
  \<open>pend st c q i I w\<close>: the future \<open>i\<close>, with the callback \<open>c\<close> registered, if any, represents the
  waiting program \<open>q\<close> by the states \<open>I\<close>; the environment has the promise \<open>w\<close>. The last rule is a
  \<open>flatmap\<close> whose function has returned its future.
\<close>

inductive pend ::
  "('v, 'k, 'l, 'u) store \<Rightarrow> ('v, 'k, 'u) closure option \<Rightarrow> ('v, 'k, 'l) prog \<Rightarrow> nat \<Rightarrow> nat set \<Rightarrow>
     nat \<Rightarrow> bool" for st where
  pend_external: "is_at i (fresh c) st \<Longrightarrow> (l, i) \<in> set (externals st) \<Longrightarrow>
     pend st c (External l) i {i} i"
| pend_map: "pend st (Some (Set_Mapped f i)) q j J w \<Longrightarrow> is_at i (fresh c) st \<Longrightarrow> i \<notin> J \<Longrightarrow>
     pend st c (Map_F q f) i (insert i J) w"
| pend_flatmap: "pend st (Some (Continue k i)) q j J w \<Longrightarrow> is_at i (fresh c) st \<Longrightarrow> i \<notin> J \<Longrightarrow>
     pend st c (Flatmap_F q k) i (insert i J) w"
| pend_forward: "pend st (Some (Forward i)) q j J w \<Longrightarrow> is_at i (fresh c) st \<Longrightarrow> i \<notin> J \<Longrightarrow>
     pend st c q i (insert i J) w"

lemma pend_root: "pend st c q i I w \<Longrightarrow> is_at i (fresh c) st \<and> i \<in> I"
  by (induction rule: pend.induct) auto

lemma pend_bound: "pend st c q i I w \<Longrightarrow> I \<subseteq> {..<length (states st)}"
  by (induction rule: pend.induct) (auto simp: is_at_def)

lemma pend_waits: "pend st c q i I w \<Longrightarrow> \<exists>l. waits_on q = Some l \<and> (l, w) \<in> set (externals st)"
  by (induction rule: pend.induct) auto

lemma pend_not_val: "pend st c q i I w \<Longrightarrow> \<not> is_val q"
  by (induction rule: pend.induct) auto

lemma pend_frame:
  "pend st c q i I w \<Longrightarrow> agree E st st' \<Longrightarrow> E \<inter> I = {} \<Longrightarrow> pend st' c q i I w"
proof (induction rule: pend.induct)
  case (pend_external i c l)
  then show ?case by (auto intro!: pend.pend_external intro: is_at_agree simp: agree_def)
next
  case (pend_map f i q j J w c)
  then show ?case by (auto intro!: pend.pend_map intro: is_at_agree)
next
  case (pend_flatmap k i q j J w c)
  then show ?case by (auto intro!: pend.pend_flatmap intro: is_at_agree)
next
  case (pend_forward i q j J w c)
  then show ?case by (auto intro!: pend.pend_forward intro: is_at_agree)
qed

text \<open>Registering a callback with a waiting program.\<close>

lemma pend_register:
  assumes "pend st c q i I w"
  shows "pend (put i (fresh c') st) c' q i I w"
  using assms
proof (cases rule: pend.cases)
  case (pend_external l)
  then show ?thesis by (auto intro!: pend.pend_external intro: is_at_put)
next
  case (pend_map f q' j J)
  then show ?thesis
    using pend_frame [OF pend_map(3), of "{i}" "put i (fresh c') st"] put_quiet [of i st "fresh c'"]
    by (auto intro!: pend.pend_map intro: is_at_put simp: quiet_def)
next
  case (pend_flatmap k q' j J)
  then show ?thesis
    using pend_frame [OF pend_flatmap(3), of "{i}" "put i (fresh c') st"] put_quiet [of i st "fresh c'"]
    by (auto intro!: pend.pend_flatmap intro: is_at_put simp: quiet_def)
next
  case (pend_forward j J)
  then show ?thesis
    using pend_frame [OF pend_forward(2), of "{i}" "put i (fresh c') st"] put_quiet [of i st "fresh c'"]
    by (auto intro!: pend.pend_forward intro: is_at_put simp: quiet_def)
qed


section \<open>Building a future\<close>

text \<open>The outcome of a call that fails, at any result type.\<close>

fun as_failure :: "'a outcome \<Rightarrow> 'b outcome" where
  "as_failure (Throws e) = Throws e"
| "as_failure _ = Undefined"

lemma and_then_failure [simp]: "failure r \<Longrightarrow> and_then (Some (as_failure r)) f = Some (as_failure r)"
  by (cases r) auto

lemma and_then_failure' [simp]: "failure r \<Longrightarrow> and_then (Some r) f = Some (as_failure r)"
  by (cases r) auto

lemma as_failure_id: "failure r \<Longrightarrow> (as_failure r :: 'a outcome) = r" for r :: "'a outcome"
  by (cases r) auto

text \<open>The two ways a call for a program can succeed: the future is complete, or it waits.\<close>

definition built where
  "built residue body p q st \<longleftrightarrow> (\<exists>i st'. exec residue body (Job_Build p) st = Some (Returns (i, st')) \<and>
     agree {} st st' \<and> locks_ok st' \<and> length (states st) \<le> i \<and>
     (case q of From_Val v \<Rightarrow> is_at i (completed v) st'
      | _ \<Rightarrow> \<exists>I w. pend st' None q i I w \<and> I \<subseteq> {length (states st)..}))"

lemma not_val_cases: "\<not> is_val q \<Longrightarrow> (case q of From_Val v \<Rightarrow> P v | _ \<Rightarrow> Q) = Q"
  by (cases q) auto

lemma built_val: "built residue body p (From_Val v) st \<longleftrightarrow>
    (\<exists>i st'. exec residue body (Job_Build p) st = Some (Returns (i, st')) \<and>
     agree {} st st' \<and> locks_ok st' \<and> length (states st) \<le> i \<and> is_at i (completed v) st')"
  by (simp add: built_def)

lemma built_wait: "\<not> is_val q \<Longrightarrow> built residue body p q st \<longleftrightarrow>
    (\<exists>i st'. exec residue body (Job_Build p) st = Some (Returns (i, st')) \<and>
     agree {} st st' \<and> locks_ok st' \<and> length (states st) \<le> i \<and>
     (\<exists>I w. pend st' None q i I w \<and> I \<subseteq> {length (states st)..}))"
  by (simp add: built_def not_val_cases)

lemma exec_set_contract:
  assumes "locks_ok st"
  shows "\<exists>st'. exec residue body (Job_Set (length (states st)) v) (snd (make_contract st)) =
      Some (Returns (length (states st), st')) \<and>
    agree {} st st' \<and> locks_ok st' \<and> is_at (length (states st)) (completed v) st'"
proof -
  let ?i = "length (states st)" and ?c = "snd (make_contract st)"
  have at: "is_at ?i (fresh None) ?c" using assms by (rule make_contract_at)
  have q: "quiet {?i} ?c (put ?i (completed v) ?c)" by (rule put_quiet)
  have "agree {} st (put ?i (completed v) ?c)"
    by (rule agree_trans [OF make_contract_agree]) (use q in \<open>auto simp: quiet_def\<close>)
  moreover have "locks_ok (put ?i (completed v) ?c)"
    using locks_ok_quiet [OF make_contract_locks_ok [OF assms] q] .
  ultimately show ?thesis
    using exec_set_waiting [OF at, of residue body v] is_at_put [OF at, of "completed v"] by blast
qed

text \<open>The link of \<open>map\<close> and \<open>flatmap\<close>, when the first future waits and when it is complete.\<close>

lemma link_waiting:
  assumes "built residue body q r st" and "\<not> is_val r"
  shows "\<exists>i st' j J w. exec residue body (Job_Link q cl) st = Some (Returns (i, st')) \<and>
    agree {} st st' \<and> locks_ok st' \<and> length (states st) \<le> i \<and> is_at i (fresh None) st' \<and> i \<notin> J \<and>
    pend st' (Some (cl i)) r j J w \<and> J \<subseteq> {length (states st)..}"
proof -
  from assms obtain j st1 J w where b: "exec residue body (Job_Build q) st = Some (Returns (j, st1))"
    "agree {} st st1" "locks_ok st1" "pend st1 None r j J w" "J \<subseteq> {length (states st)..}"
    by (auto simp: built_wait)
  let ?i = "length (states st1)" and ?c = "snd (make_contract st1)"
  let ?st = "put j (fresh (Some (cl ?i))) ?c"
  have p: "pend ?c None r j J w" using pend_frame [OF b(4) make_contract_agree] by simp
  then have at: "is_at j (fresh None) ?c" using pend_root by blast
  have J: "J \<subseteq> {..<?i}" using pend_bound [OF b(4)] .
  have jJ: "j \<in> J" using pend_root [OF b(4)] by blast
  have q: "quiet {j} ?c ?st" by (rule put_quiet)
  have e: "exec residue body (Job_Link q cl) st = Some (Returns (?i, ?st))"
    using exec_on_complete_waiting [OF at, of residue body "cl ?i"] by (simp add: exec_link b(1))
  have a: "agree {} st ?st"
  proof (rule agree_trans [OF agree_trans [OF b(2) make_contract_agree]])
    show "agree {j} ?c ?st" using q by (simp add: quiet_def)
    show "{} \<union> {j} \<inter> {..<length (states st)} \<subseteq> {}" using jJ b(5) by auto
  qed simp
  have l: "locks_ok ?st" using locks_ok_quiet [OF make_contract_locks_ok [OF b(3)] q] .
  have i: "is_at ?i (fresh None) ?st"
    using is_at_agree [OF make_contract_at [OF b(3)], of "{j}" ?st] q J jJ by (auto simp: quiet_def)
  have "length (states st) \<le> ?i" using b(2) by (simp add: agree_def)
  moreover have "?i \<notin> J" using J by auto
  ultimately show ?thesis using e a l i b(5) pend_register [OF p, of "Some (cl ?i)"]
    by (intro exI [of _ ?i] exI [of _ ?st] exI [of _ j] exI [of _ J] exI [of _ w]) simp
qed

lemma link_completed:
  assumes "built residue body q (From_Val y) st"
  shows "\<exists>j st1 i. agree {} st st1 \<and> locks_ok st1 \<and> length (states st) \<le> i \<and> is_at i (fresh None) st1 \<and>
    j \<noteq> i \<and> length (states st) \<le> j \<and> j < length (states st1) \<and>
    exec residue body (Job_Link q cl) st =
      and_then (exec residue body (Job_Call (cl i) y) st1) (\<lambda>(_, st2).
        Some (Returns (i, unlock j st2)))"
proof -
  from assms obtain j st1 where b: "exec residue body (Job_Build q) st = Some (Returns (j, st1))"
    "agree {} st st1" "locks_ok st1" "length (states st) \<le> j" "is_at j (completed y) st1"
    by (auto simp: built_val)
  let ?i = "length (states st1)" and ?c = "snd (make_contract st1)"
  let ?st = "enter_call residue j y ?c"
  have at: "is_at j (completed y) ?c" using is_at_agree [OF b(5) make_contract_agree] by simp
  have j: "j < ?i" using b(5) by (simp add: is_at_def)
  have e: "exec residue body (Job_Link q cl) st =
      and_then (exec residue body (Job_Call (cl ?i) y) ?st) (\<lambda>(_, st2).
        Some (Returns (?i, unlock j st2)))"
    by (simp add: exec_link b(1) exec_on_complete_completed [OF at] and_then_assoc case_prod_beta')
  have a: "agree {} st ?st"
    by (rule agree_trans [OF agree_trans [OF b(2) make_contract_agree] enter_call_agree])
      (use b(4) in auto)
  have l: "locks_ok ?st"
    using enter_call_locks_ok [OF make_contract_locks_ok [OF b(3)]] at by (simp add: is_at_def)
  have i: "is_at ?i (fresh None) ?st"
    using is_at_agree [OF make_contract_at [OF b(3)] enter_call_agree] j by auto
  show ?thesis using e a l i j b(2,4) by (intro exI [of _ j] exI [of _ ?st] exI [of _ ?i])
      (auto simp: agree_def make_contract_def)
qed


text \<open>The callback of \<open>flatmap\<close>, when the future of its function is complete and when it waits.\<close>

lemma continue_completed:
  assumes "built residue body p (From_Val x) st" and "is_at i (fresh c) st" and "body k y = Returns p"
  shows "\<exists>n st2. agree {} st st2 \<and> locks_ok st2 \<and> is_at i (fresh c) st2 \<and> length (states st) \<le> n \<and>
    n < length (states st2) \<and>
    exec residue body (Job_Call (Continue k i) y) st =
      and_then (exec residue body (Job_Set i x) st2) (\<lambda>(_, st3). Some (Returns (n, unlock n st3)))"
proof -
  from assms(1) obtain n st1 where b: "exec residue body (Job_Build p) st = Some (Returns (n, st1))"
    "agree {} st st1" "locks_ok st1" "length (states st) \<le> n" "is_at n (completed x) st1"
    by (auto simp: built_val)
  let ?st = "enter_call residue n x st1"
  have n: "n < length (states st1)" using b(5) by (simp add: is_at_def)
  have e: "exec residue body (Job_Call (Continue k i) y) st =
      and_then (exec residue body (Job_Set i x) ?st) (\<lambda>(_, st3). Some (Returns (n, unlock n st3)))"
    by (simp add: exec_calls assms(3) b(1) exec_on_complete_completed [OF b(5)])
  have a: "agree {} st ?st" by (rule agree_trans [OF b(2) enter_call_agree]) (use b(4) in auto)
  have l: "locks_ok ?st" by (rule enter_call_locks_ok [OF b(3) n])
  have i: "is_at i (fresh c) ?st" by (rule is_at_agree [OF assms(2) a]) simp
  show ?thesis using e a l i b(4) n by (intro exI [of _ n] exI [of _ ?st]) simp
qed

lemma continue_waiting:
  assumes "built residue body p q st" and "\<not> is_val q" and "is_at i (fresh c) st" and "body k y = Returns p"
  shows "\<exists>n st2 N w. exec residue body (Job_Call (Continue k i) y) st = Some (Returns (n, st2)) \<and>
    agree {} st st2 \<and> locks_ok st2 \<and> pend st2 c q i (insert i N) w \<and> N \<subseteq> {length (states st)..}"
proof -
  from assms(1,2) obtain n st1 N w where b: "exec residue body (Job_Build p) st = Some (Returns (n, st1))"
    "agree {} st st1" "locks_ok st1" "pend st1 None q n N w" "N \<subseteq> {length (states st)..}"
    by (auto simp: built_wait)
  let ?st = "put n (fresh (Some (Forward i))) st1"
  have n: "is_at n (fresh None) st1" "n \<in> N" using pend_root [OF b(4)] by auto
  have q: "quiet {n} st1 ?st" by (rule put_quiet)
  have i: "i \<notin> N" using assms(3) b(5) by (auto simp: is_at_def)
  have a: "agree {} st ?st"
    by (rule agree_trans [OF b(2), of "{n}"]) (use q n(2) b(5) in \<open>auto simp: quiet_def\<close>)
  have "pend ?st c q i (insert i N) w"
    by (rule pend_forward [OF pend_register [OF b(4)] is_at_agree [OF assms(3) a] i]) simp
  moreover have "exec residue body (Job_Call (Continue k i) y) st = Some (Returns (n, ?st))"
    by (simp add: exec_calls assms(4) b(1) exec_on_complete_waiting [OF n(1)])
  ultimately show ?thesis using a locks_ok_quiet [OF b(3) q] b(5)
    by (intro exI [of _ n] exI [of _ ?st] exI [of _ N] exI [of _ w]) simp
qed

definition builds where
  "builds residue body p r st \<longleftrightarrow> (\<forall>q. r = Returns q \<longrightarrow> built residue body p q st) \<and>
     (failure r \<longrightarrow> exec residue body (Job_Build p) st = Some (as_failure r))"

lemma builds_simps [simp]:
  "builds residue body p (Returns q) st = built residue body p q st"
  "failure r \<Longrightarrow> builds residue body p r st =
     (exec residue body (Job_Build p) st = Some (as_failure r))"
  by (cases r; simp add: builds_def)+

text \<open>The end of a link whose value is there: the new contract is completed.\<close>

lemma linked_value:
  assumes "agree {} st st1" and "locks_ok st1" and "length (states st) \<le> i" and "is_at i (fresh None) st1"
    and "quiet E (put i (completed x) st1) st2" and "i \<notin> E" and "E \<subseteq> {length (states st)..}"
    and "exec residue body (Job_Build p) st = Some (Returns (i, st2))"
  shows "built residue body p (From_Val x) st"
proof -
  have q: "quiet (insert i E) st1 st2" by (rule quiet_trans [OF put_quiet assms(5)]) simp
  have "agree {} st st2"
    by (rule agree_trans [OF assms(1), of "insert i E"]) (use q assms(3,7) in \<open>auto simp: quiet_def\<close>)
  moreover have "is_at i (completed x) st2"
    using is_at_agree [OF is_at_put [OF assms(4), of "completed x"]] assms(5,6) by (auto simp: quiet_def)
  ultimately show ?thesis using assms(3,8) locks_ok_quiet [OF assms(2) q] by (auto simp: built_val)
qed

lemma settles_builds:
  assumes "settles body p r" and "locks_ok st"
  shows "builds residue body p r st"
  using assms
proof (induction arbitrary: st rule: settles.induct)
  case (settles_val v)
  then show ?case using exec_set_contract [OF settles_val.prems, of residue body v]
    by (auto simp: built_val exec_build)
next
  case (settles_external l)
  let ?i = "length (states st)" and ?c = "snd (make_contract st)"
  let ?st = "?c\<lparr>externals := externals st @ [(l, ?i)]\<rparr>"
  have "is_at ?i (fresh None) ?st" using make_contract_at [OF settles_external.prems]
    by (simp add: is_at_def)
  then have "pend ?st None (External l) ?i {?i} ?i" by (rule pend_external) simp
  moreover have "agree {} st ?st" using make_contract_agree [of st]
    by (auto simp: agree_def make_contract_def)
  moreover have "locks_ok ?st" using make_contract_locks_ok [OF settles_external.prems]
    by (simp add: locks_ok_def)
  ultimately show ?case
    by (fastforce simp: built_wait exec_build)
next
  case (settles_map q y f)
  from link_completed [of residue body q y st "Set_Mapped f"] settles_map
  obtain j st1 i where l: "agree {} st st1" "locks_ok st1" "length (states st) \<le> i"
    "is_at i (fresh None) st1" "j \<noteq> i" "length (states st) \<le> j"
    "exec residue body (Job_Link q (Set_Mapped f)) st =
      and_then (exec residue body (Job_Call (Set_Mapped f i) y) st1) (\<lambda>(_, st2).
        Some (Returns (i, unlock j st2)))" by auto
  show ?case
  proof (cases "f y")
    case (Returns x)
    have "exec residue body (Job_Build (Map_F q f)) st =
        Some (Returns (i, unlock j (put i (completed x) st1)))"
      by (simp add: exec_build l(7) exec_calls Returns exec_set_waiting [OF l(4)])
    from linked_value [OF l(1-4) unlock_quiet _ _ this] l(5,6) Returns show ?thesis by simp
  qed (simp_all add: exec_build l(7) exec_calls)
next
  case (settles_map_wait q r f)
  from link_waiting [of residue body q r st "Set_Mapped f"] settles_map_wait
  obtain i st' j J w where l: "exec residue body (Job_Link q (Set_Mapped f)) st = Some (Returns (i, st'))"
    "agree {} st st'" "locks_ok st'" "length (states st) \<le> i" "is_at i (fresh None) st'" "i \<notin> J"
    "pend st' (Some (Set_Mapped f i)) r j J w" "J \<subseteq> {length (states st)..}" by auto
  have "pend st' None (Map_F r f) i (insert i J) w" using l(7,5,6) by (rule pend_map)
  with l show ?case by (fastforce simp: built_wait exec_build)
next
  case (settles_map_fail q r f)
  then show ?case by (simp add: exec_build exec_link)
next
  case (settles_flatmap q y k p r)
  from link_completed [of residue body q y st "Continue k"] settles_flatmap
  obtain j st1 i where l: "agree {} st st1" "locks_ok st1" "length (states st) \<le> i"
    "is_at i (fresh None) st1" "j \<noteq> i" "length (states st) \<le> j" "j < length (states st1)"
    "exec residue body (Job_Link q (Continue k)) st =
      and_then (exec residue body (Job_Call (Continue k i) y) st1) (\<lambda>(_, st2).
        Some (Returns (i, unlock j st2)))" by auto
  from settles_flatmap.IH(2) [OF l(2)] have p: "builds residue body p r st1" .
  have e: "exec residue body (Job_Build (Flatmap_F q k)) st =
      and_then (exec residue body (Job_Call (Continue k i) y) st1) (\<lambda>(_, st2).
        Some (Returns (i, unlock j st2)))"
    by (simp add: exec_build l(8))
  show ?case
  proof (cases r)
    case (Returns q')
    with p have b: "built residue body p q' st1" by simp
    show ?thesis
    proof (cases "is_val q'")
      case True
      then obtain x where x: "q' = From_Val x" by (cases q') auto
      from continue_completed [OF b [unfolded x] l(4) settles_flatmap.hyps(2)]
      obtain n st2 where c: "agree {} st1 st2" "locks_ok st2" "is_at i (fresh None) st2"
        "length (states st1) \<le> n" "n < length (states st2)"
        "exec residue body (Job_Call (Continue k i) y) st1 =
          and_then (exec residue body (Job_Set i x) st2) (\<lambda>(_, st3). Some (Returns (n, unlock n st3)))"
        by blast
      have q: "quiet {n, j} (put i (completed x) st2) (unlock j (unlock n (put i (completed x) st2)))"
        by (rule quiet_trans [OF unlock_quiet unlock_quiet]) simp
      have a: "agree {} st st2" by (rule agree_trans [OF l(1) c(1)]) simp
      have "i \<notin> {n, j}" "{n, j} \<subseteq> {length (states st)..}"
        using c(4) l(1,4,5,6) by (auto simp: is_at_def agree_def)
      from linked_value [OF a c(2) l(3) c(3) q this, of residue body "Flatmap_F q k"]
      have "built residue body (Flatmap_F q k) (From_Val x) st"
        by (simp add: e c(6) exec_set_waiting [OF c(3)])
      with Returns x show ?thesis by simp
    next
      case False
      from continue_waiting [OF b False l(4) settles_flatmap.hyps(2)]
      obtain n st2 N w where c: "exec residue body (Job_Call (Continue k i) y) st1 = Some (Returns (n, st2))"
        "agree {} st1 st2" "locks_ok st2" "pend st2 None q' i (insert i N) w" "N \<subseteq> {length (states st1)..}"
        by blast
      have a: "agree {} st (unlock j st2)"
        by (rule agree_trans [OF agree_trans [OF l(1) c(2)], of "{}" "{j}"])
          (use l(6) unlock_quiet [of j st2] in \<open>auto simp: quiet_def\<close>)
      have "pend (unlock j st2) None q' i (insert i N) w"
        by (rule pend_frame [OF c(4), of "{j}"])
          (use unlock_quiet [of j st2] l(5,7) c(5) in \<open>auto simp: quiet_def\<close>)
      moreover have "insert i N \<subseteq> {length (states st)..}" using l(1,3) c(5) by (auto simp: agree_def)
      moreover have "locks_ok (unlock j st2)" by (rule locks_ok_quiet [OF c(3) unlock_quiet])
      ultimately have "built residue body (Flatmap_F q k) q' st"
        using a l(3) by (auto simp: built_wait [OF False] e c(1))
      with Returns show ?thesis by simp
    qed
  qed (use p settles_flatmap.hyps(2) in \<open>simp_all add: e exec_calls\<close>)
next
  case (settles_flatmap_throw q y k r)
  from link_completed [of residue body q y st "Continue k"] settles_flatmap_throw
  obtain j st1 i where 
    "exec residue body (Job_Link q (Continue k)) st =
      and_then (exec residue body (Job_Call (Continue k i) y) st1) (\<lambda>(_, st2).
        Some (Returns (i, unlock j st2)))" by auto
  with settles_flatmap_throw show ?case by (simp add: exec_build exec_calls)
next
  case (settles_flatmap_wait q r k)
  from link_waiting [of residue body q r st "Continue k"] settles_flatmap_wait
  obtain i st' j J w where l: "exec residue body (Job_Link q (Continue k)) st = Some (Returns (i, st'))"
    "agree {} st st'" "locks_ok st'" "length (states st) \<le> i" "is_at i (fresh None) st'" "i \<notin> J"
    "pend st' (Some (Continue k i)) r j J w" "J \<subseteq> {length (states st)..}" by auto
  have "pend st' None (Flatmap_F r k) i (insert i J) w" using l(7,5,6) by (rule pend_flatmap)
  with l show ?case by (fastforce simp: built_wait exec_build)
next
  case (settles_flatmap_fail q r k)
  then show ?case by (simp add: exec_build exec_link)
qed


section \<open>Setting the promise a program waits for\<close>

text \<open>
  The call of the promise the environment has ends as a failure, or goes on as the call that
  sets the root's value, with some states to release afterwards, or ends with the root waiting.
\<close>

definition delivers where
  "delivers residue body st c i I w v x \<longleftrightarrow>
     (\<exists>st2 g. agree I st st2 \<and> locks_ok st2 \<and> is_at i (fresh c) st2 \<and>
        exec residue body (Job_Set w v) st =
          and_then (exec residue body (Job_Set i x) st2) (\<lambda>z. Some (Returns (g z))) \<and>
        (\<forall>z. quiet ((I \<union> {length (states st)..<length (states st2)}) - {i}) (snd z) (snd (g z))))"

definition suspends where
  "suspends residue body st c i I w v q \<longleftrightarrow>
     (\<exists>z I' w'. exec residue body (Job_Set w v) st = Some (Returns z) \<and> pend (snd z) c q i I' w' \<and>
        I' \<subseteq> I \<union> {length (states st)..} \<and> agree I st (snd z) \<and> locks_ok (snd z))"

text \<open>Delivering to an inner future calls the closure registered with it.\<close>

lemma delivers_call:
  assumes "delivers residue body st (Some cl) j J w v y" and "J \<subseteq> {..<length (states st)}" and "j \<in> J"
  shows "\<exists>st1 g. agree J st st1 \<and> locks_ok st1 \<and>
    exec residue body (Job_Set w v) st =
      and_then (exec residue body (Job_Call cl y) st1) (\<lambda>z. Some (Returns (g z))) \<and>
    (\<forall>z. quiet (J \<union> {length (states st)..<length (states st1)}) (snd z) (snd (g z)))"
proof -
  from assms(1) obtain st2 g where d: "agree J st st2" "locks_ok st2" "is_at j (fresh (Some cl)) st2"
    "exec residue body (Job_Set w v) st =
      and_then (exec residue body (Job_Set j y) st2) (\<lambda>z. Some (Returns (g z)))"
    "\<And>z. quiet ((J \<union> {length (states st)..<length (states st2)}) - {j}) (snd z) (snd (g z))"
    unfolding delivers_def by blast
  let ?st = "enter_call residue j y st2" and ?g = "\<lambda>z. g (j, leave_set j (snd z))"
  have j: "j < length (states st2)" using d(3) by (simp add: is_at_def)
  have a: "agree J st ?st" by (rule agree_trans [OF d(1) enter_call_agree]) (use assms(3) in auto)
  have e: "exec residue body (Job_Set w v) st =
      and_then (exec residue body (Job_Call cl y) ?st) (\<lambda>z. Some (Returns (?g z)))"
    by (simp add: d(4) exec_set_callback [OF d(3)] and_then_assoc case_prod_beta')
  have q: "quiet (J \<union> {length (states st)..<length (states ?st)}) (snd z) (snd (?g z))" for z
    by (rule quiet_trans [OF leave_set_quiet d(5) [of "(j, leave_set j (snd z))", simplified]])
      (use assms(3) in auto)
  show ?thesis
    by (intro exI [of _ ?st] exI [of _ ?g] conjI allI a e q enter_call_locks_ok [OF d(2) j])
qed

lemma delivers_inner:
  assumes "agree J st st1" and "locks_ok st1" and "is_at i (fresh c) st" and "i \<notin> J"
    and "exec residue body (Job_Set w v) st =
      and_then (exec residue body (Job_Set i x) st1) (\<lambda>z. Some (Returns (g z)))"
    and "\<And>z. quiet (J \<union> {length (states st)..<length (states st1)}) (snd z) (snd (g z))"
  shows "delivers residue body st c i (insert i J) w v x"
  unfolding delivers_def
proof (intro exI conjI allI)
  show "agree (insert i J) st st1" using assms(1) by (auto simp: agree_def)
  show "is_at i (fresh c) st1" by (rule is_at_agree [OF assms(3,1,4)])
  show "quiet ((insert i J \<union> {length (states st)..<length (states st1)}) - {i}) (snd z) (snd (g z))" for z
    by (rule quiet_mono [OF assms(6)]) (use assms(3,4) in \<open>auto simp: is_at_def\<close>)
qed (fact assms)+

lemma suspends_inner:
  assumes "suspends residue body st (Some cl) j J w v q" and "is_at i (fresh c) st" and "i \<notin> J"
    and "\<And>st' J' w'. pend st' (Some cl) q j J' w' \<Longrightarrow> is_at i (fresh c) st' \<Longrightarrow> i \<notin> J' \<Longrightarrow>
      pend st' c q' i (insert i J') w'"
  shows "suspends residue body st c i (insert i J) w v q'"
proof -
  from assms(1) obtain z J' w' where d: "exec residue body (Job_Set w v) st = Some (Returns z)"
    "pend (snd z) (Some cl) q j J' w'" "J' \<subseteq> J \<union> {length (states st)..}" "agree J st (snd z)"
    "locks_ok (snd z)"
    unfolding suspends_def by blast
  have "i \<notin> J'" using d(3) assms(2,3) by (auto simp: is_at_def)
  from assms(4) [OF d(2) is_at_agree [OF assms(2) d(4) assms(3)] this]
  have "pend (snd z) c q' i (insert i J') w'" .
  moreover have "agree (insert i J) st (snd z)" using d(4) by (auto simp: agree_def)
  ultimately show ?thesis using d(1,3,5) unfolding suspends_def by fast
qed

lemma failure_bind: "failure (bind_outcome r (\<lambda>x. Returns (h x))) \<longleftrightarrow> failure r"
  by (cases r) auto

lemma and_then_Returns: "and_then m (\<lambda>z. Some (Returns z)) = m"
  by (cases m) (auto simp: and_then_def split: outcome.split)

text \<open>The outcome of delivering \<open>v\<close> to a waiting program.\<close>

definition steps where
  "steps residue body st c i I w v r \<longleftrightarrow>
     (failure r \<longrightarrow> exec residue body (Job_Set w v) st = Some (as_failure r)) \<and>
     (\<forall>x. r = Returns (From_Val x) \<longrightarrow> delivers residue body st c i I w v x) \<and>
     (\<forall>q. r = Returns q \<longrightarrow> \<not> is_val q \<longrightarrow> suspends residue body st c i I w v q)"

lemma steps_simps [simp]:
  "failure r \<Longrightarrow> steps residue body st c i I w v r =
     (exec residue body (Job_Set w v) st = Some (as_failure r))"
  "steps residue body st c i I w v (Returns (From_Val x)) = delivers residue body st c i I w v x"
  "\<not> is_val q \<Longrightarrow> steps residue body st c i I w v (Returns q) = suspends residue body st c i I w v q"
  by (cases r; simp add: steps_def) (auto simp: steps_def)

lemma pend_steps:
  assumes "pend st c q i I w" and "locks_ok st" and "resumes body v q r"
  shows "steps residue body st c i I w v r"
  using assms
proof (induction arbitrary: r rule: pend.induct)
  case (pend_external i c l)
  then have "r = Returns (From_Val v)" by (auto elim: resumes.cases)
  moreover have "delivers residue body st c i {i} i v v"
    unfolding delivers_def
    by (intro exI [of _ st] exI [of _ id])
      (use pend_external in \<open>simp add: agree_refl quiet_def and_then_Returns\<close>)
  ultimately show ?case by simp
next
  case (pend_map f i q j J w c)
  from pend_map.prems(2) show ?case
  proof (cases rule: resumes.cases)
    case (resumes_map y)
    with pend_map have "delivers residue body st (Some (Set_Mapped f i)) j J w v y" by fastforce
    from delivers_call [OF this] pend_bound [OF pend_map.hyps(1)] pend_root [OF pend_map.hyps(1)]
    obtain st1 g where d: "agree J st st1" "locks_ok st1"
      "exec residue body (Job_Set w v) st =
        and_then (exec residue body (Job_Call (Set_Mapped f i) y) st1) (\<lambda>z. Some (Returns (g z)))"
      "\<And>z. quiet (J \<union> {length (states st)..<length (states st1)}) (snd z) (snd (g z))"
      by blast
    show ?thesis
    proof (cases "f y")
      case (Returns x)
      with d(3) have "exec residue body (Job_Set w v) st =
          and_then (exec residue body (Job_Set i x) st1) (\<lambda>z. Some (Returns (g z)))"
        by (simp add: exec_calls)
      from delivers_inner [OF d(1,2) pend_map.hyps(2,3) this d(4)] Returns resumes_map show ?thesis
        by simp
    qed (use d(3) resumes_map in \<open>simp_all add: exec_calls\<close>)
  next
    case (resumes_map_wait q')
    with pend_map have "suspends residue body st (Some (Set_Mapped f i)) j J w v q'" by fastforce
    from suspends_inner [OF this pend_map.hyps(2,3) pend.pend_map] resumes_map_wait show ?thesis by simp
  next
    case resumes_map_fail
    with pend_map show ?thesis by fastforce
  qed
next
  case (pend_flatmap k i q j J w c)
  note IH = pend_flatmap.IH [OF pend_flatmap.prems(1)]
  from pend_flatmap.prems(2) show ?case
  proof (cases rule: resumes.cases)
    case (resumes_flatmap y p)
    with IH have "delivers residue body st (Some (Continue k i)) j J w v y" by fastforce
    from delivers_call [OF this] pend_bound [OF pend_flatmap.hyps(1)] pend_root [OF pend_flatmap.hyps(1)]
    obtain st1 g where d: "agree J st st1" "locks_ok st1"
      "exec residue body (Job_Set w v) st =
        and_then (exec residue body (Job_Call (Continue k i) y) st1) (\<lambda>z. Some (Returns (g z)))"
      "\<And>z. quiet (J \<union> {length (states st)..<length (states st1)}) (snd z) (snd (g z))"
      by blast
    have i: "is_at i (fresh c) st1" by (rule is_at_agree [OF pend_flatmap.hyps(2) d(1) pend_flatmap.hyps(3)])
    have b: "builds residue body p r st1" by (rule settles_builds [OF resumes_flatmap(3) d(2)])
    have le: "length (states st) \<le> length (states st1)" using d(1) by (simp add: agree_def)
    show ?thesis
    proof (cases r)
      case (Returns q')
      with b have b': "built residue body p q' st1" by simp
      show ?thesis
      proof (cases "is_val q'")
        case True
        then obtain x where x: "q' = From_Val x" by (cases q') auto
        from continue_completed [OF b' [unfolded x] i resumes_flatmap(2)] obtain n st2 where
          c: "agree {} st1 st2" "locks_ok st2" "length (states st1) \<le> n" "n < length (states st2)"
          "exec residue body (Job_Call (Continue k i) y) st1 =
            and_then (exec residue body (Job_Set i x) st2) (\<lambda>(_, st3). Some (Returns (n, unlock n st3)))"
          by blast
        let ?g = "\<lambda>z. g (n, unlock n (snd z))"
        have e: "exec residue body (Job_Set w v) st =
            and_then (exec residue body (Job_Set i x) st2) (\<lambda>z. Some (Returns (?g z)))"
          by (simp add: d(3) c(5) and_then_assoc case_prod_beta')
        have q: "quiet (J \<union> {length (states st)..<length (states st2)}) (snd z) (snd (?g z))" for z
          by (rule quiet_trans [OF unlock_quiet d(4) [of "(n, unlock n (snd z))", simplified]])
            (use c(1,3,4) le in \<open>auto simp: agree_def\<close>)
        have a: "agree J st st2" by (rule agree_trans [OF d(1) c(1)]) simp
        from delivers_inner [OF a c(2) pend_flatmap.hyps(2,3) e q] Returns x show ?thesis by simp
      next
        case False
        from continue_waiting [OF b' False i resumes_flatmap(2)] obtain n st2 N w' where
          c: "exec residue body (Job_Call (Continue k i) y) st1 = Some (Returns (n, st2))"
          "agree {} st1 st2" "locks_ok st2" "pend st2 c q' i (insert i N) w'"
          "N \<subseteq> {length (states st1)..}"
          by blast
        have q: "quiet (J \<union> {length (states st)..<length (states st1)}) st2 (snd (g (n, st2)))"
          using d(4) [of "(n, st2)"] by simp
        have "J \<inter> N = {}" "{length (states st)..<length (states st1)} \<inter> N = {}"
          using pend_bound [OF pend_flatmap.hyps(1)] c(5) le by force+
        then have "pend (snd (g (n, st2))) c q' i (insert i N) w'"
          using pend_flatmap.hyps(2,3) q
            pend_frame [OF c(4), of "J \<union> {length (states st)..<length (states st1)}" "snd (g (n, st2))"]
          by (auto simp: quiet_def is_at_def Int_Un_distrib2)
        moreover have "agree (insert i J) st (snd (g (n, st2)))"
          by (rule agree_trans [OF agree_trans [OF d(1) c(2) subset_refl]])
            (use q in \<open>auto simp: quiet_def\<close>)
        moreover have "locks_ok (snd (g (n, st2)))" by (rule locks_ok_quiet [OF c(3) q])
        moreover have "insert i N \<subseteq> insert i J \<union> {length (states st)..}" using c(5) le by auto
        ultimately have "suspends residue body st c i (insert i J) w v q'"
          unfolding suspends_def using d(3) c(1) by (intro exI [of _ "g (n, st2)"]) fastforce
        with Returns False show ?thesis by simp
      qed
    qed (use b d(3) resumes_flatmap(2) in \<open>simp_all add: exec_calls\<close>)
  next
    case (resumes_flatmap_throw y)
    with IH have "delivers residue body st (Some (Continue k i)) j J w v y" by fastforce
    from delivers_call [OF this] pend_bound [OF pend_flatmap.hyps(1)] pend_root [OF pend_flatmap.hyps(1)]
    obtain st1 g where d: "agree J st st1"
      "exec residue body (Job_Set w v) st =
        and_then (exec residue body (Job_Call (Continue k i) y) st1) (\<lambda>z. Some (Returns (g z)))"
      by auto
    with resumes_flatmap_throw show ?thesis by (simp add: exec_calls)
  next
    case (resumes_flatmap_wait q')
    with IH have "suspends residue body st (Some (Continue k i)) j J w v q'" by fastforce
    from suspends_inner [OF this pend_flatmap.hyps(2,3) pend.pend_flatmap] resumes_flatmap_wait
    show ?thesis by simp
  next
    case resumes_flatmap_fail
    with IH show ?thesis by fastforce
  qed
next
  case (pend_forward i q j J w c)
  then have s: "steps residue body st (Some (Forward i)) j J w v r" by blast
  show ?case
  proof (cases r)
    case (Returns q')
    show ?thesis
    proof (cases "is_val q'")
      case True
      then obtain x where x: "q' = From_Val x" by (cases q') auto
      with s Returns have "delivers residue body st (Some (Forward i)) j J w v x" by simp
      from delivers_call [OF this] pend_bound [OF pend_forward.hyps(1)] pend_root [OF pend_forward.hyps(1)]
      obtain st1 g where d: "agree J st st1" "locks_ok st1"
        "exec residue body (Job_Set w v) st =
          and_then (exec residue body (Job_Call (Forward i) x) st1) (\<lambda>z. Some (Returns (g z)))"
        "\<And>z. quiet (J \<union> {length (states st)..<length (states st1)}) (snd z) (snd (g z))"
        by blast
      from delivers_inner [OF d(1,2) pend_forward.hyps(2,3) _ d(4)] d(3) Returns x show ?thesis
        by (simp add: exec_calls)
    next
      case False
      with s Returns have "suspends residue body st (Some (Forward i)) j J w v q'" by simp
      from suspends_inner [OF this pend_forward.hyps(2,3) pend.pend_forward] Returns False
      show ?thesis by simp
    qed
  qed (use s in simp_all)
qed

end
