(* ===== verification/Futures_Refine.thy ===== *)
theory Futures_Refine
  imports Futures_Sim
begin

text \<open>
  Many clients on one store: the simulation of asynchronous programs by the library, and what
  becomes of exceptions.
\<close>

section \<open>Clients\<close>

text \<open>A client builds a future and registers a callback with it.\<close>

definition launch ::
  "('v \<Rightarrow> 'v) \<Rightarrow> ('k \<Rightarrow> 'v \<Rightarrow> ('v, 'k, 'l) prog outcome) \<Rightarrow> 'u \<Rightarrow> ('v, 'k, 'l) prog \<Rightarrow>
     ('v, 'k, 'l, 'u) store \<Rightarrow> (nat \<times> ('v, 'k, 'l, 'u) store) outcome option" where
  "launch residue body u p st =
     and_then (exec residue body (Job_Build p) st) (\<lambda>(i, st).
       exec residue body (Job_On_Complete i (User u)) st)"

text \<open>\<open>ps\<close> are the programs of the clients that wait; their states are disjoint.\<close>

definition reps where
  "reps ps i I w st \<longleftrightarrow> locks_ok st \<and>
     (\<forall>u q. ps u = Some q \<longrightarrow> pend st (Some (User u)) q (i u) (I u) (w u)) \<and>
     (\<forall>u u'. ps u \<noteq> None \<longrightarrow> ps u' \<noteq> None \<longrightarrow> u \<noteq> u' \<longrightarrow> I u \<inter> I u' = {})"

definition represents :: "('u \<Rightarrow> ('v, 'k, 'l) prog option) \<Rightarrow> ('v, 'k, 'l, 'u) store \<Rightarrow> bool" where
  "represents ps st \<longleftrightarrow> (\<exists>i I w. reps ps i I w st)"

definition new_store :: "('v, 'k, 'l, 'u) store" where
  "new_store = \<lparr>states = [], locks = {}, externals = [], calls = [], posted = []\<rparr>"

lemma represents_new: "represents (\<lambda>u. None) new_store"
  by (simp add: represents_def reps_def locks_ok_def new_store_def)

text \<open>The waiting programs a change of the store does not touch.\<close>

definition keeps :: "nat set \<Rightarrow> ('v, 'k, 'l, 'u) store \<Rightarrow> ('v, 'k, 'l, 'u) store \<Rightarrow> bool" where
  "keeps E st st' \<longleftrightarrow> length (states st) \<le> length (states st') \<and>
     (\<forall>c q i I w. pend st c q i I w \<longrightarrow> I \<inter> E = {} \<longrightarrow> pend st' c q i I w)"

lemma keeps_agree: "agree E st st' \<Longrightarrow> keeps E st st'"
  unfolding keeps_def
proof (intro conjI allI impI)
  assume a: "agree E st st'"
  then show "length (states st) \<le> length (states st')" by (simp add: agree_def)
  show "pend st' c q i I w" if "pend st c q i I w" "I \<inter> E = {}" for c q i I w
    using pend_frame [OF that(1) a] that(2) by (simp add: Int_commute)
qed

lemma keeps_trans:
  assumes "keeps E st st1" and "keeps E' st1 st2" and "E \<union> (E' \<inter> {..<length (states st)}) \<subseteq> E''"
  shows "keeps E'' st st2"
  unfolding keeps_def
proof (intro conjI allI impI)
  show "length (states st) \<le> length (states st2)" using assms(1,2) by (simp add: keeps_def)
  fix c q i I w
  assume p: "pend st c q i I w" and I: "I \<inter> E'' = {}"
  have "I \<inter> E = {}" "I \<inter> E' = {}" using pend_bound [OF p] I assms(3) by blast+
  with p assms(1,2) show "pend st2 c q i I w" by (auto simp: keeps_def)
qed

lemma pend_calls: "pend st c q i I w \<Longrightarrow> pend (st\<lparr>calls := cs\<rparr>) c q i I w"
proof (induction rule: pend.induct)
  case (pend_external i c l)
  then show ?case by (auto intro: pend.pend_external simp: is_at_def)
next
  case (pend_map f i q j J w c)
  then show ?case by (auto intro: pend.pend_map simp: is_at_def)
next
  case (pend_flatmap k i q j J w c)
  then show ?case by (auto intro: pend.pend_flatmap simp: is_at_def)
next
  case (pend_forward i q j J w c)
  then show ?case by (auto intro: pend.pend_forward simp: is_at_def)
qed

lemma keeps_calls: "keeps {} st (st\<lparr>calls := cs\<rparr>)"
  by (simp add: keeps_def pend_calls)

lemma represents_drop:
  assumes "reps ps i I w st" and "keeps E st st'" and "locks_ok st'"
    and "\<And>u'. u' \<noteq> u \<Longrightarrow> ps u' \<noteq> None \<Longrightarrow> I u' \<inter> E = {}"
  shows "represents (ps(u := None)) st'"
proof -
  have "reps (ps(u := None)) i I w st'"
    using assms unfolding reps_def keeps_def by (auto split: if_splits)
  then show ?thesis by (auto simp: represents_def)
qed

lemma represents_place:
  assumes "reps ps i I w st" and "keeps E st st'" and "locks_ok st'"
    and "\<And>u'. u' \<noteq> u \<Longrightarrow> ps u' \<noteq> None \<Longrightarrow> I u' \<inter> E = {} \<and> I u' \<inter> I0 = {}"
    and "pend st' (Some (User u)) q i0 I0 w0"
  shows "represents (ps(u \<mapsto> q)) st'"
proof -
  have "pend st' (Some (User u')) q' (i u') (I u') (w u')" if "ps u' = Some q'" "u' \<noteq> u" for u' q'
    using assms(1,2) assms(4) [of u'] that by (auto simp: reps_def keeps_def)
  moreover have "I u1 \<inter> I u2 = {}" if "ps u1 \<noteq> None" "ps u2 \<noteq> None" "u1 \<noteq> u2" for u1 u2
    using assms(1) that by (simp add: reps_def)
  ultimately have "reps (ps(u \<mapsto> q)) (i(u := i0)) (I(u := I0)) (w(u := w0)) st'"
    using assms(3,5) assms(4) unfolding reps_def by (simp add: Int_commute)
  then show ?thesis by (auto simp: represents_def)
qed

text \<open>What serving a client comes to.\<close>

definition served where
  "served ps u r st R \<longleftrightarrow>
     (failure r \<longrightarrow> R = Some (as_failure r)) \<and>
     (\<forall>x. r = Returns (From_Val x) \<longrightarrow> (\<exists>z. R = Some (Returns z) \<and>
        calls (snd z) = calls st @ [(u, x)] \<and> represents (ps(u := None)) (snd z))) \<and>
     (\<forall>q. r = Returns q \<longrightarrow> \<not> is_val q \<longrightarrow> (\<exists>z. R = Some (Returns z) \<and>
        calls (snd z) = calls st \<and> represents (ps(u \<mapsto> q)) (snd z)))"

lemma served_simps [simp]:
  "failure r \<Longrightarrow> served ps u r st R = (R = Some (as_failure r))"
  "served ps u (Returns (From_Val x)) st R = (\<exists>z. R = Some (Returns z) \<and>
     calls (snd z) = calls st @ [(u, x)] \<and> represents (ps(u := None)) (snd z))"
  "\<not> is_val q \<Longrightarrow> served ps u (Returns q) st R = (\<exists>z. R = Some (Returns z) \<and>
     calls (snd z) = calls st \<and> represents (ps(u \<mapsto> q)) (snd z))"
  by (cases r; simp add: served_def) (auto simp: served_def)

text \<open>A client's callback, called for the state \<open>i\<close>.\<close>

lemma user_called:
  assumes "is_at i s st" and "locks_ok st"
    and st1_def: "st1 = (enter_call residue i x st)\<lparr>calls := calls st @ [(u, x)]\<rparr>"
  shows "exec residue body (Job_Call (User u) x) (enter_call residue i x st) = Some (Returns (0, st1))"
    and "keeps {i} st st1" and "locks_ok st1" and "length (states st1) = length (states st)"
proof -
  show "exec residue body (Job_Call (User u) x) (enter_call residue i x st) = Some (Returns (0, st1))"
    by (simp add: exec_call_user st1_def enter_call_def)
  show "keeps {i} st st1" unfolding st1_def
    by (rule keeps_trans [OF keeps_agree [OF enter_call_agree] keeps_calls]) simp
  show "length (states st1) = length (states st)" by (simp add: st1_def)
  have "locks_ok (enter_call residue i x st)"
    using enter_call_locks_ok assms(1,2) by (auto simp: is_at_def)
  then show "locks_ok st1" by (simp add: locks_ok_def st1_def)
qed

lemma launch_served:
  assumes "represents ps st" and "ps u = None" and "settles body p r"
  shows "served ps u r st (launch residue body u p st)"
proof -
  from assms(1) obtain i I w where R: "reps ps i I w st" by (auto simp: represents_def)
  then have l: "locks_ok st" by (simp add: reps_def)
  have old: "I u' \<subseteq> {..<length (states st)}" if "ps u' \<noteq> None" for u'
    using R that pend_bound by (fastforce simp: reps_def)
  have b: "builds residue body p r st" by (rule settles_builds [OF assms(3) l])
  show ?thesis
  proof (cases r)
    case (Returns q)
    with b have b': "built residue body p q st" by simp
    show ?thesis
    proof (cases "is_val q")
      case True
      then obtain x where x: "q = From_Val x" by (cases q) auto
      with b' obtain j st1 where d: "exec residue body (Job_Build p) st = Some (Returns (j, st1))"
        "agree {} st st1" "locks_ok st1" "length (states st) \<le> j" "is_at j (completed x) st1"
        by (auto simp: built_val)
      define st2 where "st2 = (enter_call residue j x st1)\<lparr>calls := calls st1 @ [(u, x)]\<rparr>"
      note c = user_called [OF d(5,3) st2_def]
      have e: "launch residue body u p st = Some (Returns (j, unlock j st2))"
        by (simp add: launch_def d(1) exec_on_complete_completed [OF d(5)] c(1))
      have "keeps {j} st (unlock j st2)"
        by (rule keeps_trans [OF keeps_trans [OF keeps_agree [OF d(2)] c(2), of "{j}"] keeps_agree])
          (use unlock_quiet [of j st2] in \<open>auto simp: quiet_def\<close>)
      moreover have "locks_ok (unlock j st2)" by (rule locks_ok_quiet [OF c(3) unlock_quiet])
      ultimately have "represents (ps(u := None)) (unlock j st2)"
        using old d(4) by (intro represents_drop [OF R]) fastforce+
      moreover have "calls (unlock j st2) = calls st @ [(u, x)]"
        using d(2) by (simp add: st2_def agree_def)
      ultimately show ?thesis using e Returns x by auto
    next
      case False
      with b' obtain j st1 J w0 where d: "exec residue body (Job_Build p) st = Some (Returns (j, st1))"
        "agree {} st st1" "locks_ok st1" "pend st1 None q j J w0" "J \<subseteq> {length (states st)..}"
        by (auto simp: built_wait)
      let ?st = "put j (fresh (Some (User u))) st1"
      have j: "is_at j (fresh None) st1" "j \<in> J" using pend_root [OF d(4)] by auto
      have q: "quiet {j} st1 ?st" by (rule put_quiet)
      have e: "launch residue body u p st = Some (Returns (j, ?st))"
        by (simp add: launch_def d(1) exec_on_complete_waiting [OF j(1)])
      have "keeps {j} st ?st"
        by (rule keeps_trans [OF keeps_agree [OF d(2)] keeps_agree]) (use q in \<open>auto simp: quiet_def\<close>)
      then have "represents (ps(u \<mapsto> q)) ?st"
        using old j(2) d(5) locks_ok_quiet [OF d(3) q] pend_register [OF d(4), of "Some (User u)"]
        by (intro represents_place [OF R, of "{j}" _ u J q j w0]) fastforce+
      moreover have "calls ?st = calls st" using d(2) by (simp add: agree_def)
      ultimately show ?thesis using e Returns False by auto
    qed
  qed (use b in \<open>simp_all add: launch_def\<close>)
qed


lemma deliver_served:
  assumes "reps ps i I w st" and "ps u = Some q" and "resumes body v q r"
  shows "served ps u r st (exec residue body (Job_Set (w u) v) st)"
proof -
  from assms(1,2) have l: "locks_ok st" and p: "pend st (Some (User u)) q (i u) (I u) (w u)"
    by (auto simp: reps_def)
  have other: "I u' \<inter> I u = {} \<and> I u' \<subseteq> {..<length (states st)}" if "u' \<noteq> u" "ps u' \<noteq> None" for u'
    using assms(1,2) that pend_bound by (fastforce simp: reps_def)
  have s: "steps residue body st (Some (User u)) (i u) (I u) (w u) v r"
    by (rule pend_steps [OF p l assms(3)])
  have root: "i u \<in> I u" using pend_root [OF p] by blast
  show ?thesis
  proof (cases r)
    case (Returns q')
    show ?thesis
    proof (cases "is_val q'")
      case True
      then obtain x where x: "q' = From_Val x" by (cases q') auto
      with s Returns have "delivers residue body st (Some (User u)) (i u) (I u) (w u) v x" by simp
      then obtain st2 g where d: "agree (I u) st st2" "locks_ok st2"
        "is_at (i u) (fresh (Some (User u))) st2"
        "exec residue body (Job_Set (w u) v) st =
          and_then (exec residue body (Job_Set (i u) x) st2) (\<lambda>z. Some (Returns (g z)))"
        "\<And>z. quiet ((I u \<union> {length (states st)..<length (states st2)}) - {i u}) (snd z) (snd (g z))"
        unfolding delivers_def by blast
      define st3 where "st3 = (enter_call residue (i u) x st2)\<lparr>calls := calls st2 @ [(u, x)]\<rparr>"
      note c = user_called [OF d(3,2) st3_def]
      let ?z = "g (i u, leave_set (i u) st3)"
      have e: "exec residue body (Job_Set (w u) v) st = Some (Returns ?z)"
        by (simp add: d(4) exec_set_callback [OF d(3)] c(1))
      have q: "quiet (I u \<union> {length (states st)..<length (states st2)}) st3 (snd ?z)"
        by (rule quiet_trans [OF leave_set_quiet d(5) [of "(i u, leave_set (i u) st3)", simplified]])
          (use root in auto)
      have "keeps (I u \<union> {length (states st)..}) st (snd ?z)"
        by (rule keeps_trans [OF keeps_trans [OF keeps_agree [OF d(1)] c(2) subset_refl] keeps_agree])
          (use q root in \<open>auto simp: quiet_def\<close>)
      then have "represents (ps(u := None)) (snd ?z)"
        using other locks_ok_quiet [OF c(3) q] by (intro represents_drop [OF assms(1)]) fastforce+
      moreover have "calls (snd ?z) = calls st @ [(u, x)]"
        using q d(1) by (simp add: quiet_def agree_def st3_def)
      ultimately show ?thesis using e Returns x by auto
    next
      case False
      with s Returns obtain z I' w' where d: "exec residue body (Job_Set (w u) v) st = Some (Returns z)"
        "pend (snd z) (Some (User u)) q' (i u) I' w'" "I' \<subseteq> I u \<union> {length (states st)..}"
        "agree (I u) st (snd z)" "locks_ok (snd z)"
        by (auto simp: suspends_def)
      have "I u' \<inter> I u = {} \<and> I u' \<inter> I' = {}" if "u' \<noteq> u" "ps u' \<noteq> None" for u'
        using other [OF that] d(3) by fastforce
      then have "represents (ps(u \<mapsto> q')) (snd z)"
        using d(2,5) keeps_agree [OF d(4)] by (intro represents_place [OF assms(1)])
      moreover have "calls (snd z) = calls st" using d(4) by (simp add: agree_def)
      ultimately show ?thesis using d(1) Returns False by auto
    qed
  qed (use s in simp_all)
qed

section \<open>Runs\<close>

text \<open>
  The specification: clients launch programs, and the environment delivers values to the waiting
  ones, in any order. A configuration is the waiting programs and the calls made.
\<close>

datatype ('v, 'k, 'l, 'u) event = Launch 'u "('v, 'k, 'l) prog" | Deliver 'u 'v

fun place :: "'u \<Rightarrow> ('v, 'k, 'l) prog \<Rightarrow> ('u \<Rightarrow> ('v, 'k, 'l) prog option) \<times> ('u \<times> 'v) list \<Rightarrow>
    ('u \<Rightarrow> ('v, 'k, 'l) prog option) \<times> ('u \<times> 'v) list" where
  "place u (From_Val x) (ps, cs) = (ps(u := None), cs @ [(u, x)])"
| "place u q (ps, cs) = (ps(u \<mapsto> q), cs)"

inductive spec_run for body where
  spec_start: "spec_run body [] (\<lambda>u. None, [])"
| spec_launch: "spec_run body es (ps, cs) \<Longrightarrow> ps u = None \<Longrightarrow> settles body p (Returns r) \<Longrightarrow>
    spec_run body (es @ [Launch u p]) (place u r (ps, cs))"
| spec_deliver: "spec_run body es (ps, cs) \<Longrightarrow> ps u = Some q \<Longrightarrow> resumes body v q (Returns r) \<Longrightarrow>
    spec_run body (es @ [Deliver u v]) (place u r (ps, cs))"

text \<open>
  The library: \<open>Deliver u v\<close> sets the promise that was given to the environment for what the
  client's future waits for.
\<close>

inductive lib_run for residue body where
  lib_start: "lib_run residue body [] new_store"
| lib_launch: "lib_run residue body es st \<Longrightarrow> launch residue body u p st = Some (Returns (n, st')) \<Longrightarrow>
    lib_run residue body (es @ [Launch u p]) st'"
| lib_deliver: "lib_run residue body es st \<Longrightarrow> pend st (Some (User u)) q i I w \<Longrightarrow>
    exec residue body (Job_Set w v) st = Some (Returns (n, st')) \<Longrightarrow>
    lib_run residue body (es @ [Deliver u v]) st'"

lemma served_place:
  assumes "served ps u (Returns r) st R" and "calls st = cs"
  shows "\<exists>n st'. R = Some (Returns (n, st')) \<and> calls st' = snd (place u r (ps, cs)) \<and>
    represents (fst (place u r (ps, cs))) st'"
proof (cases "is_val r")
  case True
  then obtain x where "r = From_Val x" by (cases r) auto
  with assms show ?thesis by auto
next
  case False
  then have "place u r (ps, cs) = (ps(u \<mapsto> r), cs)" by (cases r) auto
  with assms False show ?thesis by auto
qed

section \<open>Properties\<close>

text \<open>
  Property C8: futures implement asynchronous programs. For every run of the specification the
  library has the same run: building the futures of a program, however deeply \<open>map\<close> and \<open>flatmap\<close>
  are nested and wherever values are there already, and setting the promises the environment
  holds, for any number of clients interleaved in any order, always returns, never locks a mutex
  twice nor calls an empty function, and calls each client's callback exactly when its program
  ends, once, with its value. The futures of different clients do not interfere.
\<close>

theorem futures_refine_programs:
  assumes "spec_run body es c"
  shows "\<exists>st. lib_run residue body es st \<and> calls st = snd c \<and> represents (fst c) st"
  using assms
proof (induction rule: spec_run.induct)
  case spec_start
  have "calls new_store = []" by (simp add: new_store_def)
  then show ?case using lib_start represents_new by fastforce
next
  case (spec_launch es ps cs u p r)
  then obtain st where st: "lib_run residue body es st" "calls st = cs" "represents ps st" by auto
  from served_place [OF launch_served [OF st(3) spec_launch.hyps(2,3)] st(2)]
  show ?case using lib_launch [OF st(1)] by blast
next
  case (spec_deliver es ps cs u q v r)
  then obtain st where st: "lib_run residue body es st" "calls st = cs" "represents ps st" by auto
  from st(3) obtain i I w where R: "reps ps i I w st" by (auto simp: represents_def)
  with spec_deliver.hyps(2) have p: "pend st (Some (User u)) q (i u) (I u) (w u)"
    by (simp add: reps_def)
  from served_place [OF deliver_served [OF R spec_deliver.hyps(2,3)] st(2)]
  show ?case using lib_deliver [OF st(1) p] by blast
qed

text \<open>A handler that reads two numbers and answers with their sum and a constant.\<close>

definition sum_body :: "nat \<Rightarrow> nat \<Rightarrow> (nat, nat, string) prog outcome" where
  "sum_body k v = Returns (if k = 0 then Map_F (External ''second'') (\<lambda>w. Returns (v + w))
     else From_Val (v + 100))"

abbreviation sum_prog :: "(nat, nat, string) prog" where
  "sum_prog \<equiv> Flatmap_F (Flatmap_F (External ''first'') 0) 1"

lemma sum_resume:
  "settles sum_body sum_prog (Returns sum_prog)"
  "resumes sum_body 20 sum_prog
     (Returns (Flatmap_F (Map_F (External ''second'') (\<lambda>w. Returns (20 + w))) 1))"
  "resumes sum_body 22 (Flatmap_F (Map_F (External ''second'') (\<lambda>w. Returns (20 + w))) 1)
     (Returns (From_Val 142))"
proof -
  show "settles sum_body sum_prog (Returns sum_prog)"
    by (intro settles.intros(8) settles_external) simp_all
  have "settles sum_body (Map_F (External ''second'') (\<lambda>w. Returns (20 + w)))
      (Returns (Map_F (External ''second'') (\<lambda>w. Returns (20 + w))))"
    by (intro settles_map_wait settles_external) simp
  then have "resumes sum_body 20 (Flatmap_F (External ''first'') 0)
      (Returns (Map_F (External ''second'') (\<lambda>w. Returns (20 + w))))"
    by (intro resumes_flatmap [OF resumes_external]) (simp add: sum_body_def)
  then show "resumes sum_body 20 sum_prog
     (Returns (Flatmap_F (Map_F (External ''second'') (\<lambda>w. Returns (20 + w))) 1))"
    by (rule resumes_flatmap_wait) simp
  have "resumes sum_body 22 (Map_F (External ''second'') (\<lambda>w. Returns (20 + w)))
      (Returns (From_Val 42))"
    using resumes_map [OF resumes_external, of sum_body 22 "''second''" "\<lambda>w. Returns (20 + w)"] by simp
  then show "resumes sum_body 22 (Flatmap_F (Map_F (External ''second'') (\<lambda>w. Returns (20 + w))) 1)
     (Returns (From_Val 142))"
    by (rule resumes_flatmap) (auto simp: sum_body_def intro: settles_val)
qed

theorem futures_refine_programs_witness:
  "\<exists>st. lib_run id sum_body [Launch () sum_prog, Deliver () 20, Deliver () 22] st \<and>
    calls st = [((), 142)]"
proof -
  let ?p = "Flatmap_F (Map_F (External ''second'') (\<lambda>w. Returns (20 + w))) 1 :: (nat, nat, string) prog"
  have "spec_run sum_body ([] @ [Launch () sum_prog]) (place () sum_prog (\<lambda>u. None, []))"
    by (rule spec_launch [OF spec_start _ sum_resume(1)]) simp
  then have "spec_run sum_body [Launch () sum_prog] ([() \<mapsto> sum_prog], [])" by simp
  then have "spec_run sum_body ([Launch () sum_prog] @ [Deliver () 20]) (place () ?p ([() \<mapsto> sum_prog], []))"
    by (rule spec_deliver [OF _ _ sum_resume(2)]) simp
  then have "spec_run sum_body [Launch () sum_prog, Deliver () 20] ([() \<mapsto> ?p], [])"
    by (simp add: fun_upd_def)
  then have "spec_run sum_body ([Launch () sum_prog, Deliver () 20] @ [Deliver () 22])
      (place () (From_Val 142) ([() \<mapsto> ?p], []))"
    by (rule spec_deliver [OF _ _ sum_resume(3)]) simp
  from futures_refine_programs [OF this, of id] show ?thesis by auto
qed

text \<open>
  Exceptions. An exception of a function given to \<open>map\<close> or \<open>flatmap\<close> is caught
  nowhere: it leaves the call that built the future, or the call of the promise the environment
  holds, whichever made the function run.
\<close>

lemma futures_propagate_exceptions:
  assumes "represents ps st"
  shows "(ps u = None \<and> settles body p (Throws e) \<longrightarrow>
      launch residue body u p st = Some (Throws e)) \<and>
    (ps u = Some q \<and> resumes body v q (Throws e) \<longrightarrow>
      (\<exists>i I w l. pend st (Some (User u)) q i I w \<and> (l, w) \<in> set (externals st) \<and>
        exec residue body (Job_Set w v) st = Some (Throws e)))"
proof (intro conjI impI)
  assume "ps u = None \<and> settles body p (Throws e)"
  with launch_served [OF assms, of u body p "Throws e" residue]
  show "launch residue body u p st = Some (Throws e)" by simp
next
  assume *: "ps u = Some q \<and> resumes body v q (Throws e)"
  from assms obtain i I w where R: "reps ps i I w st" by (auto simp: represents_def)
  with * have p: "pend st (Some (User u)) q (i u) (I u) (w u)" by (simp add: reps_def)
  from deliver_served [OF R conjunct1 [OF *] conjunct2 [OF *], of residue] pend_waits [OF p] p
  show "\<exists>i I w l. pend st (Some (User u)) q i I w \<and> (l, w) \<in> set (externals st) \<and>
      exec residue body (Job_Set w v) st = Some (Throws e)" by auto
qed

abbreviation throw_prog :: "(nat, nat, string) prog" where
  "throw_prog \<equiv> Map_F (External ''length'') (\<lambda>v. Throws Bad_optional_access)"

lemma futures_propagate_exceptions_witness:
  "\<exists>st i I w. represents [() \<mapsto> throw_prog] st \<and> pend st (Some (User ())) throw_prog i I w \<and>
    exec id sum_body (Job_Set w 5) st = Some (Throws Bad_optional_access)"
proof -
  have "settles sum_body throw_prog (Returns throw_prog)"
    by (intro settles_map_wait settles_external) simp
  from launch_served [OF represents_new _ this, of "()" id] obtain st where
    st: "represents [() \<mapsto> throw_prog] st" by auto
  have "resumes sum_body 5 throw_prog (Throws Bad_optional_access)"
    using resumes_map [OF resumes_external, of sum_body 5 "''length''" "\<lambda>v. Throws Bad_optional_access"]
    by simp
  with futures_propagate_exceptions [OF st, of "()" sum_body throw_prog Bad_optional_access id throw_prog 5] st
  show ?thesis by auto
qed

end
