(* ===== verification/Thread_Pool.thy ===== *)
theory Thread_Pool
  imports Mpmc_Queue "HOL-Library.Multiset"
begin

text \<open>
  \<open>executors/StaticThreadPool.hpp\<close>: a fixed number of worker threads that take tasks from a
  channel until they take an empty message, and the owner that sends one empty message for each
  worker and joins them. The pool is a step relation over the channel's: every send and receive
  is a step of \<open>mpmc_step\<close>, taken by the thread it belongs to.
\<close>

section \<open>The pool\<close>

text \<open>What a worker is doing: about to call \<open>recv\<close>, inside it, running a task, leaving the loop,
  ended; or ended by an exception, which terminates the program.\<close>

datatype 'a worker = Ready | Receiving | Executing 'a | Stopping | Exited | Crashed exn

text \<open>Where the owner is: \<open>Closing k\<close> has sent \<open>k\<close> empty messages, \<open>Joining j\<close> has joined \<open>j\<close>
  workers. After \<open>Shut\<close> the vector of workers is empty.\<close>

datatype phase = Open | Closing nat | Joining nat | Shut

text \<open>\<open>finished\<close> lists the tasks that were run; \<open>before\<close> is a record of the tasks accepted when
  the shutdown began, and \<open>accepted\<close> of all messages accepted, \<open>taken\<close> of those taken.\<close>

record 'a pool =
  sys :: "'a option system"
  worker :: "nat \<Rightarrow> 'a worker"
  phase :: phase
  finished :: "'a list"
  before :: "'a option list"
  accepted :: "'a option list"
  taken :: "'a option list"

text \<open>
  \<open>create\<close>: the channel's handles are copied into the constructor's parameters, the sender into the
  pool, the receiver once for each worker; then the parameters and the local handles go.
\<close>

definition create_actions :: "nat \<Rightarrow> 'a action list" where
  "create_actions n =
     [Clone_Sender, Clone_Receiver, Clone_Sender] @ replicate n Clone_Receiver @
     [Drop_Receiver, Drop_Sender, Drop_Receiver, Drop_Sender]"

definition created :: "nat \<Rightarrow> 'a option heap \<Rightarrow> 'a pool \<Rightarrow> bool" where
  "created n h p \<longleftrightarrow> mpmc_run (channel h) (create_actions n) (sys p) \<and>
     worker p = (\<lambda>i. Ready) \<and> phase p = Open \<and> finished p = [] \<and> before p = [] \<and>
     accepted p = [] \<and> taken p = []"

text \<open>\<open>create_default\<close>: the argument is what \<open>hardware_concurrency\<close> returns.\<close>

definition default_threads :: "nat \<Rightarrow> nat" where
  "default_threads hardware_concurrency =
     (if hardware_concurrency = 0 then 4 else hardware_concurrency)"

definition set_worker :: "nat \<Rightarrow> 'a worker \<Rightarrow> 'a pool \<Rightarrow> 'a pool" where
  "set_worker i w p = p\<lparr>worker := (worker p)(i := w)\<rparr>"

text \<open>What a worker does with what \<open>recv\<close> returned.\<close>

fun dispatch :: "('a option, closed) res \<Rightarrow> 'a worker" where
  "dispatch (Err Closed) = Crashed (Logic_error ''mpmc closed in static thread pool'')"
| "dispatch (Ok None) = Stopping"
| "dispatch (Ok (Some t)) = Executing t"

text \<open>What \<open>execute\<close> does with what \<open>send\<close> returned.\<close>

fun execute_result :: "(unit, closed) res \<Rightarrow> unit outcome" where
  "execute_result (Ok u) = Returns ()"
| "execute_result (Err Closed) = Throws (Logic_error ''mpmc closed in static thread pool'')"

datatype 'a pool_action =
    Execute nat 'a "unit outcome"
  | Call_Recv nat
  | Recv_Wait nat
  | Recv_Wake nat
  | Recv_Return nat
  | Run_Task nat
  | Exit nat
  | Begin_Shutdown
  | Send_Stop nat
  | Join
  | End_Shutdown

text \<open>
  \<open>Execute\<close> is called by any thread that is not a worker, or by the task a worker runs. The
  owner's own calls come from a thread \<open>i\<close> that is not a worker. A worker that leaves its loop
  destroys its receiver.
\<close>

inductive pool_step :: "nat \<Rightarrow> 'a pool \<Rightarrow> 'a pool_action \<Rightarrow> 'a pool \<Rightarrow> bool" for n where
  pool_execute: "(i < n \<Longrightarrow> \<exists>t'. worker p i = Executing t') \<Longrightarrow>
     mpmc_step (sys p) (Send i (Some t) r) s \<Longrightarrow>
     pool_step n p (Execute i t (execute_result r))
       (p\<lparr>sys := s, accepted := accepted p @ sent_by (Send i (Some t) r)\<rparr>)"
| pool_call_recv: "i < n \<Longrightarrow> worker p i = Ready \<Longrightarrow> mpmc_step (sys p) (Enter i) s \<Longrightarrow>
     pool_step n p (Call_Recv i) (set_worker i Receiving (p\<lparr>sys := s\<rparr>))"
| pool_wait: "mpmc_step (sys p) (Wait i) s \<Longrightarrow> pool_step n p (Recv_Wait i) (p\<lparr>sys := s\<rparr>)"
| pool_wake: "mpmc_step (sys p) (Wake_Up i) s \<Longrightarrow> pool_step n p (Recv_Wake i) (p\<lparr>sys := s\<rparr>)"
| pool_recv: "mpmc_step (sys p) (Recv i r) s \<Longrightarrow>
     pool_step n p (Recv_Return i)
       (set_worker i (dispatch r) (p\<lparr>sys := s, taken := taken p @ received_by (Recv i r)\<rparr>))"
| pool_run: "i < n \<Longrightarrow> worker p i = Executing t \<Longrightarrow>
     pool_step n p (Run_Task i) (set_worker i Ready (p\<lparr>finished := finished p @ [t]\<rparr>))"
| pool_exit: "i < n \<Longrightarrow> worker p i = Stopping \<Longrightarrow> mpmc_step (sys p) Drop_Receiver s \<Longrightarrow>
     pool_step n p (Exit i) (set_worker i Exited (p\<lparr>sys := s\<rparr>))"
| pool_begin: "phase p = Open \<Longrightarrow>
     pool_step n p Begin_Shutdown (p\<lparr>phase := Closing 0, before := accepted p\<rparr>)"
| pool_stop: "phase p = Closing k \<Longrightarrow> k < n \<Longrightarrow> n \<le> i \<Longrightarrow>
     mpmc_step (sys p) (Send i None r) s \<Longrightarrow>
     pool_step n p (Send_Stop i)
       (p\<lparr>sys := s, phase := Closing (k + 1), accepted := accepted p @ sent_by (Send i None r)\<rparr>)"
| pool_sent: "phase p = Closing n \<Longrightarrow> pool_step n p Join (p\<lparr>phase := Joining 0\<rparr>)"
| pool_join: "phase p = Joining j \<Longrightarrow> j < n \<Longrightarrow> worker p j = Exited \<Longrightarrow>
     pool_step n p Join (p\<lparr>phase := Joining (j + 1)\<rparr>)"
| pool_end: "phase p = Joining n \<Longrightarrow> pool_step n p End_Shutdown (p\<lparr>phase := Shut\<rparr>)"

inductive pool_reach :: "nat \<Rightarrow> 'a pool \<Rightarrow> 'a pool \<Rightarrow> bool" for n where
  reach_refl: "pool_reach n p p"
| reach_step: "pool_reach n p q \<Longrightarrow> pool_step n q a r \<Longrightarrow> pool_reach n p r"

end
