(* ===== verification/Thread_Pool_Proof.thy ===== *)
theory Thread_Pool_Proof
  imports Thread_Pool
begin

text \<open>
  The invariant of the thread pool, over the channel's, and what it gives: every task accepted
  before a shutdown is run, and a shutdown can always end. The proofs use the channel only
  through the lemmas about its steps (\<open>send_effect\<close> to \<open>clone_effect\<close>, \<open>mpmc_step_inv\<close>).
\<close>

section \<open>Counting workers\<close>

definition tally :: "nat \<Rightarrow> ('w \<Rightarrow> 'm :: comm_monoid_add) \<Rightarrow> (nat \<Rightarrow> 'w) \<Rightarrow> 'm" where
  "tally n g f = (\<Sum>i<n. g (f i))"

lemma tally_upd: "i < n \<Longrightarrow> tally n g (f(i := w)) + g (f i) = tally n g f + g w"
proof -
  assume i: "i < n"
  have "(\<Sum>j \<in> {..<n} - {i}. g ((f(i := w)) j)) = (\<Sum>j \<in> {..<n} - {i}. g (f j))"
    by (rule sum.cong) auto
  with i show ?thesis
    by (simp add: tally_def sum.remove [of _ i] ac_simps)
qed

lemma tally_upd_same: "i < n \<Longrightarrow> g (f i) = g w \<Longrightarrow> tally n g (f(i := w)) = tally n g f"
  unfolding tally_def by (rule sum.cong) auto

fun alive :: "'a worker \<Rightarrow> nat" where
  "alive Exited = 0"
| "alive _ = 1"

fun stopped :: "'a worker \<Rightarrow> nat" where
  "stopped Stopping = 1"
| "stopped Exited = 1"
| "stopped _ = 0"

fun task_of :: "'a worker \<Rightarrow> 'a multiset" where
  "task_of (Executing t) = {#t#}"
| "task_of _ = {#}"

fun tasks_in :: "'a option list \<Rightarrow> 'a list" where
  "tasks_in [] = []"
| "tasks_in (None # ms) = tasks_in ms"
| "tasks_in (Some t # ms) = t # tasks_in ms"

lemma tasks_in_append [simp]: "tasks_in (xs @ ys) = tasks_in xs @ tasks_in ys"
  by (induction xs rule: tasks_in.induct) auto

section \<open>What the channel's steps do to the threads\<close>

inductive_cases enter_step: "mpmc_step s (Enter i) t"
inductive_cases wait_step: "mpmc_step s (Wait i) t"
inductive_cases wake_step: "mpmc_step s (Wake_Up i) t"
inductive_cases drop_receiver_step: "mpmc_step s Drop_Receiver t"
inductive_cases drop_sender_step: "mpmc_step s Drop_Sender t"
inductive_cases clone_sender_step: "mpmc_step s Clone_Sender t"
inductive_cases clone_receiver_step: "mpmc_step s Clone_Receiver t"

definition inside :: "'a system \<Rightarrow> nat set" where
  "inside s = entered s \<union> waiting s"

lemma release_fields:
  "release s = Returns s' \<Longrightarrow> senders s' = senders s \<and> receivers s' = receivers s \<and>
     entered s' = entered s \<and> waiting s' = waiting s"
  by (auto simp: release_def bind_outcome_Returns_iff split: if_splits)

lemma wake_inside: "K \<subseteq> waiting s \<Longrightarrow> inside (wake K s) = inside s"
  by (auto simp: inside_def wake_def)

lemma send_effect:
  "mpmc_step s (Send i v r) t \<Longrightarrow>
     senders t = senders s \<and> receivers t = receivers s \<and> inside t = inside s"
  by (elim send_step) (auto dest!: woken_subset simp: inside_def wake_def)

lemma enter_effect:
  "mpmc_step s (Enter i) t \<Longrightarrow>
     senders t = senders s \<and> receivers t = receivers s \<and> inside t = insert i (inside s)"
  by (elim enter_step) (auto simp: inside_def)

lemma wait_effect:
  "mpmc_step s (Wait i) t \<Longrightarrow>
     senders t = senders s \<and> receivers t = receivers s \<and> inside t = inside s"
  by (elim wait_step) (auto simp: inside_def)

lemma wake_effect:
  "mpmc_step s (Wake_Up i) t \<Longrightarrow>
     senders t = senders s \<and> receivers t = receivers s \<and> inside t = inside s"
  by (elim wake_step) (auto simp: inside_def wake_def)

lemma recv_effect:
  "mpmc_step s (Recv i r) t \<Longrightarrow> mpmc_inv F s vs \<Longrightarrow>
     senders t = senders s \<and> receivers t = receivers s \<and> inside t = inside s - {i} \<and> i \<in> inside s"
  by (elim recv_step) (auto simp: inside_def inv_parts)

lemma drop_receiver_effect:
  "mpmc_step s Drop_Receiver t \<Longrightarrow>
     senders t = senders s \<and> receivers t = receivers s - 1 \<and> inside t = inside s \<and> 0 < receivers s"
  by (elim drop_receiver_step) (auto dest!: release_fields simp: inside_def)

lemma drop_sender_effect:
  "mpmc_step s Drop_Sender t \<Longrightarrow>
     senders t = senders s - 1 \<and> receivers t = receivers s \<and> inside t = inside s"
  by (elim drop_sender_step) (auto dest!: release_fields woken_subset simp: inside_def wake_def)

lemma clone_effect:
  "mpmc_step s Clone_Sender t \<Longrightarrow>
     senders t = senders s + 1 \<and> receivers t = receivers s \<and> inside t = inside s"
  "mpmc_step s Clone_Receiver t \<Longrightarrow>
     senders t = senders s \<and> receivers t = receivers s + 1 \<and> inside t = inside s"
  by (auto elim!: clone_sender_step clone_receiver_step simp: inside_def)

lemmas step_effects = send_effect enter_effect wait_effect wake_effect drop_receiver_effect

section \<open>The invariant\<close>

definition channel_part :: "nat \<Rightarrow> (nat \<rightharpoonup> 'a option cell) \<Rightarrow> 'a option list \<Rightarrow> 'a pool \<Rightarrow> bool" where
  "channel_part n F vs p \<longleftrightarrow> mpmc_inv F (sys p) vs \<and> accepted p = taken p @ vs \<and> senders (sys p) = 1"

definition worker_part :: "nat \<Rightarrow> 'a pool \<Rightarrow> bool" where
  "worker_part n p \<longleftrightarrow> receivers (sys p) = tally n alive (worker p) \<and>
     inside (sys p) = {i. i < n \<and> worker p i = Receiving} \<and>
     (\<forall>i e. worker p i \<noteq> Crashed e) \<and>
     count_list (taken p) None = tally n stopped (worker p) \<and>
     mset (tasks_in (taken p)) = mset (finished p) + tally n task_of (worker p)"

fun stops :: "nat \<Rightarrow> phase \<Rightarrow> nat" where
  "stops n Open = 0"
| "stops n (Closing k) = k"
| "stops n (Joining j) = n"
| "stops n Shut = n"

fun joined :: "nat \<Rightarrow> phase \<Rightarrow> nat" where
  "joined n (Joining j) = j"
| "joined n Shut = n"
| "joined n _ = 0"

definition phase_part :: "nat \<Rightarrow> 'a pool \<Rightarrow> bool" where
  "phase_part n p \<longleftrightarrow> count_list (accepted p) None = stops n (phase p) \<and>
     stops n (phase p) \<le> n \<and> joined n (phase p) \<le> n \<and>
     (\<forall>i < joined n (phase p). worker p i = Exited) \<and>
     (phase p \<noteq> Open \<longrightarrow> (\<exists>ms. accepted p = before p @ ms) \<and> None \<notin> set (before p))"

definition pool_inv :: "nat \<Rightarrow> (nat \<rightharpoonup> 'a option cell) \<Rightarrow> 'a option list \<Rightarrow> 'a pool \<Rightarrow> bool" where
  "pool_inv n F vs p \<longleftrightarrow> channel_part n F vs p \<and> worker_part n p \<and> phase_part n p"

lemma alive_or_stopped: "n \<le> tally n alive w + tally n stopped w"
proof -
  have "(\<Sum>i<n. 1) \<le> (\<Sum>i<n. alive (w i) + stopped (w i))"
  proof (rule sum_mono)
    show "1 \<le> alive (w i) + stopped (w i)" for i by (cases "w i") auto
  qed
  then show ?thesis by (simp add: tally_def sum.distrib)
qed

lemma send_accepted:
  assumes "mpmc_step s (Send i v r) t" and "mpmc_inv F s vs" and "0 < receivers s"
  shows "r = Ok ()"
proof (cases r)
  case (Err e)
  then have "r = Err Closed" by (cases e) simp
  with assms send_closed [OF assms(2)] have False by (elim send_step) fastforce
  then show ?thesis ..
qed simp

text \<open>The owner's empty messages are always accepted: not all workers have stopped yet.\<close>

lemma receivers_left:
  assumes "pool_inv n F vs p" and "stops n (phase p) < n"
  shows "0 < receivers (sys p)"
proof -
  have "count_list (taken p) None \<le> count_list (accepted p) None"
    using assms(1) by (simp add: pool_inv_def channel_part_def)
  with assms alive_or_stopped [of n "worker p"] show ?thesis
    by (simp add: pool_inv_def worker_part_def phase_part_def)
qed

text \<open>A step of the channel keeps the channel's part.\<close>

lemma channel_part_step:
  assumes "channel_part n F vs p" and "mpmc_step (sys p) l s" and "senders s = senders (sys p)"
    and "sys q = s" and "accepted q = accepted p @ sent_by l" and "taken q = taken p @ received_by l"
  shows "\<exists>vs'. channel_part n F vs' q"
proof -
  from assms(1) have "mpmc_inv F (sys p) vs" by (simp add: channel_part_def)
  from mpmc_step_inv [OF assms(2) this] obtain vs' where
    "mpmc_inv F s vs'" "vs @ sent_by l = received_by l @ vs'" by blast
  with assms show ?thesis by (intro exI [of _ vs']) (simp add: channel_part_def)
qed

lemma set_worker_sel [simp]:
  "sys (set_worker i w p) = sys p" "phase (set_worker i w p) = phase p"
  "finished (set_worker i w p) = finished p" "before (set_worker i w p) = before p"
  "accepted (set_worker i w p) = accepted p" "taken (set_worker i w p) = taken p"
  "worker (set_worker i w p) = (worker p)(i := w)"
  by (simp_all add: set_worker_def)

lemma tally_nat_upd: "i < n \<Longrightarrow> tally n g (f(i := w)) = tally n g f + g w - (g (f i) :: nat)"
  using tally_upd [of i n g f w] by simp

lemma tally_mset_upd:
  "i < n \<Longrightarrow> tally n g (f(i := w)) = tally n g f + g w - (g (f i) :: 'a multiset)"
  using tally_upd [of i n g f w] by (metis add_diff_cancel_right')

lemma pool_step_inv:
  assumes "pool_step n p a q" and "pool_inv n F vs p"
  shows "\<exists>vs'. pool_inv n F vs' q"
proof -
  from assms(2) have c: "channel_part n F vs p" and w: "worker_part n p" and f: "phase_part n p"
    and m: "mpmc_inv F (sys p) vs" and one: "senders (sys p) = 1"
    by (auto simp: pool_inv_def channel_part_def)
  show ?thesis
    using assms(1)
  proof (cases rule: pool_step.cases)
    case (pool_execute i t r s)
    note e = send_effect [OF pool_execute(4)]
    from channel_part_step [OF c pool_execute(4), of q] e pool_execute(2) obtain vs' where
      "channel_part n F vs' q" by auto
    moreover have "worker_part n q" using w e pool_execute(2) by (simp add: worker_part_def)
    moreover have "phase_part n q" using f pool_execute(2)
      by (cases r) (auto simp: phase_part_def)
    ultimately show ?thesis by (auto simp: pool_inv_def)
  next
    case (pool_call_recv i s)
    note e = enter_effect [OF pool_call_recv(5)]
    from channel_part_step [OF c pool_call_recv(5), of q] e pool_call_recv(2) obtain vs' where
      "channel_part n F vs' q" by auto
    moreover have "worker_part n q" using w e pool_call_recv(2-4)
      by (auto simp: worker_part_def tally_upd_same)
    moreover have "phase_part n q" using f pool_call_recv(2,4) by (auto simp: phase_part_def)
    ultimately show ?thesis by (auto simp: pool_inv_def)
  next
    case (pool_wait i s)
    note e = wait_effect [OF pool_wait(3)]
    from channel_part_step [OF c pool_wait(3), of q] e pool_wait(2) obtain vs' where
      "channel_part n F vs' q" by auto
    moreover have "worker_part n q" using w e pool_wait(2) by (simp add: worker_part_def)
    moreover have "phase_part n q" using f pool_wait(2) by (simp add: phase_part_def)
    ultimately show ?thesis by (auto simp: pool_inv_def)
  next
    case (pool_wake i s)
    note e = wake_effect [OF pool_wake(3)]
    from channel_part_step [OF c pool_wake(3), of q] e pool_wake(2) obtain vs' where
      "channel_part n F vs' q" by auto
    moreover have "worker_part n q" using w e pool_wake(2) by (simp add: worker_part_def)
    moreover have "phase_part n q" using f pool_wake(2) by (simp add: phase_part_def)
    ultimately show ?thesis by (auto simp: pool_inv_def)
  next
    case (pool_recv i r s)
    note e = recv_effect [OF pool_recv(3) m]
    from channel_part_step [OF c pool_recv(3), of q] e pool_recv(2) obtain vs' where
      "channel_part n F vs' q" by auto
    moreover have i: "i < n" "worker p i = Receiving" using e w by (auto simp: worker_part_def)
    have "r \<noteq> Err Closed"
      using pool_recv(3) recv_inv [OF m, of i r] one by (elim recv_step) fastforce
    then obtain x where r: "r = Ok x" by (cases r) (use closed.exhaust in auto)
    have "worker_part n q"
      using w e pool_recv(2) i r
      by (cases x) (auto simp: worker_part_def tally_upd_same tally_nat_upd tally_mset_upd)
    moreover have "phase_part n q" using f pool_recv(2) i by (auto simp: phase_part_def)
    ultimately show ?thesis by (auto simp: pool_inv_def)
  next
    case (pool_run i t)
    have "channel_part n F vs q" using c pool_run(2) by (simp add: channel_part_def)
    moreover have "worker_part n q"
      using w pool_run(2-4) tally_upd [of i n task_of "worker p" Ready]
      by (auto simp: worker_part_def tally_upd_same)
    moreover have "phase_part n q" using f pool_run by (auto simp: phase_part_def)
    ultimately show ?thesis by (auto simp: pool_inv_def)
  next
    case (pool_exit i s)
    note e = drop_receiver_effect [OF pool_exit(5)]
    from channel_part_step [OF c pool_exit(5), of q] e pool_exit(2) obtain vs' where
      "channel_part n F vs' q" by auto
    moreover have "worker_part n q" using w e pool_exit(2-4)
      by (auto simp: worker_part_def tally_upd_same tally_nat_upd)
    moreover have "phase_part n q" using f pool_exit(2,4) by (auto simp: phase_part_def)
    ultimately show ?thesis by (auto simp: pool_inv_def)
  next
    case pool_begin
    then have "channel_part n F vs q" "worker_part n q" "phase_part n q"
      using c w f by (auto simp: channel_part_def worker_part_def phase_part_def count_list_0_iff)
    then show ?thesis by (auto simp: pool_inv_def)
  next
    case (pool_stop k i r s)
    note e = send_effect [OF pool_stop(6)]
    have "r = Ok ()"
      using send_accepted [OF pool_stop(6) m] receivers_left [OF assms(2)] pool_stop(3,4) by simp
    moreover from channel_part_step [OF c pool_stop(6), of q] e pool_stop(2) obtain vs' where
      "channel_part n F vs' q" by auto
    moreover have "worker_part n q" using w e pool_stop(2) by (simp add: worker_part_def)
    moreover have "phase_part n q" if "r = Ok ()" using f pool_stop(2-4) that
      by (auto simp: phase_part_def)
    ultimately show ?thesis by (auto simp: pool_inv_def)
  next
    case pool_sent
    then have "channel_part n F vs q" "worker_part n q" "phase_part n q"
      using c w f by (auto simp: channel_part_def worker_part_def phase_part_def)
    then show ?thesis by (auto simp: pool_inv_def)
  next
    case (pool_join j)
    then have "channel_part n F vs q" "worker_part n q" "phase_part n q"
      using c w f by (auto simp: channel_part_def worker_part_def phase_part_def less_Suc_eq)
    then show ?thesis by (auto simp: pool_inv_def)
  next
    case pool_end
    then have "channel_part n F vs q" "worker_part n q" "phase_part n q"
      using c w f by (auto simp: channel_part_def worker_part_def phase_part_def)
    then show ?thesis by (auto simp: pool_inv_def)
  qed
qed


text \<open>The pool as it is created: one sender, one receiver for each worker.\<close>

lemma run_append: "mpmc_run s (xs @ ys) u \<Longrightarrow> \<exists>t. mpmc_run s xs t \<and> mpmc_run t ys u"
proof (induction ys arbitrary: u rule: rev_induct)
  case Nil
  then show ?case by (auto intro: run_Nil)
next
  case (snoc y ys)
  from snoc.prems show ?case
  proof (cases rule: mpmc_run.cases)
    case (run_snoc ls t l)
    with snoc.IH [of t] show ?thesis by (auto intro: mpmc_run.run_snoc)
  qed auto
qed

lemma run_single: "mpmc_run s [l] t \<Longrightarrow> mpmc_step s l t"
proof (erule mpmc_run.cases)
  show "mpmc_step s l t" if "s = s'" "[l] = ls @ [k]" "t = u" "mpmc_run s' ls v" "mpmc_step v k u"
    for s' ls v k u
    using that by (auto elim: mpmc_run.cases)
qed simp

lemma run_two: "mpmc_run s (l # ls) u \<Longrightarrow> \<exists>t. mpmc_step s l t \<and> mpmc_run t ls u"
  using run_append [of s "[l]" ls u] run_single by fastforce

lemma clones_effect:
  "mpmc_run s (replicate n Clone_Receiver) t \<Longrightarrow>
     senders t = senders s \<and> receivers t = receivers s + n \<and> inside t = inside s"
proof (induction n arbitrary: s)
  case 0
  then show ?case by (auto elim: mpmc_run.cases)
next
  case (Suc n)
  then obtain u where "mpmc_step s Clone_Receiver u" "mpmc_run u (replicate n Clone_Receiver) t"
    using run_two by fastforce
  with Suc.IH clone_effect(2) show ?case by fastforce
qed

lemma created_sys:
  assumes "mpmc_run (channel h) (create_actions n) s"
  shows "senders s = 1 \<and> receivers s = n \<and> inside s = {}"
proof -
  have "mpmc_run (channel h) ([Clone_Sender, Clone_Receiver, Clone_Sender] @
      replicate n Clone_Receiver @ [Drop_Receiver, Drop_Sender, Drop_Receiver, Drop_Sender]) s"
    using assms unfolding create_actions_def .
  from run_append [OF this] obtain s3 where
    s3: "mpmc_run (channel h) [Clone_Sender, Clone_Receiver, Clone_Sender] s3"
      "mpmc_run s3 (replicate n Clone_Receiver @ [Drop_Receiver, Drop_Sender, Drop_Receiver, Drop_Sender]) s"
    by blast
  from run_append [OF s3(2)] obtain s4 where s4: "mpmc_run s3 (replicate n Clone_Receiver) s4"
    "mpmc_run s4 [Drop_Receiver, Drop_Sender, Drop_Receiver, Drop_Sender] s" by blast
  have "senders s3 = 3 \<and> receivers s3 = 2 \<and> inside s3 = {}"
  proof -
    from run_two [OF s3(1)] obtain a where
      a: "mpmc_step (channel h) Clone_Sender a" "mpmc_run a [Clone_Receiver, Clone_Sender] s3" by blast
    from run_two [OF a(2)] obtain b where
      b: "mpmc_step a Clone_Receiver b" "mpmc_run b [Clone_Sender] s3" by blast
    from clone_effect(1) [OF a(1)] clone_effect(2) [OF b(1)] clone_effect(1) [OF run_single [OF b(2)]]
    show ?thesis by (simp add: channel_def inside_def)
  qed
  with clones_effect [OF s4(1)] have f: "senders s4 = 3 \<and> receivers s4 = n + 2 \<and> inside s4 = {}" by simp
  from run_two [OF s4(2)] obtain a where
    a: "mpmc_step s4 Drop_Receiver a" "mpmc_run a [Drop_Sender, Drop_Receiver, Drop_Sender] s" by blast
  from run_two [OF a(2)] obtain b where
    b: "mpmc_step a Drop_Sender b" "mpmc_run b [Drop_Receiver, Drop_Sender] s" by blast
  from run_two [OF b(2)] obtain c where
    c: "mpmc_step b Drop_Receiver c" "mpmc_run c [Drop_Sender] s" by blast
  show ?thesis
    using f drop_receiver_effect [OF a(1)] drop_sender_effect [OF b(1)] drop_receiver_effect [OF c(1)]
      drop_sender_effect [OF run_single [OF c(2)]] by simp
qed

lemma created_inv:
  assumes "heap_wf h" and "created n h p"
  shows "\<exists>vs. pool_inv n (map_of (cells h)) vs p"
proof -
  from assms(2) have run: "mpmc_run (channel h) (create_actions n) (sys p)" by (simp add: created_def)
  from mpmc_run_inv [OF run channel_inv [OF assms(1)]] obtain vs where
    vs: "mpmc_inv (map_of (cells h)) (sys p) vs" "sent (create_actions n) = received (create_actions n) @ vs"
    by auto
  then have "vs = []" by (simp add: create_actions_def sent_def received_def)
  with vs(1) assms(2) created_sys [OF run] show ?thesis
    by (intro exI [of _ vs]) (auto simp: pool_inv_def channel_part_def worker_part_def phase_part_def
        created_def tally_def)
qed

lemma pool_reach_inv: "pool_reach n p q \<Longrightarrow> pool_inv n F vs p \<Longrightarrow> \<exists>vs. pool_inv n F vs q"
proof (induction rule: pool_reach.induct)
  case (reach_refl p)
  then show ?case by blast
next
  case (reach_step p q a r)
  then show ?case using pool_step_inv by blast
qed

text \<open>Once the shutdown is over every message accepted before it has been taken and run.\<close>

lemma all_tasks_done:
  assumes "pool_inv n F vs p" and "phase p = Shut" and "0 < n"
  shows "mset (tasks_in (before p)) \<subseteq># mset (finished p)"
    and "mset (tasks_in (taken p)) = mset (finished p)" and "receivers (sys p) = 0"
proof -
  from assms have ex: "\<forall>i < n. worker p i = Exited" by (simp add: pool_inv_def phase_part_def)
  then have t: "tally n alive (worker p) = 0" "tally n stopped (worker p) = n"
    "tally n task_of (worker p) = {#}" by (simp_all add: tally_def)
  with assms(1) show r: "receivers (sys p) = 0" and f: "mset (tasks_in (taken p)) = mset (finished p)"
    by (simp_all add: pool_inv_def worker_part_def)
  from assms t have n: "count_list (taken p) None = n"
    and a: "accepted p = taken p @ vs"
    by (simp_all add: pool_inv_def worker_part_def phase_part_def channel_part_def)
  from assms(1,2) obtain ms where b: "accepted p = before p @ ms" "None \<notin> set (before p)"
    by (auto simp: pool_inv_def phase_part_def)
  have "\<exists>us. taken p = before p @ us"
  proof (rule ccontr)
    assume "\<nexists>us. taken p = before p @ us"
    with a b(1) obtain us where "before p = taken p @ us"
      by (metis append_eq_append_conv2)
    with b(2) have "None \<notin> set (taken p)" by simp
    with n assms(3) show False by (simp add: count_list_0_iff)
  qed
  with f show "mset (tasks_in (before p)) \<subseteq># mset (finished p)"
    by (metis mset_append mset_subset_eq_add_left tasks_in_append)
qed


section \<open>The shutdown always can end\<close>

fun weight :: "'a worker \<Rightarrow> nat" where
  "weight (Executing t) = 4"
| "weight Ready = 3"
| "weight Receiving = 2"
| "weight Stopping = 1"
| "weight _ = 0"

fun phase_weight :: "nat \<Rightarrow> phase \<Rightarrow> nat" where
  "phase_weight n (Closing k) = 6 * (n - k) + n + 2"
| "phase_weight n (Joining j) = n - j + 1"
| "phase_weight n _ = 0"

definition pool_weight :: "nat \<Rightarrow> 'a pool \<Rightarrow> nat" where
  "pool_weight n p = phase_weight n (phase p) + tally n weight (worker p) +
     5 * (length (accepted p) - length (taken p))"

lemma tally_pos: "i < n \<Longrightarrow> (g (f i) :: nat) \<le> tally n g f"
  unfolding tally_def by (rule member_le_sum) auto

lemma others_exited:
  assumes "tally n alive f = 1" and "i < n" and "f i \<noteq> Exited" and "j < n" and "j \<noteq> i"
  shows "f j = Exited"
proof (rule ccontr)
  assume "f j \<noteq> Exited"
  then have j: "alive (f j) = 1" by (cases "f j") auto
  have i: "alive (f i) = 1" using assms(3) by (cases "f i") auto
  have "tally n alive f = tally n alive (f(i := Exited)) + 1"
    using tally_upd [OF assms(2), of alive f Exited] i by simp
  moreover have "alive ((f(i := Exited)) j) \<le> tally n alive (f(i := Exited))"
    by (rule tally_pos [OF assms(4)])
  ultimately show False using assms(1,5) j by simp
qed

lemma not_all_stopped:
  assumes "i < n" and "stopped (f i) = 0"
  shows "tally n stopped f < n"
proof -
  have "tally n stopped (f(i := Exited)) \<le> (\<Sum>i<n. 1)"
    unfolding tally_def
  proof (rule sum_mono)
    show "stopped ((f(i := Exited)) j) \<le> 1" for j by (cases "(f(i := Exited)) j") auto
  qed
  with tally_upd [OF assms(1), of stopped f Exited] assms(2) show ?thesis by simp
qed

lemma weight_drops:
  assumes "i < n" and "weight w < weight (worker p i)" and "worker q = (worker p)(i := w)"
    and "phase q = phase p" and "accepted q = accepted p" and "taken q = taken p"
  shows "pool_weight n q < pool_weight n p"
proof -
  have "tally n weight (worker q) + weight (worker p i) = tally n weight (worker p) + weight w"
    unfolding assms(3) by (rule tally_upd [OF assms(1)])
  with assms(2) have "tally n weight (worker q) < tally n weight (worker p)" by linarith
  then show ?thesis by (simp add: pool_weight_def assms(4-6))
qed

text \<open>A receiver whose turn it is takes a message.\<close>

lemma take_message:
  assumes "pool_inv n F vs p" and "i \<in> entered (sys p)" and "vs \<noteq> []"
  shows "\<exists>q. pool_step n p (Recv_Return i) q \<and> phase q = phase p \<and> pool_weight n q < pool_weight n p"
proof -
  from assms(1) have m: "mpmc_inv F (sys p) vs" and a: "accepted p = taken p @ vs"
    and w: "worker_part n p" by (auto simp: pool_inv_def channel_part_def)
  from assms(2) w have i: "i < n" "worker p i = Receiving" by (auto simp: worker_part_def inside_def)
  from assms(3) obtain v us where v: "vs = v # us" by (cases vs) auto
  have "fl_holds F (buffer (chan (sys p))) (v # us)"
    using m assms(2) v by (auto simp: inv_parts)
  from pop_turn_Cons [OF this] obtain b where
    "recv_turn (Some (chan (sys p))) = Returns (Some (Ok v), (chan (sys p))\<lparr>buffer := b\<rparr>)"
    by (auto simp: recv_turn_def)
  from pool_recv [OF step_recv [OF assms(2) this], of n] i a v
  have "\<exists>s. pool_step n p (Recv_Return i)
      (set_worker i (dispatch (Ok v)) (p\<lparr>sys := s, taken := taken p @ [v]\<rparr>))" by auto
  then obtain s where s: "pool_step n p (Recv_Return i)
      (set_worker i (dispatch (Ok v)) (p\<lparr>sys := s, taken := taken p @ [v]\<rparr>))" by blast
  have "weight (worker p i) \<le> tally n weight (worker p)" by (rule tally_pos [OF i(1)])
  then have "pool_weight n (set_worker i (dispatch (Ok v)) (p\<lparr>sys := s, taken := taken p @ [v]\<rparr>))
      < pool_weight n p"
    using i a v by (cases v) (auto simp: pool_weight_def tally_nat_upd)
  with s show ?thesis by auto
qed

lemma worker_moves:
  assumes "pool_inv n F vs p" and "i < n" and "worker p i \<noteq> Exited"
    and "worker p i = Receiving \<Longrightarrow> vs \<noteq> []"
  shows "\<exists>a q. pool_step n p a q \<and> phase q = phase p \<and> pool_weight n q < pool_weight n p"
proof -
  from assms(1) have m: "mpmc_inv F (sys p) vs" and w: "worker_part n p"
    by (auto simp: pool_inv_def channel_part_def)
  have le: "weight (worker p i) \<le> tally n weight (worker p)" by (rule tally_pos [OF assms(2)])
  have "alive (worker p i) = 1" using assms(3) by (cases "worker p i") auto
  then have r: "0 < receivers (sys p)"
    using tally_pos [OF assms(2), of alive "worker p"] w by (simp add: worker_part_def)
  have ins: "inside (sys p) = {i. i < n \<and> worker p i = Receiving}" using w by (simp add: worker_part_def)
  show ?thesis
  proof (cases "worker p i")
    case Ready
    then have "i \<notin> inside (sys p)" unfolding ins by simp
    then have "outside i (sys p)" by (simp add: outside_def inside_def)
    note st = pool_call_recv [OF assms(2) Ready step_enter [OF r this]]
    show ?thesis
      by (rule exI, rule exI, rule conjI [OF st], rule conjI, simp,
          rule weight_drops [OF assms(2)]) (simp_all add: Ready)
  next
    case Receiving
    show ?thesis
    proof (cases "entered (sys p) = {}")
      case True
      then have "waiting (sys p) \<noteq> {}" using ins Receiving assms(2) by (auto simp: inside_def)
      with m True have "vs = []" by (auto simp: mpmc_inv_def wakeups_ok_def)
      with assms(4) Receiving show ?thesis by simp
    next
      case False
      then obtain j where "j \<in> entered (sys p)" by blast
      from take_message [OF assms(1) this assms(4) [OF Receiving]] show ?thesis by blast
    qed
  next
    case (Executing t)
    note st = pool_run [OF assms(2) Executing]
    show ?thesis
      by (rule exI, rule exI, rule conjI [OF st], rule conjI, simp,
          rule weight_drops [OF assms(2)]) (simp_all add: Executing)
  next
    case Stopping
    have "receivers (sys p) = 1 \<longrightarrow> inside (sys p) = {}"
    proof (intro impI, rule ccontr)
      assume "receivers (sys p) = 1" and "inside (sys p) \<noteq> {}"
      then obtain j where j: "j < n" "worker p j = Receiving" "tally n alive (worker p) = 1"
        using ins w by (auto simp: worker_part_def)
      have "j \<noteq> i" using j(2) Stopping by auto
      from others_exited [OF j(3) assms(2,3) j(1) this] j(2) show False by simp
    qed
    then have "receivers (sys p) = 1 \<longrightarrow> entered (sys p) = {} \<and> waiting (sys p) = {}"
      by (simp add: inside_def)
    from drops_return(2) [OF m r this] obtain s where "mpmc_step (sys p) Drop_Receiver s" by blast
    note st = pool_exit [OF assms(2) Stopping this]
    show ?thesis
      by (rule exI, rule exI, rule conjI [OF st], rule conjI, simp,
          rule weight_drops [OF assms(2)]) (simp_all add: Stopping)
  qed (use assms(3) w in \<open>auto simp: worker_part_def\<close>)
qed

lemma shutdown_moves:
  assumes "pool_inv n F vs p" and "phase p \<noteq> Open" and "phase p \<noteq> Shut"
  shows "\<exists>a q. pool_step n p a q \<and> phase q \<noteq> Open \<and> pool_weight n q < pool_weight n p"
proof (cases "phase p")
  case (Closing k)
  from assms(1) have m: "mpmc_inv F (sys p) vs" and w: "worker_part n p" and one: "0 < senders (sys p)"
    and a: "accepted p = taken p @ vs" and k: "k \<le> n"
    using Closing by (auto simp: pool_inv_def channel_part_def phase_part_def)
  show ?thesis
  proof (cases "k = n")
    case True
    note st = pool_sent [OF Closing [unfolded True]]
    show ?thesis
      by (rule exI, rule exI, rule conjI [OF st]) (use True Closing in \<open>simp add: pool_weight_def\<close>)
  next
    case False
    with k have "k < n" by simp
    with receivers_left [OF assms(1)] Closing have r: "0 < receivers (sys p)" by simp
    have o: "outside n (sys p)" using w by (auto simp: worker_part_def outside_def inside_def)
    obtain r q sig where s: "send None (Some (chan (sys p))) = Returns (r, q, sig)"
      using operations_return(1) [OF m one] by blast
    obtain K where "woken sig (waiting (sys p)) K"
      by (cases sig; cases "waiting (sys p) = {}") auto
    from step_send [OF one o s this] obtain t where t: "mpmc_step (sys p) (Send n None r) t" by blast
    have ok: "r = Ok ()" by (rule send_accepted [OF t m r])
    note st = pool_stop [OF Closing \<open>k < n\<close> order_refl t]
    show ?thesis
      by (rule exI, rule exI, rule conjI [OF st])
        (use Closing \<open>k < n\<close> a ok in \<open>simp add: pool_weight_def\<close>)
  qed
next
  case (Joining j)
  then have j: "j \<le> n" using assms(1) by (simp add: pool_inv_def phase_part_def)
  show ?thesis
  proof (cases "j = n")
    case True
    note st = pool_end [OF Joining [unfolded True]]
    show ?thesis
      by (rule exI, rule exI, rule conjI [OF st]) (use True Joining in \<open>simp add: pool_weight_def\<close>)
  next
    case False
    with j have j: "j < n" by simp
    show ?thesis
    proof (cases "worker p j = Exited")
      case True
      note st = pool_join [OF Joining j True]
      show ?thesis
        by (rule exI, rule exI, rule conjI [OF st]) (use j Joining in \<open>simp add: pool_weight_def\<close>)
    next
      case False
      have ne: "vs \<noteq> []" if "worker p j = Receiving"
      proof
        assume "vs = []"
        then have "count_list (taken p) None = n"
          using assms(1) Joining by (auto simp: pool_inv_def channel_part_def phase_part_def)
        then have "tally n stopped (worker p) = n" using assms(1) by (simp add: pool_inv_def worker_part_def)
        with not_all_stopped [OF j, of "worker p"] that show False by simp
      qed
      obtain a q where st: "pool_step n p a q" and ph: "phase q = phase p"
        and le: "pool_weight n q < pool_weight n p"
        using worker_moves [OF assms(1) j False ne] by blast
      show ?thesis
        by (rule exI, rule exI, rule conjI [OF st]) (use le Joining ph in simp)
    qed
  qed
qed (use assms in auto)


lemma shutdown_ends:
  assumes "pool_inv n F vs p" and "phase p \<noteq> Open"
  shows "\<exists>q. pool_reach n p q \<and> phase q = Shut"
  using assms
proof (induction "pool_weight n p" arbitrary: p vs rule: less_induct)
  case less
  show ?case
  proof (cases "phase p = Shut")
    case True
    then show ?thesis using reach_refl by blast
  next
    case False
    from shutdown_moves [OF less.prems this] obtain a q where
      q: "pool_step n p a q" "phase q \<noteq> Open" "pool_weight n q < pool_weight n p" by blast
    from pool_step_inv [OF q(1) less.prems(1)] obtain us where "pool_inv n F us q" by blast
    from less.hyps [OF q(3) this q(2)] obtain r where r: "pool_reach n q r" "phase r = Shut" by blast
    have "pool_reach n p r"
      using r(1) q(1) by (induction rule: pool_reach.induct) (auto intro: pool_reach.intros)
    with r(2) show ?thesis by blast
  qed
qed

section \<open>Pools exist\<close>

definition live :: "(nat \<rightharpoonup> 'a cell) \<Rightarrow> nat \<Rightarrow> nat \<Rightarrow> 'a system \<Rightarrow> bool" where
  "live F a b s \<longleftrightarrow> (\<exists>vs. mpmc_inv F s vs) \<and> senders s = a \<and> receivers s = b \<and> inside s = {}"

lemma live_step:
  assumes "live F a b s" and "mpmc_step s l t" and "senders t = a'" and "receivers t = b'"
    and "inside t = inside s"
  shows "live F a' b' t"
proof -
  from assms(1) obtain vs where "mpmc_inv F s vs" by (auto simp: live_def)
  from mpmc_step_inv [OF assms(2) this] obtain vs' where "mpmc_inv F t vs'" by blast
  with assms show ?thesis by (auto simp: live_def)
qed

lemma live_clone:
  "live F a b s \<Longrightarrow> 0 < a \<Longrightarrow> a + 1 < 2 ^ 32 \<Longrightarrow> \<exists>t. mpmc_step s Clone_Sender t \<and> live F (a + 1) b t"
  "live F a b s \<Longrightarrow> 0 < b \<Longrightarrow> b + 1 < 2 ^ 32 \<Longrightarrow> \<exists>t. mpmc_step s Clone_Receiver t \<and> live F a (b + 1) t"
proof -
  assume l: "live F a b s"
  show "\<exists>t. mpmc_step s Clone_Sender t \<and> live F (a + 1) b t" if "0 < a" "a + 1 < 2 ^ 32"
  proof -
    have "mpmc_step s Clone_Sender (s\<lparr>chan := incr_producer_cnt (chan s), senders := senders s + 1\<rparr>)"
      using l that by (intro step_clone_sender) (simp_all add: live_def sender_copy_def)
    with live_step [OF l this] l clone_effect(1) [OF this] show ?thesis by (auto simp: live_def)
  qed
  show "\<exists>t. mpmc_step s Clone_Receiver t \<and> live F a (b + 1) t" if "0 < b" "b + 1 < 2 ^ 32"
  proof -
    have "mpmc_step s Clone_Receiver (s\<lparr>chan := incr_consumer_cnt (chan s), receivers := receivers s + 1\<rparr>)"
      using l that by (intro step_clone_receiver) (simp_all add: live_def receiver_copy_def)
    with live_step [OF l this] l clone_effect(2) [OF this] show ?thesis by (auto simp: live_def)
  qed
qed

lemma live_drop:
  "live F a b s \<Longrightarrow> 0 < a \<Longrightarrow> \<exists>t. mpmc_step s Drop_Sender t \<and> live F (a - 1) b t"
  "live F a b s \<Longrightarrow> 0 < b \<Longrightarrow> \<exists>t. mpmc_step s Drop_Receiver t \<and> live F a (b - 1) t"
proof -
  assume l: "live F a b s"
  then obtain vs where inv: "mpmc_inv F s vs" by (auto simp: live_def)
  show "\<exists>t. mpmc_step s Drop_Sender t \<and> live F (a - 1) b t" if "0 < a"
  proof -
    from drops_return(1) [OF inv] that l obtain t where t: "mpmc_step s Drop_Sender t"
      by (auto simp: live_def)
    from live_step [OF l t, of "a - 1" b] drop_sender_effect [OF t] l t show ?thesis
      by (auto simp: live_def)
  qed
  show "\<exists>t. mpmc_step s Drop_Receiver t \<and> live F a (b - 1) t" if "0 < b"
  proof -
    from drops_return(2) [OF inv] that l obtain t where t: "mpmc_step s Drop_Receiver t"
      by (auto simp: live_def inside_def)
    from live_step [OF l t, of a "b - 1"] drop_receiver_effect [OF t] l t show ?thesis
      by (auto simp: live_def)
  qed
qed

lemma live_clones:
  "live F a b s \<Longrightarrow> 0 < b \<Longrightarrow> b + n < 2 ^ 32 \<Longrightarrow>
     \<exists>t. mpmc_run s (replicate n Clone_Receiver) t \<and> live F a (b + n) t"
proof (induction n)
  case 0
  then show ?case using run_Nil by fastforce
next
  case (Suc n)
  then obtain t where t: "mpmc_run s (replicate n Clone_Receiver) t" "live F a (b + n) t" by auto
  from live_clone(2) [OF t(2)] Suc.prems obtain u where
    u: "mpmc_step t Clone_Receiver u" "live F a (b + n + 1) u" by auto
  from run_snoc [OF t(1) u(1)] u(2) show ?case
    by (auto simp: replicate_append_same simp flip: replicate_Suc)
qed

lemma run_concat: "mpmc_run s xs t \<Longrightarrow> mpmc_run t ys u \<Longrightarrow> mpmc_run s (xs @ ys) u"
proof (induction ys arbitrary: u rule: rev_induct)
  case Nil
  from Nil(2) have "u = t" by (auto elim: mpmc_run.cases)
  with Nil(1) show ?case by simp
next
  case (snoc y ys)
  from snoc.prems(2) show ?case
  proof (cases rule: mpmc_run.cases)
    case (run_snoc ls v l)
    with snoc show ?thesis using mpmc_run.run_snoc [of s "xs @ ys" v y u] by auto
  qed auto
qed

lemma created_exists:
  assumes "heap_wf h" and "n + 2 < 2 ^ 32"
  shows "\<exists>p. created n h p"
proof -
  let ?F = "map_of (cells h)"
  have "live ?F 1 1 (channel h)"
    using channel_inv [OF assms(1)] by (auto simp: live_def channel_def inside_def)
  from live_clone(1) [OF this] obtain a where
    a: "mpmc_step (channel h) Clone_Sender a" "live ?F 2 1 a" by (auto simp del: One_nat_def)
  from live_clone(2) [OF a(2)] obtain b where b: "mpmc_step a Clone_Receiver b" "live ?F 2 2 b" by (auto simp del: One_nat_def)
  from live_clone(1) [OF b(2)] obtain c where c: "mpmc_step b Clone_Sender c" "live ?F 3 2 c" by (auto simp del: One_nat_def)
  from live_clones [OF c(2), of n] assms(2) obtain d where
    d: "mpmc_run c (replicate n Clone_Receiver) d" "live ?F 3 (2 + n) d" by (auto simp del: One_nat_def)
  from live_drop(2) [OF d(2)] obtain e where e: "mpmc_step d Drop_Receiver e" "live ?F 3 (Suc n) e" by (auto simp del: One_nat_def)
  from live_drop(1) [OF e(2)] obtain f where f: "mpmc_step e Drop_Sender f" "live ?F 2 (Suc n) f" by (auto simp del: One_nat_def)
  from live_drop(2) [OF f(2)] obtain g where g: "mpmc_step f Drop_Receiver g" "live ?F 2 n g" by (auto simp del: One_nat_def)
  from live_drop(1) [OF g(2)] obtain s where s: "mpmc_step g Drop_Sender s" "live ?F 1 n s" by auto
  have "mpmc_run (channel h) (([Clone_Sender] @ [Clone_Receiver] @ [Clone_Sender]) @ replicate n Clone_Receiver @
      ([Drop_Receiver] @ [Drop_Sender] @ [Drop_Receiver] @ [Drop_Sender])) s"
    by (intro run_concat [OF _ run_concat [OF d(1)]] run_concat [OF run_one [OF a(1)]]
        run_concat [OF run_one [OF b(1)] run_one [OF c(1)]] run_concat [OF run_one [OF e(1)]]
        run_concat [OF run_one [OF f(1)]] run_concat [OF run_one [OF g(1)] run_one [OF s(1)]])
  then have "created n h \<lparr>sys = s, worker = (\<lambda>i. Ready), phase = Open, finished = [], before = [],
      accepted = [], taken = []\<rparr>"
    by (simp add: created_def create_actions_def)
  then show ?thesis by blast
qed

text \<open>A pool with one task whose shutdown has begun, and one whose shutdown is over.\<close>

lemma reach_before:
  "pool_reach n p q \<Longrightarrow> phase p \<noteq> Open \<Longrightarrow> phase q \<noteq> Open \<and> before q = before p"
proof (induction rule: pool_reach.induct)
  case (reach_step p q a r)
  then have "phase q \<noteq> Open" "before q = before p" by auto
  with reach_step.hyps(2) show ?case by (cases rule: pool_step.cases) auto
qed simp

lemma reach_trans: "pool_reach n q r \<Longrightarrow> pool_reach n p q \<Longrightarrow> pool_reach n p r"
  by (induction rule: pool_reach.induct) (auto intro: pool_reach.intros)

lemma closing_pool:
  "\<exists>p\<^sub>0 p. created 2 empty_heap p\<^sub>0 \<and> pool_reach 2 p\<^sub>0 p \<and> phase p = Closing 0 \<and> before p = [Some (7 :: nat)]"
proof -
  let ?F = "map_of (cells (empty_heap :: nat option heap))"
  from created_exists [OF empty_heap_wf, of 2] obtain p0 :: "nat pool" where
    c: "created 2 empty_heap p0" by auto
  from created_inv [OF empty_heap_wf c] obtain vs where inv: "pool_inv 2 ?F vs p0" by blast
  then have m: "mpmc_inv ?F (sys p0) vs" and one: "0 < senders (sys p0)"
    by (auto simp: pool_inv_def channel_part_def)
  have p0: "worker p0 = (\<lambda>i. Ready)" "phase p0 = Open" "accepted p0 = []" using c by (auto simp: created_def)
  have r: "0 < receivers (sys p0)" using receivers_left [OF inv] p0(2) by simp
  have o: "outside 2 (sys p0)"
    using inv p0(1) by (auto simp: pool_inv_def worker_part_def outside_def inside_def)
  obtain x q sig where s: "send (Some 7) (Some (chan (sys p0))) = Returns (x, q, sig)"
    using operations_return(1) [OF m one] by blast
  obtain K where "woken sig (waiting (sys p0)) K"
    by (cases sig; cases "waiting (sys p0) = {}") auto
  from step_send [OF one o s this] obtain t where t: "mpmc_step (sys p0) (Send 2 (Some 7) x) t" by blast
  have x: "x = Ok ()" by (rule send_accepted [OF t m r])
  let ?p = "p0\<lparr>sys := t, accepted := accepted p0 @ sent_by (Send 2 (Some 7) x)\<rparr>"
  have 1: "pool_step 2 p0 (Execute 2 7 (execute_result x)) ?p" by (rule pool_execute [OF _ t]) simp
  have 2: "pool_step 2 ?p Begin_Shutdown (?p\<lparr>phase := Closing 0, before := accepted ?p\<rparr>)"
    by (rule pool_begin) (simp add: p0)
  from reach_step [OF reach_step [OF reach_refl 1] 2] c show ?thesis
    by (intro exI [of _ p0] exI [of _ "?p\<lparr>phase := Closing 0, before := accepted ?p\<rparr>"])
      (simp add: p0 x)
qed

lemma shut_pool:
  "\<exists>p\<^sub>0 p. created 2 empty_heap p\<^sub>0 \<and> pool_reach 2 p\<^sub>0 p \<and> phase p = Shut \<and> before p = [Some (7 :: nat)]"
proof -
  from closing_pool obtain p0 p :: "nat pool" where
    p: "created 2 empty_heap p0" "pool_reach 2 p0 p" "phase p = Closing 0" "before p = [Some 7]" by blast
  from created_inv [OF empty_heap_wf p(1)] pool_reach_inv [OF p(2)] obtain vs where
    "pool_inv 2 (map_of (cells empty_heap)) vs p" by blast
  from shutdown_ends [OF this] p(3) obtain q where q: "pool_reach 2 p q" "phase q = Shut" by auto
  from reach_before [OF q(1)] p(3,4) have "before q = [Some 7]" by simp
  with p(1) reach_trans [OF q(1) p(2)] q(2) show ?thesis by blast
qed

section \<open>Properties\<close>

text \<open>
  Property C24: the thread pool runs every task. In every run of a pool: a task is run at most as
  often as it was accepted, no worker dies of a closed channel, and when a shutdown is over every
  task accepted before it began has been run, exactly once each, and \<open>execute\<close> then throws
  instead of losing a task. Tasks accepted while the shutdown goes on may be lost: they queue
  behind the empty messages.
\<close>

theorem thread_pool_runs_all:
  assumes "heap_wf h" and "created n h p\<^sub>0" and "pool_reach n p\<^sub>0 p" and "0 < n"
  shows "mset (finished p) \<subseteq># mset (tasks_in (accepted p)) \<and>
    (\<forall>i e. worker p i \<noteq> Crashed e) \<and>
    (phase p = Shut \<longrightarrow> mset (tasks_in (before p)) \<subseteq># mset (finished p) \<and>
      (\<forall>i t r q. pool_step n p (Execute i t r) q \<longrightarrow>
         r = Throws (Logic_error ''mpmc closed in static thread pool'')))"
proof -
  from created_inv [OF assms(1,2)] pool_reach_inv [OF assms(3)] obtain vs where
    inv: "pool_inv n (map_of (cells h)) vs p" by blast
  have "mset (tasks_in (taken p)) = mset (finished p) + tally n task_of (worker p)"
    "accepted p = taken p @ vs" and crash: "\<forall>i e. worker p i \<noteq> Crashed e"
    using inv by (auto simp: pool_inv_def worker_part_def channel_part_def)
  then have le: "mset (finished p) \<subseteq># mset (tasks_in (accepted p))"
    by (metis mset_append mset_subset_eq_add_left subset_mset.order_trans tasks_in_append)
  have "r = Throws (Logic_error ''mpmc closed in static thread pool'')"
    if "phase p = Shut" and st: "pool_step n p (Execute i t r) q" for i t r q
    using st
  proof (cases rule: pool_step.cases)
    case (pool_execute r' s)
    from all_tasks_done(3) [OF inv that(1) assms(4)] inv
    have "consumder_count (chan (sys p)) = 0" by (simp add: pool_inv_def channel_part_def inv_parts)
    with pool_execute(4) have "r' = Err Closed"
      by (elim send_step) (simp add: send_def push_closed)
    with pool_execute(1) show ?thesis by simp
  qed
  with le crash all_tasks_done(1) [OF inv _ assms(4)] show ?thesis by blast
qed

theorem thread_pool_runs_all_witness:
  "\<exists>p\<^sub>0 p. created 2 empty_heap p\<^sub>0 \<and> pool_reach 2 p\<^sub>0 p \<and> before p = [Some (7 :: nat)] \<and>
    {#7#} \<subseteq># mset (finished p) \<and> mset (finished p) \<subseteq># mset (tasks_in (accepted p))"
proof -
  from shut_pool obtain p0 p :: "nat pool" where
    p: "created 2 empty_heap p0" "pool_reach 2 p0 p" "phase p = Shut" "before p = [Some 7]" by blast
  from thread_pool_runs_all [OF empty_heap_wf p(1,2)] p(3,4)
  have "mset [7] \<subseteq># mset (finished p)" "mset (finished p) \<subseteq># mset (tasks_in (accepted p))" by auto
  with p show ?thesis by auto
qed

text \<open>
  Property C25: a shutdown can always end. Whatever the workers and the tasks did before and during
  it, from every state in which the shutdown has begun the pool can reach the state in which all
  workers are joined: no worker is left waiting on the condition variable and no join blocks for
  ever.
\<close>

theorem shutdown_completes:
  assumes "heap_wf h" and "created n h p\<^sub>0" and "pool_reach n p\<^sub>0 p" and "phase p \<noteq> Open"
  shows "\<exists>q. pool_reach n p q \<and> phase q = Shut \<and> (\<forall>i < n. worker q i = Exited)"
proof -
  from created_inv [OF assms(1,2)] pool_reach_inv [OF assms(3)] obtain vs where
    inv: "pool_inv n (map_of (cells h)) vs p" by blast
  from shutdown_ends [OF inv assms(4)] obtain q where q: "pool_reach n p q" "phase q = Shut" by blast
  from pool_reach_inv [OF q(1) inv] obtain us where "pool_inv n (map_of (cells h)) us q" by blast
  with q show ?thesis by (auto simp: pool_inv_def phase_part_def)
qed

theorem shutdown_completes_witness:
  "\<exists>p\<^sub>0 p q. created 2 empty_heap p\<^sub>0 \<and> pool_reach 2 p\<^sub>0 p \<and> phase p = Closing 0 \<and> before p = [Some (7 :: nat)] \<and>
    pool_reach 2 p q \<and> phase q = Shut \<and> worker q 0 = Exited \<and> worker q 1 = Exited"
proof -
  from closing_pool obtain p0 p :: "nat pool" where
    p: "created 2 empty_heap p0" "pool_reach 2 p0 p" "phase p = Closing 0" "before p = [Some 7]" by blast
  from shutdown_completes [OF empty_heap_wf p(1,2)] p(3) obtain q where
    "pool_reach 2 p q" "phase q = Shut" "\<forall>i < 2. worker q i = Exited" by auto
  with p show ?thesis by fastforce
qed

end
