(* ===== verification/C_Buffer.thy ===== *)
theory C_Buffer
  imports Prelude
begin

text \<open>
  Arrays of \<open>char\<close> of a fixed size and the C string functions the sources use on them
  (\<open>std::strcpy\<close> in \<open>TCPAcceptor.cpp\<close>, \<open>std::strcat\<close> in \<open>Cgi.cpp\<close>). A cell that was never
  written is \<open>None\<close>; reading it, and writing past the end of the array, is \<open>Undefined\<close>.
\<close>

section \<open>Character arrays\<close>

type_synonym cells = "char option list"

fun c_length :: "cells \<Rightarrow> nat option" where
  "c_length [] = None"
| "c_length (None # cs) = None"
| "c_length (Some c # cs) = (if c = NUL then Some 0 else map_option Suc (c_length cs))"

definition write_cells :: "cells \<Rightarrow> nat \<Rightarrow> string \<Rightarrow> cells outcome" where
  "write_cells buf n s =
     (if n + length s \<le> length buf then Returns (take n buf @ map Some s @ drop (n + length s) buf)
      else Undefined)"

definition strcpy :: "cells \<Rightarrow> string \<Rightarrow> cells outcome" where
  "strcpy buf s = write_cells buf 0 (c_str s @ [NUL])"

definition strcat :: "cells \<Rightarrow> string \<Rightarrow> cells outcome" where
  "strcat buf s =
     (case c_length buf of None \<Rightarrow> Undefined | Some n \<Rightarrow> write_cells buf n (c_str s @ [NUL]))"

text \<open>What a reader of the array as a C string gets.\<close>

definition c_string :: "cells \<Rightarrow> string outcome" where
  "c_string buf =
     (case c_length buf of None \<Rightarrow> Undefined | Some n \<Rightarrow> Returns (map the (take n buf)))"

text \<open>An array that holds a string, with what is left of it.\<close>

definition holds_string :: "string \<Rightarrow> cells \<Rightarrow> cells \<Rightarrow> bool" where
  "holds_string s rest buf \<longleftrightarrow> NUL \<notin> set s \<and> buf = map Some s @ Some NUL # rest"

lemma holds_length: "holds_string s rest buf \<Longrightarrow> c_length buf = Some (length s)"
proof -
  have "NUL \<notin> set s \<Longrightarrow> c_length (map Some s @ Some NUL # rest) = Some (length s)"
    by (induction s) auto
  then show "holds_string s rest buf \<Longrightarrow> c_length buf = Some (length s)"
    by (simp add: holds_string_def)
qed

lemma holds_c_string: "holds_string s rest buf \<Longrightarrow> c_string buf = Returns s"
  by (frule holds_length) (simp add: c_string_def holds_string_def comp_def)

lemma strcat_holds:
  assumes "holds_string s rest buf" and "length (c_str x) \<le> length rest"
  shows "\<exists>buf'. strcat buf x = Returns buf' \<and>
    holds_string (s @ c_str x) (drop (length (c_str x)) rest) buf'"
proof -
  have buf: "buf = map Some s @ Some NUL # rest" "NUL \<notin> set s"
    using assms(1) by (simp_all add: holds_string_def)
  have "strcat buf x =
      Returns (map Some s @ map Some (c_str x @ [NUL]) @ drop (length (c_str x)) rest)"
    using assms(2) holds_length [OF assms(1)] by (simp add: strcat_def write_cells_def buf(1))
  moreover have "NUL \<notin> set (s @ c_str x)" using buf(2) by (simp add: c_str_no_NUL)
  ultimately show ?thesis by (simp add: holds_string_def)
qed

lemma strcpy_holds:
  assumes "length (c_str x) < length buf"
  shows "\<exists>buf'. strcpy buf x = Returns buf' \<and>
    holds_string (c_str x) (drop (Suc (length (c_str x))) buf) buf'"
  using assms by (auto simp: strcpy_def write_cells_def holds_string_def c_str_no_NUL)

end
