(* ===== verification/Descriptors.thy ===== *)
theory Descriptors
  imports Fut_Io C_Buffer
begin

text \<open>
  The classes that own a file descriptor: \<open>PipeSender\<close> and \<open>PipeReceiver\<close>
  (\<open>out-of-context/Pipe.hpp\<close>, \<open>Pipe.cpp\<close>), \<open>Socket\<close> (\<open>Socket.hpp\<close>, \<open>Socket.cpp\<close>) and
  \<open>TCPAcceptor\<close> (\<open>TCPAcceptor.hpp\<close>, \<open>TCPAcceptor.cpp\<close>), over the table of the process's open
  descriptors. The system calls' answers are arguments. Each class marks "no descriptor" with the
  number 0, moves by taking the number and leaving 0, and closes in its destructor, which is
  written out wherever the code runs one.
\<close>

section \<open>Descriptors and their owners\<close>

subsection \<open>The table of the process\<close>

datatype open_file =
    Pipe_read nat
  | Pipe_write nat
  | Inet_socket nat
  | Opened nat

type_synonym table = "fd \<Rightarrow> open_file option"

definition os_close :: "fd \<Rightarrow> table \<Rightarrow> table" where
  "os_close n t = t(n := None)"

text \<open>
  \<open>dup2(old, new)\<close>: the argument \<open>ok\<close> is false when the kernel refuses the call; a
  descriptor that is not open is always refused.
\<close>

definition os_dup2 :: "bool \<Rightarrow> fd \<Rightarrow> fd \<Rightarrow> table \<Rightarrow> fd \<times> table" where
  "os_dup2 ok old new t =
     (case t old of
        None \<Rightarrow> (-1, t)
      | Some f \<Rightarrow> if ok then (new, t(new \<mapsto> f)) else (-1, t))"

subsection \<open>Pipes\<close>

record pipe_receiver = receiver_fd :: fd
record pipe_sender = sender_fd :: fd

definition receiver_move :: "pipe_receiver \<Rightarrow> pipe_receiver \<times> pipe_receiver" where
  "receiver_move other = (\<lparr>receiver_fd = receiver_fd other\<rparr>, other\<lparr>receiver_fd := 0\<rparr>)"

definition receiver_close :: "pipe_receiver \<Rightarrow> table \<Rightarrow> pipe_receiver \<times> table" where
  "receiver_close p t =
     (if receiver_fd p \<noteq> 0 then (p\<lparr>receiver_fd := 0\<rparr>, os_close (receiver_fd p) t) else (p, t))"

definition receiver_freopen :: "bool \<Rightarrow> pipe_receiver \<Rightarrow> fd \<Rightarrow> table \<Rightarrow> fd \<times> table" where
  "receiver_freopen ok p new t = os_dup2 ok (receiver_fd p) new t"

definition sender_move :: "pipe_sender \<Rightarrow> pipe_sender \<times> pipe_sender" where
  "sender_move other = (\<lparr>sender_fd = sender_fd other\<rparr>, other\<lparr>sender_fd := 0\<rparr>)"

definition sender_close :: "pipe_sender \<Rightarrow> table \<Rightarrow> pipe_sender \<times> table" where
  "sender_close p t =
     (if sender_fd p \<noteq> 0 then (p\<lparr>sender_fd := 0\<rparr>, os_close (sender_fd p) t) else (p, t))"

definition sender_freopen :: "bool \<Rightarrow> pipe_sender \<Rightarrow> fd \<Rightarrow> table \<Rightarrow> fd \<times> table" where
  "sender_freopen ok p new t = os_dup2 ok (sender_fd p) new t"

text \<open>\<open>pipe2\<close> answers with the two descriptors, the reading one first, of a new pipe.\<close>

type_synonym pipe_answer = "(fd \<times> fd \<times> nat) sys"

definition make_pipe ::
  "pipe_answer \<Rightarrow> table \<Rightarrow> (pipe_sender \<times> pipe_receiver, io_error) res \<times> table" where
  "make_pipe answer t =
     (case answer of
        Sys_errno n \<Rightarrow> (Err (from_errno n), t)
      | Sys_ok (r, w, k) \<Rightarrow>
          let t = t(r \<mapsto> Pipe_read k, w \<mapsto> Pipe_write k);
              sender = \<lparr>sender_fd = w\<rparr>;
              receiver = \<lparr>receiver_fd = r\<rparr>;
              (moved_sender, sender) = sender_move sender;
              (moved_receiver, receiver) = receiver_move receiver;
              (receiver, t) = receiver_close receiver t;
              (sender, t) = sender_close sender t
          in (Ok (moved_sender, moved_receiver), t))"

subsection \<open>Sockets\<close>

record 'c socket =
  socket_fd :: fd
  socket_context :: 'c

definition socket_move :: "'c socket \<Rightarrow> 'c socket \<times> 'c socket" where
  "socket_move other =
     (\<lparr>socket_fd = socket_fd other, socket_context = socket_context other\<rparr>, other\<lparr>socket_fd := 0\<rparr>)"

definition socket_close :: "'c socket \<Rightarrow> table \<Rightarrow> 'c socket \<times> table" where
  "socket_close s t =
     (if socket_fd s \<noteq> 0 then (s\<lparr>socket_fd := 0\<rparr>, os_close (socket_fd s) t) else (s, t))"

definition socket_freopen :: "bool \<Rightarrow> 'c socket \<Rightarrow> fd \<Rightarrow> table \<Rightarrow> fd \<times> table" where
  "socket_freopen ok s new t = os_dup2 ok (socket_fd s) new t"

text \<open>
  \<open>Socket::conn_tcp_serv\<close>: \<open>connect\<close> is asked for the address \<open>inet_addr(ip)\<close> and the port.
  A failed \<open>connect\<close> returns without closing \<open>sockfd\<close>.
\<close>

definition conn_tcp_serv ::
  "(fd \<times> nat) sys \<Rightarrow> (string \<Rightarrow> 16 word \<Rightarrow> unit sys) \<Rightarrow> string \<Rightarrow> 16 word \<Rightarrow> 'c \<Rightarrow> table \<Rightarrow>
   ('c socket, io_error) res \<times> table" where
  "conn_tcp_serv socket connect ip port ctx t =
     (case socket of
        Sys_errno n \<Rightarrow> (Err (from_errno n), t)
      | Sys_ok (sockfd, k) \<Rightarrow>
          let t = t(sockfd \<mapsto> Inet_socket k)
          in (case connect ip port of
                Sys_errno n \<Rightarrow> (Err (from_errno n), t)
              | Sys_ok _ \<Rightarrow> (Ok \<lparr>socket_fd = sockfd, socket_context = ctx\<rparr>, t)))"

text \<open>
  The blocking loops. The list holds what the successive calls of \<open>write(2)\<close> and \<open>read(2)\<close>
  answer; when it runs out the loop is still running (\<open>None\<close>).
\<close>

fun sock_write_all :: "nat sys list \<Rightarrow> bytes \<Rightarrow> nat \<Rightarrow> bytes \<Rightarrow> (nat, io_error) res option \<times> bytes" where
  "sock_write_all [] data write_cnt out = (None, out)"
| "sock_write_all (r # rs) data write_cnt out =
     (case socket_write_part r (length data - write_cnt) of
        Err e \<Rightarrow> (Some (Err e), out)
      | Ok n \<Rightarrow>
          let out = out @ take n (drop write_cnt data); write_cnt = write_cnt + n
          in if write_cnt = length data then (Some (Ok write_cnt), out)
             else sock_write_all rs data write_cnt out)"

fun sock_read_into :: "bytes sys list \<Rightarrow> bytes \<Rightarrow> (unit, io_error) res option \<times> bytes" where
  "sock_read_into [] buf = (None, buf)"
| "sock_read_into (r # rs) buf =
     (case socket_read_part r of
        Err e \<Rightarrow> (Some (Err e), buf)
      | Ok part \<Rightarrow> if length part = 0 then (Some (Ok ()), buf) else sock_read_into rs (buf @ part))"

definition sock_read_vec :: "bytes sys list \<Rightarrow> (bytes, io_error) res option" where
  "sock_read_vec rs =
     (let (v, data) = sock_read_into rs [] in map_option (\<lambda>r. map_res r (\<lambda>_. data)) v)"

subsection \<open>The acceptor\<close>

text \<open>
  \<open>InAddrInfo\<close>. Its address is an array of 18 characters, zeroed by its initialiser;
  \<open>port\<close> is an \<open>int\<close>.
\<close>

record in_addr_info =
  addr_ip :: cells
  addr_port :: int

definition in_addr_info_init :: in_addr_info where
  "in_addr_info_init = \<lparr>addr_ip = replicate 18 (Some NUL), addr_port = 0\<rparr>"

text \<open>\<open>inet_ntoa\<close>: the four bytes of the address in decimal, separated by dots.\<close>

type_synonym in_addr = "8 word \<times> 8 word \<times> 8 word \<times> 8 word"

definition inet_ntoa :: "in_addr \<Rightarrow> string" where
  "inet_ntoa a =
     (case a of (p, q, r, s) \<Rightarrow>
        to_string (unat p) @ ''.'' @ to_string (unat q) @ ''.'' @ to_string (unat r) @ ''.'' @
        to_string (unat s))"

record 'c acceptor =
  acceptor_fd :: fd
  acceptor_context :: 'c

definition acceptor_move :: "'c acceptor \<Rightarrow> 'c acceptor \<times> 'c acceptor" where
  "acceptor_move other =
     (\<lparr>acceptor_fd = acceptor_fd other, acceptor_context = acceptor_context other\<rparr>,
      other\<lparr>acceptor_fd := 0\<rparr>)"

definition acceptor_close :: "'c acceptor \<Rightarrow> table \<Rightarrow> 'c acceptor \<times> table" where
  "acceptor_close s t =
     (if acceptor_fd s \<noteq> 0 then (s\<lparr>acceptor_fd := 0\<rparr>, os_close (acceptor_fd s) t) else (s, t))"

text \<open>
  \<open>TCPAcceptor::local_with_port\<close>: \<open>bind\<close> is asked for the port, narrowed to 16 bits, and
  \<open>listen\<close> for a backlog of 512. On failure the descriptor is closed first and \<open>errno\<close> is
  read after that, so that it is the one of \<open>close\<close> when \<open>close\<close> fails too.
\<close>

definition LISTEN_BACKLOG :: nat where "LISTEN_BACKLOG = 512"

definition errno_after :: "unit sys \<Rightarrow> int \<Rightarrow> int" where
  "errno_after closed n = (case closed of Sys_errno m \<Rightarrow> m | Sys_ok _ \<Rightarrow> n)"

definition local_with_port ::
  "(fd \<times> nat) sys \<Rightarrow> (16 word \<Rightarrow> unit sys) \<Rightarrow> (nat \<Rightarrow> unit sys) \<Rightarrow> unit sys \<Rightarrow> int \<Rightarrow> 'c \<Rightarrow> table \<Rightarrow>
   ('c acceptor, io_error) res \<times> table" where
  "local_with_port socket bind listen closed port ctx t =
     (case socket of
        Sys_errno n \<Rightarrow> (Err (from_errno n), t)
      | Sys_ok (sockfd, k) \<Rightarrow>
          let t = t(sockfd \<mapsto> Inet_socket k)
          in (case bind (word_of_int port) of
                Sys_errno n \<Rightarrow> (Err (from_errno (errno_after closed n)), os_close sockfd t)
              | Sys_ok _ \<Rightarrow>
                 (case listen LISTEN_BACKLOG of
                    Sys_errno n \<Rightarrow> (Err (from_errno (errno_after closed n)), os_close sockfd t)
                  | Sys_ok _ \<Rightarrow> (Ok \<lparr>acceptor_fd = sockfd, acceptor_context = ctx\<rparr>, t))))"

text \<open>\<open>accept\<close> answers with the descriptor, the socket and the client's address and port.\<close>

type_synonym accept_answer = "(fd \<times> nat \<times> in_addr \<times> 16 word) sys"

definition acceptor_accept_conn ::
  "accept_answer \<Rightarrow> 'c acceptor \<Rightarrow> table \<Rightarrow>
   (('c socket \<times> in_addr_info, io_error) res \<times> table) outcome" where
  "acceptor_accept_conn answer acc t =
     (case answer of
        Sys_errno n \<Rightarrow> Returns (Err (from_errno n), t)
      | Sys_ok (conn_fd, k, sin_addr, sin_port) \<Rightarrow>
          bind_outcome (strcpy (addr_ip in_addr_info_init) (inet_ntoa sin_addr)) (\<lambda>ip.
            Returns
              (Ok (\<lparr>socket_fd = conn_fd, socket_context = acceptor_context acc\<rparr>,
                   in_addr_info_init\<lparr>addr_ip := ip, addr_port := uint sin_port\<rparr>),
               t(conn_fd \<mapsto> Inet_socket k))))"

text \<open>\<open>FutTCPAcceptor::accept_conn\<close>: the handler, called with the event that woke it.\<close>

definition fut_accept_conn ::
  "event_type \<times> accept_answer \<Rightarrow> 'c acceptor \<Rightarrow> table \<Rightarrow>
   (('c socket \<times> in_addr_info, io_error) res \<times> table) outcome" where
  "fut_accept_conn w acc t =
     (if fst w = CLOSED then Returns (Err CONNECTION_CLOSED, t)
      else if fst w = ERROR then Returns (Err IO_UNDEFINED, t)
      else acceptor_accept_conn (snd w) acc t)"

subsection \<open>What owning a descriptor means\<close>

text \<open>
  The discipline all four classes follow: the new object has the number, the moved-from one has
  none; \<open>close\<close> closes exactly the number the object has and leaves it with none.
\<close>

locale descriptor_owner =
  fixes number :: "'o \<Rightarrow> fd"
    and move_op :: "'o \<Rightarrow> 'o \<times> 'o"
    and close_op :: "'o \<Rightarrow> table \<Rightarrow> 'o \<times> table"
  assumes move_new: "number (fst (move_op x)) = number x"
    and move_old: "number (snd (move_op x)) = 0"
    and close_number: "number (fst (close_op x t)) = 0"
    and close_table: "snd (close_op x t) = (if number x = 0 then t else os_close (number x) t)"
begin

text \<open>Closing is done once, whoever runs the destructor later.\<close>

lemma close_twice: "close_op x t = (y, t') \<Longrightarrow> snd (close_op y t'') = t''"
  using close_number [of x t] by (simp add: close_table)

text \<open>The destructor of a moved-from object closes nothing.\<close>

lemma moved_from_silent: "move_op x = (y, x') \<Longrightarrow> snd (close_op x' t) = t"
  using move_old [of x] by (simp add: close_table)

text \<open>Moving and destroying both objects, in either order, closes what the one object owned.\<close>

lemma move_then_destroy:
  assumes "move_op x = (y, x')"
  shows "snd (close_op x' (snd (close_op y t))) = snd (close_op x t)"
    and "snd (close_op y (snd (close_op x' t))) = snd (close_op x t)"
  using move_new [of x] move_old [of x] assms by (simp_all add: close_table)

end

interpretation receiver: descriptor_owner receiver_fd receiver_move receiver_close
  by unfold_locales (simp_all add: receiver_move_def receiver_close_def)

interpretation sender: descriptor_owner sender_fd sender_move sender_close
  by unfold_locales (simp_all add: sender_move_def sender_close_def)

interpretation sock: descriptor_owner socket_fd socket_move socket_close
  by unfold_locales (simp_all add: socket_move_def socket_close_def)

interpretation acceptor: descriptor_owner acceptor_fd acceptor_move acceptor_close
  by unfold_locales (simp_all add: acceptor_move_def acceptor_close_def)

lemmas owner_tables = receiver.close_table sender.close_table sock.close_table acceptor.close_table

lemma make_pipe_Ok:
  "make_pipe (Sys_ok (r, w, k)) t =
     (Ok (\<lparr>sender_fd = w\<rparr>, \<lparr>receiver_fd = r\<rparr>), t(r \<mapsto> Pipe_read k, w \<mapsto> Pipe_write k))"
  by (simp add: make_pipe_def sender_move_def receiver_move_def sender_close_def receiver_close_def)

lemma make_pipe_Err: "make_pipe (Sys_errno n) t = (Err (from_errno n), t)"
  by (simp add: make_pipe_def)

text \<open>A dotted address is short and is a C string of its own.\<close>

lemma to_string_step: "length (to_string n) = (if n < 10 then 1 else Suc (length (to_string (n div 10))))"
  by (subst to_string.simps) simp

lemma byte_text_short: "length (to_string (unat (b :: 8 word))) \<le> 3"
proof -
  have "unat b < 256" using unsigned_less [of b, where ?'a = nat] by simp
  then have "unat b div 10 div 10 < 10" by linarith
  then have "length (to_string (unat b div 10 div 10)) = 1" by (simp add: to_string_step)
  then show ?thesis
    by (subst to_string_step, subst to_string_step) simp
qed

lemma inet_ntoa_text:
  shows inet_ntoa_short: "length (inet_ntoa a) \<le> 15"
    and inet_ntoa_c_str: "c_str (inet_ntoa a) = inet_ntoa a"
proof -
  obtain p q r s where a: "a = (p, q, r, s)" by (cases a)
  show "length (inet_ntoa a) \<le> 15"
    using byte_text_short [of p] byte_text_short [of q] byte_text_short [of r] byte_text_short [of s]
    by (simp add: inet_ntoa_def a)
  have "NUL \<notin> set (to_string n)" for n using to_string_digits digit_props(4) by metis
  then show "c_str (inet_ntoa a) = inet_ntoa a"
    by (intro c_str_id) (simp add: inet_ntoa_def a)
qed

lemma accept_copies_address:
  "\<exists>ip rest. strcpy (addr_ip in_addr_info_init) (inet_ntoa a) = Returns ip \<and>
     holds_string (inet_ntoa a) rest ip"
proof -
  have "length (inet_ntoa a) < length (addr_ip in_addr_info_init)"
    using inet_ntoa_short [of a] by (simp add: in_addr_info_init_def)
  with strcpy_holds [of "inet_ntoa a" "addr_ip in_addr_info_init"] show ?thesis
    by (auto simp: inet_ntoa_c_str)
qed

lemma sock_write_all_sends:
  assumes "sock_write_all rs data n (take n data) = (r, out)" and "n \<le> length data"
  shows "(\<exists>k. out = take k data) \<and> (\<forall>m. r = Some (Ok m) \<longrightarrow> m = length data \<and> out = data)"
  using assms
proof (induction rs arbitrary: n)
  case Nil
  then show ?case by auto
next
  case (Cons a rs)
  show ?case
  proof (cases "socket_write_part a (length data - n)")
    case (Err e)
    with Cons.prems show ?thesis by auto
  next
    case (Ok k)
    then have bound: "n + k \<le> length data"
      using Cons.prems(2) by (auto simp: socket_write_part_def split: sys.splits if_splits)
    have out: "take n data @ take k (drop n data) = take (n + k) data"
      by (simp add: take_add)
    show ?thesis
    proof (cases "n + k = length data")
      case True
      with Ok Cons.prems(1) out have "out = data" "r = Some (Ok (length data))" by auto
      moreover have "data = take (length data) data" by simp
      ultimately show ?thesis by blast
    next
      case False
      with Ok Cons.prems(1) out have "sock_write_all rs data (n + k) (take (n + k) data) = (r, out)"
        by simp
      from Cons.IH [OF this bound] show ?thesis .
    qed
  qed
qed

lemma sock_read_into_parts:
  "list_all (\<lambda>x. x \<noteq> []) parts \<Longrightarrow>
     sock_read_into (map Sys_ok parts @ rs) buf = sock_read_into rs (buf @ concat parts)"
  by (induction parts arbitrary: buf) (simp_all add: socket_read_part_def)

subsection \<open>What the descriptor owners guarantee\<close>

text \<open>
  Property C33: accepting a connection. Whatever wakes the acceptor and whatever the system
  answers, the handler comes to an end without undefined behaviour: the copy of the client's
  address fits into the 18 characters of \<open>InAddrInfo\<close> for every address. A failure leaves the
  descriptors as they were; a success opens exactly one, owned by the returned socket, and the
  information holds the dotted address and the port of the client.
\<close>

theorem accept_conn_safe:
  "\<exists>r t'. fut_accept_conn w acc t = Returns (r, t') \<and>
     (case r of
        Err e \<Rightarrow> t' = t
      | Ok (s, info) \<Rightarrow>
         (\<exists>k a p. snd w = Sys_ok (socket_fd s, k, a, p) \<and> t' = t(socket_fd s \<mapsto> Inet_socket k) \<and>
            socket_context s = acceptor_context acc \<and> c_string (addr_ip info) = Returns (inet_ntoa a) \<and>
            addr_port info = uint p))"
proof (cases "fst w = CLOSED \<or> fst w = ERROR")
  case True
  then show ?thesis by (auto simp: fut_accept_conn_def)
next
  case False
  show ?thesis
  proof (cases "snd w")
    case (Sys_errno n)
    with False show ?thesis by (simp add: fut_accept_conn_def acceptor_accept_conn_def)
  next
    case (Sys_ok x)
    then obtain s k a p where w: "snd w = Sys_ok (s, k, a, p)" by (metis prod_cases4)
    obtain ip rest where ip: "strcpy (addr_ip in_addr_info_init) (inet_ntoa a) = Returns ip"
        "holds_string (inet_ntoa a) rest ip"
      using accept_copies_address by blast
    then show ?thesis
      using False by (simp add: fut_accept_conn_def acceptor_accept_conn_def w holds_c_string [OF ip(2)])
  qed
qed

text \<open>
  Property C34: descriptors on the ways to a connection. When the system hands out a descriptor that
  was not in use, a listening socket that could be set up gives the table of descriptors back when
  it is closed, and one that could not (\<open>bind\<close> or \<open>listen\<close> refused) has been given back already.
  The same holds of an outgoing connection that succeeds; one that \<open>connect\<close> refuses leaves its
  descriptor open for ever.
\<close>

theorem connection_descriptors:
  assumes "\<And>s k. answer = Sys_ok (s, k) \<Longrightarrow> t s = None \<and> s \<noteq> 0"
  shows "(case local_with_port answer bind listen closed port ctx t of
       (Ok acc, t') \<Rightarrow> snd (acceptor_close acc t') = t
     | (Err e, t') \<Rightarrow> t' = t) \<and>
    (case conn_tcp_serv answer connect ip p ctx t of
       (Ok s, t') \<Rightarrow> snd (socket_close s t') = t
     | (Err e, t') \<Rightarrow>
        (case answer of
           Sys_errno n \<Rightarrow> t' = t \<and> e = from_errno n
         | Sys_ok (s, k) \<Rightarrow>
             t' = t(s \<mapsto> Inet_socket k) \<and> (\<exists>n. connect ip p = Sys_errno n \<and> e = from_errno n)))"
proof (cases answer)
  case (Sys_errno n)
  then show ?thesis by (simp add: local_with_port_def conn_tcp_serv_def)
next
  case (Sys_ok x)
  then obtain s k where a: "answer = Sys_ok (s, k)" by (cases x) simp
  then have closed_again: "t(s := None) = t" "s \<noteq> 0" using assms by auto
  show ?thesis
    by (simp add: a local_with_port_def conn_tcp_serv_def Let_def acceptor.close_table sock.close_table
        os_close_def closed_again split: sys.splits)
qed

text \<open>The hypothesis at a first socket, number 3, that the peer refuses.\<close>

theorem connection_descriptors_witness:
  "snd (conn_tcp_serv (Sys_ok (3, 0)) (\<lambda>ip p. Sys_errno 111) ''127.0.0.1'' 8080 () (\<lambda>n. None)) =
     [3 \<mapsto> Inet_socket 0]"
  using connection_descriptors [of "Sys_ok (3, 0)" "\<lambda>n. None" "\<lambda>p. Sys_ok ()" "\<lambda>n. Sys_ok ()" "Sys_ok ()"
      8080 "()" "\<lambda>ip p. Sys_errno 111" "''127.0.0.1''" 8080]
  by (simp add: conn_tcp_serv_def split: prod.splits res.splits)

text \<open>
  The blocking helpers of a socket. \<open>write_all\<close> sends a prefix of its data, all of it
  when it succeeds, and then returns its size. \<open>read_vec\<close> collects what the reads deliver up to the
  first empty one, and takes a socket that has nothing to read yet (\<open>EAGAIN\<close>) for one that is at
  its end.
\<close>

lemma blocking_io:
  "(case sock_write_all rs data 0 [] of
      (r, out) \<Rightarrow> out = take (length out) data \<and>
        (case r of Some (Ok n) \<Rightarrow> n = length data \<and> out = data | _ \<Rightarrow> True)) \<and>
   sock_read_vec (map Sys_ok (filter (\<lambda>x. x \<noteq> []) parts) @ Sys_ok [] # later) = Some (Ok (concat parts)) \<and>
   sock_read_vec (map Sys_ok (filter (\<lambda>x. x \<noteq> []) parts) @ Sys_errno EAGAIN # later) =
     Some (Ok (concat parts))"
proof -
  obtain r out where w: "sock_write_all rs data 0 (take 0 data) = (r, out)"
    by (cases "sock_write_all rs data 0 (take 0 data)")
  from sock_write_all_sends [OF w] have
    sends: "(\<exists>k. out = take k data) \<and> (\<forall>m. r = Some (Ok m) \<longrightarrow> m = length data \<and> out = data)"
    by simp
  then have "out = take (length out) data" by (auto simp: min_def)
  moreover have "case r of Some (Ok n) \<Rightarrow> n = length data \<and> out = data | _ \<Rightarrow> True"
    using sends by (auto split: option.splits res.splits)
  moreover have "concat (filter (\<lambda>x. x \<noteq> []) parts) = concat parts" by (induction parts) auto
  moreover have "list_all (\<lambda>x. x \<noteq> []) (filter (\<lambda>x. x \<noteq> []) parts)" by (simp add: list_all_iff)
  ultimately show ?thesis
    using w by (simp add: sock_read_vec_def sock_read_into_parts socket_read_part_def)
qed

end
