(* ===== verification/Cgi.thy ===== *)
theory Cgi
  imports Http_Transfer Descriptors
begin

text \<open>
  The CGI client, \<open>http/cgi/Cgi.cpp\<close>: the environment block built for the child (on a heap of
  arrays, so that its allocation and its release are both checked), the two pipes and the child
  process, and the exchange of a request and a response over them. \<open>fork\<close> returns in two
  processes; \<open>object_from\<close> is what one of them does, chosen by what \<open>fork\<close> returned there.
\<close>

section \<open>The CGI client\<close>

subsection \<open>The environment of the child\<close>

text \<open>
  Arrays from \<open>new[]\<close>: characters, or pointers, where \<open>None\<close> is a pointer never assigned
  and 0 is \<open>NULL\<close>. Addresses are handed out in order and never used again.
\<close>

datatype array = Chars cells | Pointers "nat option list"

record c_heap =
  arrays :: "nat \<Rightarrow> array option"
  next_array :: nat

definition new_array :: "array \<Rightarrow> c_heap \<Rightarrow> nat \<times> c_heap" where
  "new_array a h =
     (next_array h, h\<lparr>arrays := (arrays h)(next_array h \<mapsto> a), next_array := Suc (next_array h)\<rparr>)"

definition delete_array :: "nat \<Rightarrow> c_heap \<Rightarrow> c_heap outcome" where
  "delete_array p h =
     (case arrays h p of None \<Rightarrow> Undefined | Some _ \<Rightarrow> Returns (h\<lparr>arrays := (arrays h)(p := None)\<rparr>))"

definition set_pointer :: "nat \<Rightarrow> nat \<Rightarrow> nat \<Rightarrow> c_heap \<Rightarrow> c_heap outcome" where
  "set_pointer env i p h =
     (case arrays h env of
        Some (Pointers ps) \<Rightarrow>
          if i < length ps then Returns (h\<lparr>arrays := (arrays h)(env \<mapsto> Pointers (ps[i := Some p]))\<rparr>)
          else Undefined
      | _ \<Rightarrow> Undefined)"

text \<open>One \<open>env[i]\<close>: an array of exactly the size of the entry, filled by three \<open>strcat\<close>s.\<close>

definition env_entry :: "string \<times> string \<Rightarrow> cells outcome" where
  "env_entry item =
     bind_outcome (write_cells (replicate (length (fst item) + length (snd item) + 2) None) 0 [NUL])
       (\<lambda>buf. bind_outcome (strcat buf (fst item))
         (\<lambda>buf. bind_outcome (strcat buf ''='') (\<lambda>buf. strcat buf (snd item))))"

fun fill_env :: "(string, string) std_map \<Rightarrow> nat \<Rightarrow> nat \<Rightarrow> c_heap \<Rightarrow> c_heap outcome" where
  "fill_env [] env i h = set_pointer env i 0 h"
| "fill_env (item # items) env i h =
     bind_outcome (env_entry item) (\<lambda>buf.
       let (p, h) = new_array (Chars buf) h
       in bind_outcome (set_pointer env i p h) (\<lambda>h. fill_env items env (Suc i) h))"

definition env_from_headers :: "(string, string) std_map \<Rightarrow> c_heap \<Rightarrow> (nat \<times> c_heap) outcome" where
  "env_from_headers headers h =
     (let (env, h) = new_array (Pointers (replicate (Suc (length headers)) None)) h
      in bind_outcome (fill_env headers env 0 h) (\<lambda>h. Returns (env, h)))"

definition pointer_at :: "nat \<Rightarrow> nat \<Rightarrow> c_heap \<Rightarrow> nat option" where
  "pointer_at env i h =
     (case arrays h env of
        Some (Pointers ps) \<Rightarrow> if i < length ps then ps ! i else None
      | _ \<Rightarrow> None)"

lemma pointer_at_delete:
  "delete_array p h = Returns h' \<Longrightarrow>
     pointer_at env i h' = (if p = env then None else pointer_at env i h)"
  by (auto simp: delete_array_def pointer_at_def split: option.splits if_splits)

lemma pointer_at_bound:
  "pointer_at env i h = Some p \<Longrightarrow> \<exists>ps. arrays h env = Some (Pointers ps) \<and> i < length ps \<and> ps ! i = Some p"
  by (auto simp: pointer_at_def split: option.splits array.splits if_splits)

definition pointers_left :: "nat \<Rightarrow> nat \<Rightarrow> c_heap \<Rightarrow> nat" where
  "pointers_left env i h =
     (case arrays h env of Some (Pointers ps) \<Rightarrow> length ps - i | _ \<Rightarrow> 0)"

function clear_env_from :: "nat \<Rightarrow> nat \<Rightarrow> c_heap \<Rightarrow> c_heap outcome" where
  "clear_env_from env i h =
     (case pointer_at env i h of
        None \<Rightarrow> Undefined
      | Some p \<Rightarrow>
          if p = 0 then delete_array env h
          else bind_outcome (delete_array p h) (\<lambda>h. clear_env_from env (Suc i) h))"
  by pat_completeness auto
termination
proof (relation "measure (\<lambda>(env, i, h). pointers_left env i h)")
  fix env i h p h'
  assume p: "pointer_at env i h = Some p" and "delete_array p h = Returns h'"
  then obtain ps where ps: "arrays h env = Some (Pointers ps)" "i < length ps"
    using pointer_at_bound [OF p] by auto
  from \<open>delete_array p h = Returns h'\<close> have "arrays h' env = (if env = p then None else arrays h env)"
    by (auto simp: delete_array_def split: option.splits)
  with ps show "((env, Suc i, h'), (env, i, h)) \<in> measure (\<lambda>(env, i, h). pointers_left env i h)"
    by (simp add: pointers_left_def diff_less_mono2)
qed simp

declare clear_env_from.simps [simp del]

definition clear_env :: "nat \<Rightarrow> c_heap \<Rightarrow> c_heap outcome" where
  "clear_env env h = clear_env_from env 0 h"

text \<open>What \<open>execve\<close> sees of the block: the strings up to the null pointer.\<close>

function env_strings :: "nat \<Rightarrow> nat \<Rightarrow> c_heap \<Rightarrow> string list outcome" where
  "env_strings env i h =
     (case pointer_at env i h of
        None \<Rightarrow> Undefined
      | Some p \<Rightarrow>
          if p = 0 then Returns []
          else (case arrays h p of
                  Some (Chars buf) \<Rightarrow>
                    bind_outcome (c_string buf) (\<lambda>s.
                      bind_outcome (env_strings env (Suc i) h) (\<lambda>ss. Returns (s # ss)))
                | _ \<Rightarrow> Undefined))"
  by pat_completeness auto
termination
proof (relation "measure (\<lambda>(env, i, h). pointers_left env i h)")
  fix env i h p
  assume "pointer_at env i h = Some p"
  then obtain ps where "arrays h env = Some (Pointers ps)" "i < length ps"
    using pointer_at_bound by blast
  then show "((env, Suc i, h), (env, i, h)) \<in> measure (\<lambda>(env, i, h). pointers_left env i h)"
    by (simp add: pointers_left_def)
qed simp

declare env_strings.simps [simp del]

subsection \<open>The child process\<close>

text \<open>What the system answers in one process, and the part of the process that matters here.\<close>

record answers =
  first_pipe :: pipe_answer
  second_pipe :: pipe_answer
  fork_pid :: int
  dup_stdout :: bool
  dup_stdin :: bool
  execve_fails :: bool

record process =
  files :: table
  memory :: c_heap

text \<open>\<open>AsyncPipeReceiver\<close>, \<open>AsyncPipeSender\<close> and the \<open>cgi::object\<close> that holds one of each.\<close>

record 'c async_receiver =
  async_receiver :: pipe_receiver
  receiver_context :: 'c

record 'c async_sender =
  async_sender :: pipe_sender
  sender_context :: 'c

record 'c cgi_object =
  from_cgi :: "'c async_receiver"
  to_cgi :: "'c async_sender"

text \<open>
  How \<open>object::from\<close> leaves the process: it returns, the process exits, or it has become
  the shell with these arguments and this environment.
\<close>

datatype 'c from_end =
    Returned "('c cgi_object, string) res"
  | Exited int
  | Replaced "string list" "string list"

definition shell_argv :: "string \<Rightarrow> string list" where
  "shell_argv path = [''sh'', ''-c'', c_str path]"

definition exec_child :: "bool \<Rightarrow> string \<Rightarrow> (string, string) std_map \<Rightarrow> c_heap \<Rightarrow> ('c from_end \<times> c_heap) outcome" where
  "exec_child fails path headers h =
     bind_outcome (env_from_headers headers h) (\<lambda>(env, h).
       bind_outcome (env_strings env 0 h) (\<lambda>strings.
         if fails then bind_outcome (clear_env env h) (\<lambda>h. Returns (Exited (-1), h))
         else Returns (Replaced (shell_argv path) strings, h)))"

text \<open>
  The child: it closes the server's ends, puts its own on descriptors 1 and 0, and closes the
  originals. \<open>or\<close> does not run its second operand when the first \<open>freopen\<close> fails.
\<close>

definition child_branch ::
  "answers \<Rightarrow> string \<Rightarrow> (string, string) std_map \<Rightarrow>
   pipe_sender \<times> pipe_receiver \<Rightarrow> pipe_sender \<times> pipe_receiver \<Rightarrow> process \<Rightarrow>
   ('c from_end \<times> process) outcome" where
  "child_branch a path headers requests responses pr =
     (let (serv_sender, cgi_receiver) = requests;
          (cgi_sender, serv_receiver) = responses;
          (serv_receiver, t) = receiver_close serv_receiver (files pr);
          (serv_sender, t) = sender_close serv_sender t;
          (done1, t) = sender_freopen (dup_stdout a) cgi_sender 1 t;
          (done0, t) = (if done1 = -1 then (-1, t) else receiver_freopen (dup_stdin a) cgi_receiver 0 t);
          (cgi_sender, t) = sender_close cgi_sender t;
          (cgi_receiver, t) = receiver_close cgi_receiver t
      in if done1 = -1 \<or> done0 = -1 then Returns (Exited (-1), pr\<lparr>files := t\<rparr>)
         else bind_outcome (exec_child (execve_fails a) path headers (memory pr)) (\<lambda>(e, h).
           Returns (e, pr\<lparr>files := t, memory := h\<rparr>)))"

text \<open>The destructor of a pair of ends, the last member first.\<close>

definition destroy_ends :: "pipe_sender \<times> pipe_receiver \<Rightarrow> table \<Rightarrow> table" where
  "destroy_ends p t = snd (sender_close (fst p) (snd (receiver_close (snd p) t)))"

text \<open>The parent: it keeps the server's ends in the object; the destructors close the child's.\<close>

definition parent_branch ::
  "'c \<Rightarrow> pipe_sender \<times> pipe_receiver \<Rightarrow> pipe_sender \<times> pipe_receiver \<Rightarrow> process \<Rightarrow>
   'c from_end \<times> process" where
  "parent_branch ctx requests responses pr =
     (let (serv_sender, cgi_receiver) = requests;
          (cgi_sender, serv_receiver) = responses;
          (receiver, serv_receiver) = receiver_move serv_receiver;
          (sender, serv_sender) = sender_move serv_sender;
          ob = \<lparr>from_cgi = \<lparr>async_receiver = receiver, receiver_context = ctx\<rparr>,
                to_cgi = \<lparr>async_sender = sender, sender_context = ctx\<rparr>\<rparr>;
          t = destroy_ends (cgi_sender, serv_receiver) (files pr);
          t = destroy_ends (serv_sender, cgi_receiver) t
      in (Returned (Ok ob), pr\<lparr>files := t\<rparr>))"

definition object_from ::
  "answers \<Rightarrow> 'c \<Rightarrow> string \<Rightarrow> (string, string) std_map \<Rightarrow> process \<Rightarrow>
   ('c from_end \<times> process) outcome" where
  "object_from a ctx path headers pr =
     (case make_pipe (first_pipe a) (files pr) of
        (Err _, t) \<Rightarrow> Returns (Returned (Err ''pipe''), pr\<lparr>files := t\<rparr>)
      | (Ok requests, t) \<Rightarrow>
         (case make_pipe (second_pipe a) t of
            (Err _, t) \<Rightarrow> Returns (Returned (Err ''pipe''), pr\<lparr>files := destroy_ends requests t\<rparr>)
          | (Ok responses, t) \<Rightarrow>
              if fork_pid a = -1 then
                Returns (Returned (Err ''fork''),
                  pr\<lparr>files := destroy_ends requests (destroy_ends responses t)\<rparr>)
              else if fork_pid a = 0 then child_branch a path headers requests responses (pr\<lparr>files := t\<rparr>)
              else Returns (parent_branch ctx requests responses (pr\<lparr>files := t\<rparr>))))"

subsection \<open>The exchange\<close>

text \<open>
  \<open>cgi::send_request\<close>: the request is written to the child, then the response is read from it.
  The wake-up lists are those of the two pipes; the second component is what the child has been
  sent. \<open>None\<close> is a future that is still pending.
\<close>

definition cgi_send_request ::
  "('c cgi_object, string) res \<Rightarrow> request \<Rightarrow> write_wakeup list \<Rightarrow> read_wakeup list \<Rightarrow>
   (response, string) res outcome option \<times> bytes" where
  "cgi_send_request from req ws rs =
     (case from of
        Err e \<Rightarrow> (Some (Returns (Err e)), [])
      | Ok ob \<Rightarrow>
         (case write_entity request_get_data request_state ws (RequestSerializer req) 0 [] of
            (None, out, _) \<Rightarrow> (None, out)
          | (Some (Err e), out, _) \<Rightarrow>
              (Some (bind_outcome (error_description e) (\<lambda>d.
                 Returns (Err (''cgi::send_request '' @ d)))), out)
          | (Some (Ok _), out, _) \<Rightarrow>
              (map_option (\<lambda>answer. bind_outcome answer (\<lambda>res.
                  case res of Err _ \<Rightarrow> Returns (Err ''http error'') | Ok r \<Rightarrow> Returns (Ok r)))
                (read_entity ResponseParser_call response_create_entity http_error_of_io rs ResponseParser),
               out)))"

subsection \<open>The environment block is exact\<close>

definition entry_text :: "string \<times> string \<Rightarrow> string" where
  "entry_text item = c_str (fst item) @ ''='' @ c_str (snd item)"

lemma env_entry_holds:
  "\<exists>buf rest. env_entry item = Returns buf \<and> holds_string (entry_text item) rest buf"
proof -
  define n where "n = length (fst item) + length (snd item) + 2"
  define rest :: cells where "rest = replicate (n - 1) None"
  have b0: "write_cells (replicate n None) 0 [NUL] = Returns (Some NUL # rest)"
    by (simp add: write_cells_def n_def rest_def)
  have h0: "holds_string [] rest (Some NUL # rest)" by (simp add: holds_string_def)
  have room: "length (c_str (fst item)) + 1 + length (c_str (snd item)) \<le> length rest"
    using length_c_str [of "fst item"] length_c_str [of "snd item"] by (simp add: rest_def n_def)
  obtain b1 where b1: "strcat (Some NUL # rest) (fst item) = Returns b1"
      "holds_string (c_str (fst item)) (drop (length (c_str (fst item))) rest) b1"
    using strcat_holds [OF h0, of "fst item"] room by auto
  have sep: "c_str ''='' = ''=''" by (rule c_str_id) simp
  have sep_room: "length (c_str ''='') \<le> length (drop (length (c_str (fst item))) rest)"
    using room by (simp add: sep)
  obtain b2 where b2: "strcat b1 ''='' = Returns b2"
      "holds_string (c_str (fst item) @ ''='') (drop 1 (drop (length (c_str (fst item))) rest)) b2"
    using strcat_holds [OF b1(2) sep_room] by (auto simp: sep)
  have last_room: "length (c_str (snd item)) \<le> length (drop 1 (drop (length (c_str (fst item))) rest))"
    using room by simp
  obtain b3 r3 where "strcat b2 (snd item) = Returns b3" "holds_string (entry_text item) r3 b3"
    using strcat_holds [OF b2(2) last_room] by (auto simp: entry_text_def)
  then show ?thesis using b0 b1(1) b2(1) by (auto simp: env_entry_def n_def)
qed

text \<open>
  From pointer \<open>i\<close> on, the block lists the entries, which lie in consecutive arrays, and then
  ends with the null pointer.
\<close>

fun env_holds :: "c_heap \<Rightarrow> nat \<Rightarrow> nat \<Rightarrow> nat \<Rightarrow> (string \<times> string) list \<Rightarrow> bool" where
  "env_holds h env i p [] \<longleftrightarrow> pointer_at env i h = Some 0"
| "env_holds h env i p (item # items) \<longleftrightarrow>
     pointer_at env i h = Some p \<and> 0 < p \<and> p \<noteq> env \<and>
     (\<exists>buf rest. arrays h p = Some (Chars buf) \<and> holds_string (entry_text item) rest buf) \<and>
     env_holds h env (Suc i) (Suc p) items"

lemma env_holds_frame:
  assumes "env_holds h env i p items"
    and "\<And>j. pointer_at env j h' = pointer_at env j h"
    and "\<And>q. p \<le> q \<Longrightarrow> q \<noteq> env \<Longrightarrow> arrays h' q = arrays h q"
  shows "env_holds h' env i p items"
  using assms by (induction items arbitrary: i p) auto

lemma env_holds_strings: "env_holds h env i p items \<Longrightarrow> env_strings env i h = Returns (map entry_text items)"
proof (induction items arbitrary: i p)
  case Nil
  then show ?case by (subst env_strings.simps) simp
next
  case (Cons item items)
  then show ?case by (subst env_strings.simps) (auto simp: holds_c_string)
qed

lemma clear_env_from_simps:
  "pointer_at env i h = Some 0 \<Longrightarrow> clear_env_from env i h = delete_array env h"
  "pointer_at env i h = Some p \<Longrightarrow> 0 < p \<Longrightarrow> delete_array p h = Returns h' \<Longrightarrow>
     clear_env_from env i h = clear_env_from env (Suc i) h'"
  by (subst clear_env_from.simps, simp)+

lemma env_holds_cleared:
  "env_holds h env i p items \<Longrightarrow>
     \<exists>h'. clear_env_from env i h = Returns h' \<and>
       arrays h' = (\<lambda>q. if q = env \<or> p \<le> q \<and> q < p + length items then None else arrays h q)"
proof (induction items arbitrary: i p h)
  case Nil
  then have null: "pointer_at env i h = Some 0" by simp
  then obtain ps where "arrays h env = Some (Pointers ps)" using pointer_at_bound by blast
  then show ?case by (simp add: clear_env_from_simps(1) [OF null] delete_array_def fun_eq_iff)
next
  case (Cons item items)
  define h1 where "h1 = h\<lparr>arrays := (arrays h)(p := None)\<rparr>"
  have ptr: "pointer_at env i h = Some p" "0 < p" and apart: "p \<noteq> env"
    and tail: "env_holds h env (Suc i) (Suc p) items"
    using Cons.prems by simp_all
  have del: "delete_array p h = Returns h1" using Cons.prems by (auto simp: delete_array_def h1_def)
  have same: "pointer_at env j h1 = pointer_at env j h" for j
    using pointer_at_delete [OF del, of env j] apart by simp
  have "env_holds h1 env (Suc i) (Suc p) items"
    by (rule env_holds_frame [OF tail same]) (simp add: h1_def)
  from Cons.IH [OF this] obtain h' where h': "clear_env_from env (Suc i) h1 = Returns h'"
      "arrays h' = (\<lambda>q. if q = env \<or> Suc p \<le> q \<and> q < Suc p + length items then None else arrays h1 q)"
    by blast
  have "clear_env_from env i h = Returns h'"
    by (simp only: clear_env_from_simps(2) [OF ptr del] h'(1))
  moreover have "arrays h' = (\<lambda>q. if q = env \<or> p \<le> q \<and> q < p + length (item # items) then None
      else arrays h q)"
    by (simp add: h'(2) h1_def fun_eq_iff)
  ultimately show ?case by blast
qed

lemma set_pointer_Returns:
  assumes "arrays h env = Some (Pointers ps)" and "i < length ps"
  shows "\<exists>h'. set_pointer env i p h = Returns h' \<and> arrays h' env = Some (Pointers (ps[i := Some p])) \<and>
    (\<forall>q. q \<noteq> env \<longrightarrow> arrays h' q = arrays h q) \<and> next_array h' = next_array h"
  using assms by (simp add: set_pointer_def)

lemma fill_env_holds:
  assumes "arrays h env = Some (Pointers ps)" and "length ps = i + Suc (length items)"
    and "env < next_array h" and "0 < next_array h"
  shows "\<exists>h'. fill_env items env i h = Returns h' \<and> env_holds h' env i (next_array h) items \<and>
    (\<forall>j < i. pointer_at env j h' = pointer_at env j h) \<and>
    (\<forall>q. q \<noteq> env \<and> (q < next_array h \<or> next_array h + length items \<le> q) \<longrightarrow>
       arrays h' q = arrays h q)"
  using assms
proof (induction items arbitrary: i h ps)
  case Nil
  then obtain h' where "set_pointer env i 0 h = Returns h'"
      "arrays h' env = Some (Pointers (ps[i := Some 0]))" "\<forall>q. q \<noteq> env \<longrightarrow> arrays h' q = arrays h q"
    using set_pointer_Returns [of h env ps i 0] by auto
  with Nil show ?case by (auto simp: pointer_at_def)
next
  case (Cons item items)
  obtain buf rest where buf: "env_entry item = Returns buf" "holds_string (entry_text item) rest buf"
    using env_entry_holds by blast
  define p where "p = next_array h"
  define h1 where "h1 = h\<lparr>arrays := (arrays h)(p \<mapsto> Chars buf), next_array := Suc p\<rparr>"
  have new: "new_array (Chars buf) h = (p, h1)" by (simp add: new_array_def p_def h1_def)
  have "arrays h1 env = Some (Pointers ps)" "i < length ps" using Cons.prems by (auto simp: h1_def p_def)
  then obtain h2 where h2: "set_pointer env i p h1 = Returns h2"
      "arrays h2 env = Some (Pointers (ps[i := Some p]))"
      "\<And>q. q \<noteq> env \<Longrightarrow> arrays h2 q = arrays h1 q" "next_array h2 = Suc p"
    using set_pointer_Returns [of h1 env ps i p] by (auto simp: h1_def)
  obtain h' where h': "fill_env items env (Suc i) h2 = Returns h'"
      "env_holds h' env (Suc i) (Suc p) items"
      "\<And>j. j < Suc i \<Longrightarrow> pointer_at env j h' = pointer_at env j h2"
      "\<And>q. q \<noteq> env \<Longrightarrow> q < Suc p \<or> Suc p + length items \<le> q \<Longrightarrow> arrays h' q = arrays h2 q"
    using Cons.IH [OF h2(2), of "Suc i"] Cons.prems h2(4) by (auto simp: p_def)
  have "fill_env (item # items) env i h = Returns h'" using buf(1) new h2(1) h'(1) by simp
  moreover have "pointer_at env i h' = Some p"
    using h'(3) [of i] Cons.prems(2) h2(2) by (simp add: pointer_at_def)
  moreover have "arrays h' p = Some (Chars buf)"
    using h'(4) [of p] h2(3) [of p] Cons.prems(3) by (simp add: h1_def p_def)
  moreover have "pointer_at env j h' = pointer_at env j h" if "j < i" for j
    using h'(3) [of j] that Cons.prems(1,2) h2(2) by (simp add: pointer_at_def)
  moreover have "arrays h' q = arrays h q"
    if "q \<noteq> env" "q < next_array h \<or> next_array h + length (item # items) \<le> q" for q
    using h'(4) [OF that(1)] h2(3) [OF that(1)] that(2) by (auto simp: h1_def p_def)
  ultimately show ?case using h'(2) buf(2) Cons.prems(3,4) by (auto simp: p_def)
qed

definition heap_ok :: "c_heap \<Rightarrow> bool" where
  "heap_ok h \<longleftrightarrow> 0 < next_array h \<and> (\<forall>q \<ge> next_array h. arrays h q = None)"

lemma env_from_headers_holds:
  assumes "heap_ok h"
  shows "\<exists>env h' h''. env_from_headers headers h = Returns (env, h') \<and>
    env_strings env 0 h' = Returns (map entry_text headers) \<and>
    clear_env env h' = Returns h'' \<and> arrays h'' = arrays h"
proof -
  define env where "env = next_array h"
  define h1 where "h1 = h\<lparr>arrays := (arrays h)(env \<mapsto> Pointers (replicate (Suc (length headers)) None)),
    next_array := Suc env\<rparr>"
  have new: "new_array (Pointers (replicate (Suc (length headers)) None)) h = (env, h1)"
    by (simp add: new_array_def env_def h1_def)
  obtain h' where h': "fill_env headers env 0 h1 = Returns h'"
      "env_holds h' env 0 (Suc env) headers"
      "\<And>q. q \<noteq> env \<Longrightarrow> q < Suc env \<or> Suc env + length headers \<le> q \<Longrightarrow> arrays h' q = arrays h1 q"
    using fill_env_holds [of h1 env "replicate (Suc (length headers)) None" 0 headers]
    by (auto simp: h1_def)
  obtain h'' where h'': "clear_env_from env 0 h' = Returns h''"
      "arrays h'' = (\<lambda>q. if q = env \<or> Suc env \<le> q \<and> q < Suc env + length headers then None else arrays h' q)"
    using env_holds_cleared [OF h'(2)] by blast
  have "arrays h'' q = arrays h q" for q
    using assms h'(3) [of q] by (auto simp: h''(2) h1_def env_def heap_ok_def)
  then show ?thesis
    using new h'(1) env_holds_strings [OF h'(2)] h''(1)
    by (auto simp: env_from_headers_def clear_env_def fun_eq_iff)
qed

subsection \<open>The descriptors of the two processes\<close>

text \<open>A pipe the system hands out has two descriptors that were not in use.\<close>

definition fresh_pipe :: "pipe_answer \<Rightarrow> table \<Rightarrow> bool" where
  "fresh_pipe answer t \<longleftrightarrow>
     (case answer of Sys_errno n \<Rightarrow> True | Sys_ok (r, w, k) \<Rightarrow> t r = None \<and> t w = None \<and> r \<noteq> w)"

definition fresh_pipes :: "answers \<Rightarrow> table \<Rightarrow> bool" where
  "fresh_pipes a t \<longleftrightarrow>
     fresh_pipe (first_pipe a) t \<and> fresh_pipe (second_pipe a) (snd (make_pipe (first_pipe a) t))"

lemma destroy_ends_table:
  "destroy_ends (s, r) t =
     (let t = (if receiver_fd r = 0 then t else os_close (receiver_fd r) t)
      in if sender_fd s = 0 then t else os_close (sender_fd s) t)"
  by (simp add: destroy_ends_def owner_tables)

lemma exec_child_result:
  assumes "heap_ok h"
  shows "\<exists>h'. exec_child fails path headers h =
    Returns (if fails then Exited (-1) else Replaced (shell_argv path) (map entry_text headers), h')"
  using env_from_headers_holds [OF assms, of headers]
  by (auto simp: exec_child_def)

text \<open>Descriptors that were taken for a pipe and closed again leave no trace.\<close>

lemma child_branch_result:
  assumes "heap_ok (memory pr)"
    and "files pr = t(r1 \<mapsto> Pipe_read k1, w1 \<mapsto> Pipe_write k1, r2 \<mapsto> Pipe_read k2, w2 \<mapsto> Pipe_write k2)"
    and "t r1 = None" "t w1 = None" "t r2 = None" "t w2 = None" "t 0 \<noteq> None" "t 1 \<noteq> None"
    and "distinct [r1, w1, r2, w2]"
  shows "\<exists>(e :: 'c from_end) pr'. child_branch a path headers (\<lparr>sender_fd = w1\<rparr>, \<lparr>receiver_fd = r1\<rparr>)
      (\<lparr>sender_fd = w2\<rparr>, \<lparr>receiver_fd = r2\<rparr>) pr = Returns (e, pr') \<and>
    (if dup_stdout a \<and> dup_stdin a \<and> \<not> execve_fails a
     then e = Replaced (shell_argv path) (map entry_text headers) \<and>
       files pr' = t(0 \<mapsto> Pipe_read k1, 1 \<mapsto> Pipe_write k2)
     else e = Exited (-1))"
proof -
  have ends: "r1 \<noteq> 0" "w1 \<noteq> 0" "r2 \<noteq> 0" "w2 \<noteq> 0" "r1 \<noteq> 1" "w1 \<noteq> 1" "r2 \<noteq> 1" "w2 \<noteq> 1"
    using assms(3-8) by auto
  have apart: "r1 \<noteq> w1" "r1 \<noteq> r2" "r1 \<noteq> w2" "w1 \<noteq> r2" "w1 \<noteq> w2" "r2 \<noteq> w2"
    using assms(9) by auto
  have table: "(files pr)(r2 := None, w1 := None, 1 \<mapsto> Pipe_write k2, 0 \<mapsto> Pipe_read k1, w2 := None, r1 := None) =
      t(0 \<mapsto> Pipe_read k1, 1 \<mapsto> Pipe_write k2)"
    using ends apart assms(3-6) by (auto simp: assms(2) fun_eq_iff)
  obtain h' where child: "exec_child (execve_fails a) path headers (memory pr) =
      Returns (if execve_fails a then Exited (-1) :: 'c from_end else Replaced (shell_argv path) (map entry_text headers), h')"
    using exec_child_result [OF assms(1)] by blast
  have opened: "files pr r1 = Some (Pipe_read k1)" "files pr w2 = Some (Pipe_write k2)"
    using apart by (simp_all add: assms(2))
  show ?thesis
    using ends apart child table opened
    by (cases "execve_fails a") (auto simp: child_branch_def receiver_close_def sender_close_def sender_freopen_def
        receiver_freopen_def os_dup2_def os_close_def Let_def)
qed

lemma parent_branch_result:
  assumes "files pr = t(r1 \<mapsto> Pipe_read k1, w1 \<mapsto> Pipe_write k1, r2 \<mapsto> Pipe_read k2, w2 \<mapsto> Pipe_write k2)"
    and "t r1 = None" "t w2 = None" "t 0 \<noteq> None" and "distinct [r1, w1, r2, w2]"
  shows "\<exists>ob pr'. parent_branch ctx (\<lparr>sender_fd = w1\<rparr>, \<lparr>receiver_fd = r1\<rparr>)
      (\<lparr>sender_fd = w2\<rparr>, \<lparr>receiver_fd = r2\<rparr>) pr = (Returned (Ok ob), pr') \<and>
    receiver_fd (async_receiver (from_cgi ob)) = r2 \<and> sender_fd (async_sender (to_cgi ob)) = w1 \<and>
    files pr' = t(w1 \<mapsto> Pipe_write k1, r2 \<mapsto> Pipe_read k2)"
proof -
  have ends: "r1 \<noteq> 0" "w2 \<noteq> 0" using assms(2-4) by auto
  have "(files pr)(w2 := None, r1 := None) = t(w1 \<mapsto> Pipe_write k1, r2 \<mapsto> Pipe_read k2)"
    using assms(2,3,5) by (auto simp: assms(1) fun_eq_iff)
  then show ?thesis
    using ends by (simp add: parent_branch_def destroy_ends_table sender_move_def receiver_move_def
        os_close_def Let_def)
qed

lemma ends_closed_again:
  assumes "t r = None" "t w = None" "t 0 \<noteq> None" "r \<noteq> w"
  shows "destroy_ends (\<lparr>sender_fd = w\<rparr>, \<lparr>receiver_fd = r\<rparr>) (t(r \<mapsto> f, w \<mapsto> g)) = t"
proof -
  have "r \<noteq> 0" "w \<noteq> 0" using assms by auto
  with assms show ?thesis by (auto simp: destroy_ends_table os_close_def Let_def fun_eq_iff)
qed

text \<open>Once both pipes are there, what is left is one of three branches.\<close>

lemma object_from_pipes:
  fixes ctx :: 'c
  assumes "first_pipe a = Sys_ok (r1, w1, k1)" and "second_pipe a = Sys_ok (r2, w2, k2)"
    and "fresh_pipes a (files pr)" and "files pr 0 \<noteq> None"
  defines "pr2 \<equiv> pr\<lparr>files := (files pr)(r1 \<mapsto> Pipe_read k1, w1 \<mapsto> Pipe_write k1,
      r2 \<mapsto> Pipe_read k2, w2 \<mapsto> Pipe_write k2)\<rparr>"
  shows "files pr r1 = None" "files pr w1 = None" "files pr r2 = None" "files pr w2 = None"
    and "distinct [r1, w1, r2, w2]"
    and "object_from a ctx path headers pr =
       (if fork_pid a = -1 then Returns (Returned (Err ''fork''), pr)
        else if fork_pid a = 0
        then child_branch a path headers (\<lparr>sender_fd = w1\<rparr>, \<lparr>receiver_fd = r1\<rparr>)
            (\<lparr>sender_fd = w2\<rparr>, \<lparr>receiver_fd = r2\<rparr>) pr2
        else Returns (parent_branch ctx (\<lparr>sender_fd = w1\<rparr>, \<lparr>receiver_fd = r1\<rparr>)
            (\<lparr>sender_fd = w2\<rparr>, \<lparr>receiver_fd = r2\<rparr>) pr2))"
proof -
  define t where "t = files pr"
  define t1 where "t1 = t(r1 \<mapsto> Pipe_read k1, w1 \<mapsto> Pipe_write k1)"
  have f1: "t r1 = None" "t w1 = None" "r1 \<noteq> w1"
    using assms(3) by (simp_all add: fresh_pipes_def fresh_pipe_def assms(1) t_def)
  have f2: "t1 r2 = None" "t1 w2 = None" "r2 \<noteq> w2"
    using assms(3) by (simp_all add: fresh_pipes_def fresh_pipe_def assms(1,2) make_pipe_Ok t_def t1_def)
  show "files pr r1 = None" "files pr w1 = None" using f1 by (simp_all add: t_def)
  show "files pr r2 = None" "files pr w2 = None" "distinct [r1, w1, r2, w2]"
    using f1(3) f2 by (auto simp: t1_def t_def split: if_splits)
  have std: "t 0 \<noteq> None" "t1 0 \<noteq> None" using assms(4) f1 by (auto simp: t_def t1_def)
  have "make_pipe (first_pipe a) (files pr) = (Ok (\<lparr>sender_fd = w1\<rparr>, \<lparr>receiver_fd = r1\<rparr>), t1)"
    by (simp add: assms(1) make_pipe_Ok t_def t1_def)
  moreover have "destroy_ends (\<lparr>sender_fd = w1\<rparr>, \<lparr>receiver_fd = r1\<rparr>) t1 = t"
    unfolding t1_def by (rule ends_closed_again [OF f1(1,2) std(1) f1(3)])
  moreover have "pr2 = pr\<lparr>files := t1(r2 \<mapsto> Pipe_read k2, w2 \<mapsto> Pipe_write k2)\<rparr>"
    by (simp add: pr2_def t1_def t_def)
  ultimately show "object_from a ctx path headers pr =
       (if fork_pid a = -1 then Returns (Returned (Err ''fork''), pr)
        else if fork_pid a = 0
        then child_branch a path headers (\<lparr>sender_fd = w1\<rparr>, \<lparr>receiver_fd = r1\<rparr>)
            (\<lparr>sender_fd = w2\<rparr>, \<lparr>receiver_fd = r2\<rparr>) pr2
        else Returns (parent_branch ctx (\<lparr>sender_fd = w1\<rparr>, \<lparr>receiver_fd = r1\<rparr>)
            (\<lparr>sender_fd = w2\<rparr>, \<lparr>receiver_fd = r2\<rparr>) pr2))"
    by (simp add: object_from_def assms(2) make_pipe_Ok
        ends_closed_again [OF f2(1,2) std(2) f2(3)] t_def)
qed

lemma object_from_pipe_fails:
  assumes "fresh_pipes a (files pr)" and "files pr 0 \<noteq> None"
    and "first_pipe a = Sys_errno n \<or> second_pipe a = Sys_errno n"
  shows "object_from a ctx path headers pr = Returns (Returned (Err ''pipe''), pr)"
proof (cases "first_pipe a")
  case (Sys_errno n)
  then show ?thesis by (simp add: object_from_def make_pipe_Err)
next
  case (Sys_ok x)
  then obtain r w k where p1: "first_pipe a = Sys_ok (r, w, k)" by (metis prod_cases3)
  have "second_pipe a = Sys_errno n" using assms(3) p1 by simp
  moreover have "files pr r = None" "files pr w = None" "r \<noteq> w"
    using assms(1) by (simp_all add: fresh_pipes_def fresh_pipe_def p1)
  ultimately show ?thesis
    using assms(2) by (simp add: object_from_def p1 make_pipe_Ok make_pipe_Err ends_closed_again)
qed

text \<open>
  Property C18: what starting a CGI program does to the descriptors, in both processes. When the
  standard streams are open and the system hands out descriptors that were not in use, the call
  never runs into undefined behaviour. If a pipe or the process cannot be had, the error says which
  and no descriptor is left over. The parent is left with exactly the end that writes the requests
  and the end that reads the responses, owned by the returned object. The child becomes the shell
  with the requests on descriptor 0, the responses on descriptor 1, no other end of a pipe, and the
  headers as its environment, or it exits.
\<close>

theorem cgi_descriptors:
  fixes ctx :: 'c
  assumes "fresh_pipes a (files pr)" and "files pr 0 \<noteq> None" "files pr 1 \<noteq> None" and "heap_ok (memory pr)"
  shows "\<exists>e pr'. object_from a ctx path headers pr = Returns (e, pr') \<and>
    (case (first_pipe a, second_pipe a) of
       (Sys_ok (r1, w1, k1), Sys_ok (r2, w2, k2)) \<Rightarrow>
         if fork_pid a = -1 then e = Returned (Err ''fork'') \<and> files pr' = files pr
         else if fork_pid a = 0 then
           (if dup_stdout a \<and> dup_stdin a \<and> \<not> execve_fails a
            then e = Replaced (shell_argv path) (map entry_text headers) \<and>
              files pr' = (files pr)(0 \<mapsto> Pipe_read k1, 1 \<mapsto> Pipe_write k2)
            else e = Exited (-1))
         else (\<exists>ob. e = Returned (Ok ob) \<and> receiver_fd (async_receiver (from_cgi ob)) = r2 \<and>
             sender_fd (async_sender (to_cgi ob)) = w1 \<and>
             files pr' = (files pr)(w1 \<mapsto> Pipe_write k1, r2 \<mapsto> Pipe_read k2))
     | _ \<Rightarrow> e = Returned (Err ''pipe'') \<and> files pr' = files pr)"
proof (cases "\<exists>n. first_pipe a = Sys_errno n \<or> second_pipe a = Sys_errno n")
  case True
  then obtain n where "first_pipe a = Sys_errno n \<or> second_pipe a = Sys_errno n" by blast
  from object_from_pipe_fails [OF assms(1,2) this, of ctx path headers]
  have "object_from a ctx path headers pr = Returns (Returned (Err ''pipe''), pr)" .
  with True show ?thesis by (auto split: sys.splits)
next
  case False
  then obtain r1 w1 k1 r2 w2 k2 where
    p: "first_pipe a = Sys_ok (r1, w1, k1)" "second_pipe a = Sys_ok (r2, w2, k2)"
    by (metis sys.exhaust prod_cases3)
  note start = object_from_pipes [OF p assms(1,2)]
  let ?pr2 = "pr\<lparr>files := (files pr)(r1 \<mapsto> Pipe_read k1, w1 \<mapsto> Pipe_write k1,
      r2 \<mapsto> Pipe_read k2, w2 \<mapsto> Pipe_write k2)\<rparr>"
  have pr2: "heap_ok (memory ?pr2)" "files ?pr2 = (files pr)(r1 \<mapsto> Pipe_read k1,
      w1 \<mapsto> Pipe_write k1, r2 \<mapsto> Pipe_read k2, w2 \<mapsto> Pipe_write k2)"
    using assms(4) by simp_all
  consider "fork_pid a = -1" | "fork_pid a = 0" | "fork_pid a \<noteq> -1" "fork_pid a \<noteq> 0" by blast
  then show ?thesis
  proof cases
    case 1
    then show ?thesis by (simp add: start(6) p)
  next
    case 2
    with child_branch_result [where ?'c = 'c, OF pr2 start(1-4) assms(2,3) start(5), of a path headers]
    show ?thesis by (simp add: start(6) p)
  next
    case 3
    with parent_branch_result [OF pr2(2) start(1,4) assms(2) start(5), of ctx] show ?thesis
      by (auto simp: start(6) p)
  qed
qed

text \<open>The hypotheses at a process with its three standard streams, in the child.\<close>

theorem cgi_descriptors_witness:
  "\<exists>pr'. object_from \<lparr>first_pipe = Sys_ok (3, 4, 0), second_pipe = Sys_ok (5, 6, 1), fork_pid = 0,
       dup_stdout = True, dup_stdin = True, execve_fails = False\<rparr> () ''cat'' [(''A'', ''b'')]
       \<lparr>files = [0 \<mapsto> Opened 0, 1 \<mapsto> Opened 0, 2 \<mapsto> Opened 0],
        memory = \<lparr>arrays = (\<lambda>p. None), next_array = 1\<rparr>\<rparr> =
     Returns (Replaced [''sh'', ''-c'', ''cat''] [''A=b''], pr') \<and>
     files pr' = [0 \<mapsto> Pipe_read 0, 1 \<mapsto> Pipe_write 1, 2 \<mapsto> Opened 0]"
proof -
  let ?a = "\<lparr>first_pipe = Sys_ok (3, 4, 0), second_pipe = Sys_ok (5, 6, 1), fork_pid = 0,
       dup_stdout = True, dup_stdin = True, execve_fails = False\<rparr>"
  let ?pr = "\<lparr>files = [0 \<mapsto> Opened 0, 1 \<mapsto> Opened 0, 2 \<mapsto> Opened 0],
        memory = \<lparr>arrays = (\<lambda>p. None), next_array = 1\<rparr>\<rparr>"
  have "fresh_pipes ?a (files ?pr)" "files ?pr 0 \<noteq> None" "files ?pr 1 \<noteq> None" "heap_ok (memory ?pr)"
    by (simp_all add: fresh_pipes_def fresh_pipe_def make_pipe_Ok heap_ok_def)
  from cgi_descriptors [where ctx = "()" and path = "''cat''" and headers = "[(''A'', ''b'')]", OF this]
  show ?thesis
    by (auto simp: shell_argv_def entry_text_def c_str_def fun_eq_iff)
qed

text \<open>
  Property C19: the environment block of a CGI program. Whatever the headers hold (any characters,
  also zero bytes), building the block stays inside every array and reads no cell before it was
  written; the program finds exactly one string per header, in the order of the map, the name and
  the value joined by \<open>=\<close> and each cut at its first zero byte; and \<open>clear_env\<close> frees every array
  of the block, and no other.
\<close>

theorem cgi_environment:
  assumes "heap_ok h"
  shows "\<exists>env h' h''. env_from_headers headers h = Returns (env, h') \<and>
    env_strings env 0 h' = Returns (map (\<lambda>(name, val). c_str name @ ''='' @ c_str val) headers) \<and>
    clear_env env h' = Returns h'' \<and> arrays h'' = arrays h"
proof -
  have "entry_text = (\<lambda>(name, val). c_str name @ ''='' @ c_str val)"
    by (simp add: entry_text_def fun_eq_iff)
  with env_from_headers_holds [OF assms, of headers] show ?thesis by simp
qed

theorem cgi_environment_witness:
  "\<exists>env h' h''. env_from_headers [(''A'', ''b''), (''C'', [CHR ''d'', NUL, CHR ''e''])]
      \<lparr>arrays = (\<lambda>p. None), next_array = 1\<rparr> = Returns (env, h') \<and>
    env_strings env 0 h' = Returns [''A=b'', ''C=d''] \<and>
    clear_env env h' = Returns h'' \<and> arrays h'' = (\<lambda>p. None)"
  using cgi_environment [of "\<lparr>arrays = (\<lambda>p. None), next_array = 1\<rparr>"
      "[(''A'', ''b''), (''C'', [CHR ''d'', NUL, CHR ''e''])]"]
  by (simp add: heap_ok_def c_str_def)

text \<open>The program is sent a prefix of the request, also when it could not be started.\<close>

lemma cgi_sent:
  assumes "cgi_send_request from q ws rs = (r, out)"
  shows "\<exists>k. out = take k (request_head q @ req_body q)"
proof (cases "from")
  case (Err e)
  with assms have "out = take 0 (request_head q @ req_body q)" by (simp add: cgi_send_request_def)
  then show ?thesis ..
next
  case (Ok ob)
  obtain w o1 ws' where we: "write_entity request_get_data request_state ws (RequestSerializer q) 0 [] =
      (w, o1, ws')" by (cases "write_entity request_get_data request_state ws (RequestSerializer q) 0 []")
  have "out = o1"
    using assms Ok we by (auto simp: cgi_send_request_def split: option.splits res.splits)
  then show ?thesis
    using req_ser.write_entity_sends [OF we] by (auto simp: RequestSerializer_parts simp del: take_append)
qed


end
