(* ===== verification/Http_Connection.thy ===== *)
theory Http_Connection
  imports Http_Transfer Descriptors
begin

text \<open>
  Connections: \<open>http/HttpConnection.hpp\<close> (the messages sent and received over a socket or a pipe,
  \<open>Connection\<close> and \<open>Client\<close>) and \<open>http/HttpServer.cpp\<close>. The sockets are those of
  \<open>Descriptors\<close>, the transfers those of \<open>Fut_Io\<close>; each call is given the wake-ups of the descriptor
  it works on and \<open>None\<close> is a future that is still pending.
\<close>

section \<open>Connections\<close>

subsection \<open>Messages\<close>

definition http_get_request :: "read_wakeup list \<Rightarrow> (request, http_error) res outcome option" where
  "http_get_request rs =
     read_entity RequestParser_call (\<lambda>p. Returns (request_create_entity p)) http_error_of_io rs RequestParser"

definition http_get_response :: "read_wakeup list \<Rightarrow> (response, http_error) res outcome option" where
  "http_get_response rs =
     read_entity ResponseParser_call response_create_entity http_error_of_io rs ResponseParser"

definition http_send_response :: "write_wakeup list \<Rightarrow> response \<Rightarrow> (unit, io_error) res option \<times> bytes" where
  "http_send_response ws response =
     (case write_entity response_get_data response_state ws (ResponseSerializer response) 0 [] of
        (r, out, _) \<Rightarrow> (map_option (\<lambda>r. map_res r (\<lambda>_. ())) r, out))"

definition http_send_request :: "write_wakeup list \<Rightarrow> request \<Rightarrow> (unit, io_error) res option \<times> bytes" where
  "http_send_request ws request =
     (case write_entity request_get_data request_state ws (RequestSerializer request) 0 [] of
        (r, out, _) \<Rightarrow> (map_option (\<lambda>r. map_res r (\<lambda>_. ())) r, out))"

subsection \<open>Connections and clients\<close>

record 'c connection =
  conn_sock :: "'c socket"
  conn_addr :: in_addr_info

record 'c http_client =
  client_sock :: "'c socket"

definition client_from ::
  "(fd \<times> nat) sys \<Rightarrow> (string \<Rightarrow> 16 word \<Rightarrow> unit sys) \<Rightarrow> string \<Rightarrow> 16 word \<Rightarrow> 'c \<Rightarrow> table \<Rightarrow>
   ('c http_client, http_error) res \<times> table" where
  "client_from socket connect ip port ctx t =
     (case conn_tcp_serv socket connect (c_str ip) port ctx t of
        (Err e, t) \<Rightarrow> (Err (http_error_of_io e), t)
      | (Ok s, t) \<Rightarrow> (Ok \<lparr>client_sock = s\<rparr>, t))"

definition request_response ::
  "write_wakeup list \<Rightarrow> read_wakeup list \<Rightarrow> request \<Rightarrow>
   (response, http_error) res outcome option \<times> bytes" where
  "request_response ws rs request =
     (case http_send_request ws request of
        (None, out) \<Rightarrow> (None, out)
      | (Some (Err e), out) \<Rightarrow> (Some (Returns (Err (http_error_of_io e))), out)
      | (Some (Ok _), out) \<Rightarrow> (http_get_response rs, out))"

subsection \<open>The server\<close>

record 'c http_server =
  server_acceptor :: "'c acceptor"

text \<open>\<open>Server::create\<close> does not use the address, only the port.\<close>

definition server_create ::
  "(fd \<times> nat) sys \<Rightarrow> (16 word \<Rightarrow> unit sys) \<Rightarrow> (nat \<Rightarrow> unit sys) \<Rightarrow> unit sys \<Rightarrow> string \<Rightarrow> int \<Rightarrow> 'c \<Rightarrow>
   table \<Rightarrow> ('c http_server, io_error) res \<times> table" where
  "server_create socket bind listen closed ip port ctx t =
     (case local_with_port socket bind listen closed port ctx t of
        (Err e, t) \<Rightarrow> (Err e, t)
      | (Ok acceptor, t) \<Rightarrow> (Ok \<lparr>server_acceptor = acceptor\<rparr>, t))"

definition get_conn ::
  "event_type \<times> accept_answer \<Rightarrow> 'c http_server \<Rightarrow> table \<Rightarrow>
   (('c connection, io_error) res \<times> table) outcome" where
  "get_conn w server t =
     bind_outcome (fut_accept_conn w (server_acceptor server) t) (\<lambda>(res, t).
       Returns (case res of
          Err e \<Rightarrow> Err e
        | Ok (s, addr_info) \<Rightarrow> Ok \<lparr>conn_sock = s, conn_addr = addr_info\<rparr>, t))"

subsection \<open>Sending\<close>

lemma http_send_request_all:
  assumes "list_all has_room ws"
    and "max 1 (length (request_head q)) + max 1 (length (req_body q)) < length ws"
  shows "http_send_request ws q = (Some (Ok ()), request_head q @ req_body q)"
  using write_request [OF assms] by (auto simp: http_send_request_def)

lemma http_send_response_all:
  assumes "list_all has_room ws"
    and "max 1 (length (response_head r)) + max 1 (length (resp_body r)) < length ws"
  shows "http_send_response ws r = (Some (Ok ()), response_head r @ resp_body r)"
  using write_response [OF assms] by (auto simp: http_send_response_def)

lemma http_send_request_prefix:
  "http_send_request ws q = (r, out) \<Longrightarrow> \<exists>k. out = take k (request_head q @ req_body q) \<and>
     (r = Some (Ok ()) \<longrightarrow> out = request_head q @ req_body q)"
proof -
  assume sent: "http_send_request ws q = (r, out)"
  obtain w out' ws' where we: "write_entity request_get_data request_state ws (RequestSerializer q) 0 [] =
      (w, out', ws')" by (cases "write_entity request_get_data request_state ws (RequestSerializer q) 0 []")
  have r: "r = map_option (\<lambda>r. map_res r (\<lambda>_. ())) w" and out: "out' = out"
    using sent by (simp_all add: http_send_request_def we)
  have "r = Some (Ok ()) \<Longrightarrow> \<exists>n. w = Some (Ok n)"
    unfolding r by (cases w; auto elim!: map_res.elims)
  with req_ser.write_entity_sends [OF we] show ?thesis
    by (auto simp: RequestSerializer_parts out simp del: take_append)
qed

lemma http_send_response_prefix:
  "http_send_response ws q = (r, out) \<Longrightarrow> \<exists>k. out = take k (response_head q @ resp_body q) \<and>
     (r = Some (Ok ()) \<longrightarrow> out = response_head q @ resp_body q)"
proof -
  assume sent: "http_send_response ws q = (r, out)"
  obtain w out' ws' where we: "write_entity response_get_data response_state ws (ResponseSerializer q) 0 [] =
      (w, out', ws')" by (cases "write_entity response_get_data response_state ws (ResponseSerializer q) 0 []")
  have r: "r = map_option (\<lambda>r. map_res r (\<lambda>_. ())) w" and out: "out' = out"
    using sent by (simp_all add: http_send_response_def we)
  have "r = Some (Ok ()) \<Longrightarrow> \<exists>n. w = Some (Ok n)"
    unfolding r by (cases w; auto elim!: map_res.elims)
  with resp_ser.write_entity_sends [OF we] show ?thesis
    by (auto simp: ResponseSerializer_parts out simp del: take_append)
qed

end
