(* ===== verification/Server_Pipeline.thy ===== *)
theory Server_Pipeline
  imports Cgi Http_Connection Webserv
begin

text \<open>
  One accepted connection of \<open>server_pipeline\<close> in \<open>webserv.cpp\<close>, from its request to its reply:
  the request is read, \<open>handle_request\<close> (in \<open>Webserv\<close>) picks what to do, the CGI program or the
  upstream server is asked where that is needed, and the response is written. What the system
  does meanwhile is the record \<open>surroundings\<close>, with the wake-ups of each descriptor involved.
\<close>

section \<open>From a request to its reply\<close>

record surroundings =
  request_reads :: "read_wakeup list"
  reply_writes :: "write_wakeup list"
  cgi_answers :: answers
  cgi_writes :: "write_wakeup list"
  cgi_reads :: "read_wakeup list"
  upstream_socket :: "(fd \<times> nat) sys"
  upstream_connect :: "string \<Rightarrow> 16 word \<Rightarrow> unit sys"
  upstream_writes :: "write_wakeup list"
  upstream_reads :: "read_wakeup list"

text \<open>
  How the handling of a connection stands at the end of its wake-ups: waiting for one more, closed
  without a reply because no request could be read, replying (with the response, the result of the
  write and the bytes the client has been sent), ended by an exception or undefined behaviour; or
  this is the child process of a CGI request. Beside it, \<open>serve_connection\<close> gives what the CGI
  program or the upstream server has been sent, and the process as it is while the exchange runs
  (a socket or a pipe is closed when the last owner of its handle is gone).
\<close>

datatype 'c conn_end =
    Waiting
  | No_request http_error
  | Replied response "(unit, io_error) res option" bytes
  | Crashed
  | In_child "'c from_end"

definition reply :: "write_wakeup list \<Rightarrow> response outcome \<Rightarrow> 'c conn_end" where
  "reply ws r =
     (case r of
        Returns response \<Rightarrow>
          (case http_send_response ws response of (res, out) \<Rightarrow> Replied response res out)
      | _ \<Rightarrow> Crashed)"

definition reply_when_read ::
  "write_wakeup list \<Rightarrow> ('a \<Rightarrow> response outcome) \<Rightarrow> 'a outcome option \<Rightarrow> 'c conn_end" where
  "reply_when_read ws decide answer =
     (case answer of
        None \<Rightarrow> Waiting
      | Some (Returns res) \<Rightarrow> reply ws (decide res)
      | Some _ \<Rightarrow> Crashed)"

definition run_cgi ::
  "surroundings \<Rightarrow> 'c \<Rightarrow> string \<Rightarrow> request \<Rightarrow> process \<Rightarrow> 'c conn_end \<times> bytes \<times> process" where
  "run_cgi e ctx path q pr =
     (case object_from (cgi_answers e) ctx path (req_headers q) pr of
        Returns (Returned started, pr) \<Rightarrow>
          (case cgi_send_request started q (cgi_writes e) (cgi_reads e) of
             (res, sent) \<Rightarrow> (reply_when_read (reply_writes e) cgi_reply res, sent, pr))
      | Returns (ended, pr) \<Rightarrow> (In_child ended, [], pr)
      | _ \<Rightarrow> (Crashed, [], pr))"

definition run_proxy ::
  "surroundings \<Rightarrow> 'c \<Rightarrow> string \<Rightarrow> 16 word \<Rightarrow> request \<Rightarrow> process \<Rightarrow> 'c conn_end \<times> bytes \<times> process" where
  "run_proxy e ctx ip port q pr =
     (case client_from (upstream_socket e) (upstream_connect e) ip port ctx (files pr) of
        (Err err, t) \<Rightarrow> (reply (reply_writes e) (proxy_reply (Err err)), [], pr\<lparr>files := t\<rparr>)
      | (Ok client, t) \<Rightarrow>
          (case request_response (upstream_writes e) (upstream_reads e) q of
             (res, sent) \<Rightarrow>
               (reply_when_read (reply_writes e) proxy_reply res, sent, pr\<lparr>files := t\<rparr>)))"

text \<open>The client's address is read from the array that \<open>accept_conn\<close> filled.\<close>

definition serve_connection ::
  "(string \<Rightarrow> bytes option) \<Rightarrow> surroundings \<Rightarrow> 'c \<Rightarrow> 'd connection \<Rightarrow> server list \<Rightarrow> process \<Rightarrow>
   'c conn_end \<times> bytes \<times> process" where
  "serve_connection file e ctx conn info pr =
     (case http_get_request (request_reads e) of
        None \<Rightarrow> (Waiting, [], pr)
      | Some (Returns (Err err)) \<Rightarrow> (No_request err, [], pr)
      | Some (Returns (Ok req)) \<Rightarrow>
         (case bind_outcome (c_string (addr_ip (conn_addr conn)))
             (\<lambda>client_ip. handle_request file client_ip info req) of
            Returns (Send r) \<Rightarrow> (reply (reply_writes e) (Returns r), [], pr)
          | Returns (Run_cgi path q) \<Rightarrow> run_cgi e ctx path q pr
          | Returns (Proxy ip port q) \<Rightarrow> run_proxy e ctx ip port q pr
          | _ \<Rightarrow> (Crashed, [], pr))
      | Some _ \<Rightarrow> (Crashed, [], pr))"

subsection \<open>What is sent, and where it comes from\<close>

text \<open>A write list long enough for a response, with room at every wake-up.\<close>

definition room_for :: "response \<Rightarrow> write_wakeup list \<Rightarrow> bool" where
  "room_for r ws \<longleftrightarrow>
     list_all has_room ws \<and> max 1 (length (response_head r)) + max 1 (length (resp_body r)) < length ws"

definition response_bytes :: "response \<Rightarrow> bytes" where
  "response_bytes r = response_head r @ resp_body r"

definition request_bytes :: "request \<Rightarrow> bytes" where
  "request_bytes q = request_head q @ req_body q"

text \<open>The chunks in which a message with the given head arrives, cut as the parsers allow.\<close>

definition arrives :: "bytes \<Rightarrow> bytes \<Rightarrow> read_wakeup list \<Rightarrow> bool" where
  "arrives head body rs \<longleftrightarrow>
     (\<exists>xs rest. list_all2 delivers rs xs \<and> concat xs = head @ body @ rest \<and> head_cuts (length head) xs)"

lemma reply_whole:
  "room_for r ws \<Longrightarrow> reply ws (Returns r) = Replied r (Some (Ok ())) (response_bytes r)"
  by (simp add: reply_def room_for_def http_send_response_all response_bytes_def)

lemma reply_cases:
  "reply ws res = Replied r w out \<Longrightarrow> res = Returns r \<and> http_send_response ws r = (w, out)"
  by (auto simp: reply_def split: outcome.splits prod.splits)

lemma reply_when_read_cases:
  "reply_when_read ws decide answer = Replied r w out \<Longrightarrow>
     \<exists>res. answer = Some (Returns res) \<and> decide res = Returns r \<and> http_send_response ws r = (w, out)"
  by (auto simp: reply_when_read_def split: option.splits outcome.splits dest: reply_cases)

lemma get_request_arrives:
  "request_ok q \<Longrightarrow> arrives (request_head q) (req_body q) rs \<Longrightarrow>
     http_get_request rs = Some (Returns (Ok q))"
  unfolding arrives_def http_get_request_def using read_request_chunks by blast

lemma get_response_arrives:
  "response_ok r \<Longrightarrow> arrives (response_head r) (resp_body r) rs \<Longrightarrow>
     http_get_response rs = Some (Returns (Ok r))"
  unfolding arrives_def http_get_response_def using read_response_chunks by blast

lemma cgi_response_read:
  "cgi_send_request started q ws rs = (Some (Returns (Ok r)), sent) \<Longrightarrow>
     http_get_response rs = Some (Returns (Ok r))"
  by (auto simp: cgi_send_request_def http_get_response_def bind_outcome_Returns_iff
      split: res.splits option.splits prod.splits) (metis res.exhaust)

lemma proxy_response_read:
  "request_response ws rs q = (Some (Returns (Ok r)), sent) \<Longrightarrow>
     http_get_response rs = Some (Returns (Ok r))"
  by (auto simp: request_response_def split: res.splits option.splits prod.splits)

lemma proxy_sends_prefix:
  assumes "request_response ws rs q = (res, sent)"
  shows "\<exists>k. sent = take k (request_bytes q)"
  using assms http_send_request_prefix [of ws q]
  by (auto simp: request_response_def request_bytes_def split: res.splits option.splits prod.splits)

lemma cgi_sends_prefix:
  assumes "cgi_send_request started q ws rs = (res, sent)"
  shows "\<exists>k. sent = take k (request_bytes q)"
  using assms cgi_sent [of started q ws rs] by (simp add: request_bytes_def)

lemma get_val_Returns: "get_val r = Returns v \<longleftrightarrow> r = Ok v"
  by (cases r) simp_all

text \<open>The reply of the three error cases.\<close>

lemma error_response_is:
  "error_response n = Returns r \<Longrightarrow> r = with_error_code (Status n)"
  by (auto simp: error_response_def status_from_def get_val_Returns bind_outcome_Returns_iff
      split: if_splits)

lemma cgi_reply_cases:
  "cgi_reply res = Returns r \<Longrightarrow> r = with_error_code (Status 503) \<or> res = Ok r"
  by (auto simp: cgi_reply_def split: res.splits dest: error_response_is)

lemma proxy_reply_cases:
  "proxy_reply res = Returns r \<Longrightarrow> r = with_error_code (Status 502) \<or> res = Ok r"
  by (auto simp: proxy_reply_def split: res.splits dest: error_response_is)

lemma run_cgi_replied:
  fixes ctx :: 'c
  assumes "run_cgi e ctx path q pr = (Replied r w out, sent, pr')"
  shows "http_send_response (reply_writes e) r = (w, out) \<and> (\<exists>k. sent = take k (request_bytes q)) \<and>
    (r = with_error_code (Status 503) \<or> http_get_response (cgi_reads e) = Some (Returns (Ok r)))"
proof -
  obtain started :: "('c cgi_object, string) res" and res where
    started: "cgi_send_request started q (cgi_writes e) (cgi_reads e) = (res, sent)"
      "reply_when_read (reply_writes e) cgi_reply res = (Replied r w out :: 'c conn_end)"
    using assms by (auto simp: run_cgi_def split: outcome.splits from_end.splits prod.splits)
  from reply_when_read_cases [OF started(2)] obtain x where
    x: "res = Some (Returns x)" "cgi_reply x = Returns r" "http_send_response (reply_writes e) r = (w, out)"
    by blast
  from cgi_reply_cases [OF x(2)] show ?thesis
    using cgi_response_read [of started q "cgi_writes e" "cgi_reads e" r sent] started(1) x(1,3)
      cgi_sends_prefix [OF started(1)] by auto
qed

lemma run_proxy_replied:
  fixes ctx :: 'c
  assumes "run_proxy e ctx ip port q pr = (Replied r w out, sent, pr')"
  shows "http_send_response (reply_writes e) r = (w, out) \<and> (\<exists>k. sent = take k (request_bytes q)) \<and>
    (r = with_error_code (Status 502) \<or> http_get_response (upstream_reads e) = Some (Returns (Ok r)))"
proof (cases "client_from (upstream_socket e) (upstream_connect e) ip port ctx (files pr)")
  case (Pair started t)
  show ?thesis
  proof (cases started)
    case (Err err)
    with Pair assms have none: "sent = take 0 (request_bytes q)"
      and "reply (reply_writes e) (proxy_reply (Err err)) = (Replied r w out :: 'c conn_end)"
      by (simp_all add: run_proxy_def)
    from reply_cases [OF this(2)] show ?thesis using none proxy_reply_cases [of "Err err" r] by blast
  next
    case (Ok client)
    obtain res where asked: "request_response (upstream_writes e) (upstream_reads e) q = (res, sent)"
        "reply_when_read (reply_writes e) proxy_reply res = (Replied r w out :: 'c conn_end)"
      using Pair Ok assms by (auto simp: run_proxy_def split: prod.splits)
    from reply_when_read_cases [OF asked(2)] obtain x where
      x: "res = Some (Returns x)" "proxy_reply x = Returns r" "http_send_response (reply_writes e) r = (w, out)"
      by blast
    from proxy_reply_cases [OF x(2)] show ?thesis
      using proxy_response_read [of "upstream_writes e" "upstream_reads e" q r sent] asked(1) x(1,3)
        proxy_sends_prefix [OF asked(1)] by auto
  qed
qed

lemma serve_connection_request:
  assumes "http_get_request (request_reads e) = Some (Returns (Ok q))"
    and "c_string (addr_ip (conn_addr conn)) = Returns ip"
    and "handle_request file ip info q = Returns act"
  shows "serve_connection file e ctx conn info pr =
    (case act of
       Send r \<Rightarrow> (reply (reply_writes e) (Returns r), [], pr)
     | Run_cgi path q' \<Rightarrow> run_cgi e ctx path q' pr
     | Proxy host port q' \<Rightarrow> run_proxy e ctx host port q' pr)"
  using assms by (simp add: serve_connection_def)

subsection \<open>Properties\<close>

text \<open>
  A client is sent at most one response, and every response has a source: what is proved of the
  running program in \<open>Web_Loop\<close>.
\<close>

lemma reply_source:
  assumes "serve_connection file e ctx conn info pr = (Replied r w out, sent, pr')"
  shows "\<exists>k req ip. out = take k (response_bytes r) \<and> (w = Some (Ok ()) \<longrightarrow> out = response_bytes r) \<and>
    http_get_request (request_reads e) = Some (Returns (Ok req)) \<and>
    c_string (addr_ip (conn_addr conn)) = Returns ip \<and>
    (case handle_request file ip info req of
       Returns (Send r') \<Rightarrow> r = r' \<and> sent = []
     | Returns (Run_cgi path q) \<Rightarrow> (\<exists>j. sent = take j (request_bytes q)) \<and>
         (r = with_error_code (Status 503) \<or> http_get_response (cgi_reads e) = Some (Returns (Ok r)))
     | Returns (Proxy host port q) \<Rightarrow> (\<exists>j. sent = take j (request_bytes q)) \<and>
         (r = with_error_code (Status 502) \<or> http_get_response (upstream_reads e) = Some (Returns (Ok r)))
     | _ \<Rightarrow> False)"
proof -
  obtain req where req: "http_get_request (request_reads e) = Some (Returns (Ok req))"
    using assms by (auto simp: serve_connection_def split: option.splits outcome.splits res.splits)
  obtain ip act where act: "c_string (addr_ip (conn_addr conn)) = Returns ip"
      "handle_request file ip info req = Returns act"
    using assms req by (cases "c_string (addr_ip (conn_addr conn))";
        cases "bind_outcome (c_string (addr_ip (conn_addr conn))) (\<lambda>ip. handle_request file ip info req)")
      (auto simp: serve_connection_def)
  note run = serve_connection_request [OF req act, of ctx pr, unfolded assms]
  have src: "http_send_response (reply_writes e) r = (w, out) \<and>
     (case act of
        Send r' \<Rightarrow> r = r' \<and> sent = []
      | Run_cgi path q \<Rightarrow> (\<exists>j. sent = take j (request_bytes q)) \<and>
          (r = with_error_code (Status 503) \<or> http_get_response (cgi_reads e) = Some (Returns (Ok r)))
      | Proxy host port q \<Rightarrow> (\<exists>j. sent = take j (request_bytes q)) \<and>
          (r = with_error_code (Status 502) \<or> http_get_response (upstream_reads e) = Some (Returns (Ok r))))"
  proof (cases act)
    case (Send r')
    then show ?thesis using run by (auto dest!: sym [of _ "reply _ _"] reply_cases)
  next
    case (Run_cgi path q)
    then show ?thesis using run run_cgi_replied [of e ctx path q pr r w out sent pr'] by simp
  next
    case (Proxy host port q)
    then show ?thesis using run run_proxy_replied [of e ctx host port q pr r w out sent pr'] by simp
  qed
  then obtain k where "out = take k (response_bytes r)" "w = Some (Ok ()) \<longrightarrow> out = response_bytes r"
    using http_send_response_prefix [of "reply_writes e" r w out] by (auto simp: response_bytes_def)
  with req act src show ?thesis
    by (intro exI [of _ k] exI [of _ req] exI [of _ ip]) (simp split: action.splits)
qed

text \<open>
  The surroundings in which an action ends with the response \<open>r\<close>: it is the one to send; or the
  CGI program could be started, or the upstream server reached, takes the whole request, and
  answers with \<open>r\<close>.
\<close>

definition room_for_request :: "request \<Rightarrow> write_wakeup list \<Rightarrow> bool" where
  "room_for_request q ws \<longleftrightarrow>
     list_all has_room ws \<and> max 1 (length (request_head q)) + max 1 (length (req_body q)) < length ws"

definition answers_with :: "surroundings \<Rightarrow> 'c \<Rightarrow> process \<Rightarrow> action \<Rightarrow> response \<Rightarrow> bool" where
  "answers_with e ctx pr act r =
     (case act of
        Send r' \<Rightarrow> r = r'
      | Run_cgi path q \<Rightarrow>
          (\<exists>ob pr'. object_from (cgi_answers e) ctx path (req_headers q) pr = Returns (Returned (Ok ob), pr')) \<and>
          room_for_request q (cgi_writes e) \<and> response_ok r \<and>
          arrives (response_head r) (resp_body r) (cgi_reads e)
      | Proxy ip port q \<Rightarrow>
          (\<exists>client t. client_from (upstream_socket e) (upstream_connect e) ip port ctx (files pr) = (Ok client, t)) \<and>
          room_for_request q (upstream_writes e) \<and> response_ok r \<and>
          arrives (response_head r) (resp_body r) (upstream_reads e))"

lemma cgi_exchange_ends:
  assumes "room_for_request q ws" and "response_ok r" and "arrives (response_head r) (resp_body r) rs"
  shows "cgi_send_request (Ok ob) q ws rs = (Some (Returns (Ok r)), request_bytes q)"
  using write_request [of ws q] get_response_arrives [OF assms(2,3)] assms(1)
  by (auto simp: cgi_send_request_def room_for_request_def http_get_response_def request_bytes_def)

lemma proxy_exchange_ends:
  assumes "room_for_request q ws" and "response_ok r" and "arrives (response_head r) (resp_body r) rs"
  shows "request_response ws rs q = (Some (Returns (Ok r)), request_bytes q)"
  using http_send_request_all [of ws q] get_response_arrives [OF assms(2,3)] assms(1)
  by (auto simp: request_response_def room_for_request_def request_bytes_def)

lemma run_cgi_replies:
  fixes ctx :: 'c
  assumes "answers_with e ctx pr (Run_cgi path q) r" and "room_for r (reply_writes e)"
  shows "\<exists>pr'. run_cgi e ctx path q pr =
    (Replied r (Some (Ok ())) (response_bytes r), request_bytes q, pr')"
proof -
  from assms(1) obtain ob pr' where
    started: "object_from (cgi_answers e) ctx path (req_headers q) pr = Returns (Returned (Ok ob), pr')"
      and ends: "room_for_request q (cgi_writes e)" "response_ok r"
        "arrives (response_head r) (resp_body r) (cgi_reads e)"
    by (auto simp: answers_with_def)
  then show ?thesis
    by (simp add: run_cgi_def cgi_exchange_ends reply_when_read_def cgi_reply_def reply_whole [OF assms(2)])
qed

lemma run_proxy_replies:
  fixes ctx :: 'c
  assumes "answers_with e ctx pr (Proxy host port q) r" and "room_for r (reply_writes e)"
  shows "\<exists>pr'. run_proxy e ctx host port q pr =
    (Replied r (Some (Ok ())) (response_bytes r), request_bytes q, pr')"
proof -
  from assms(1) obtain client t where
    reached: "client_from (upstream_socket e) (upstream_connect e) host port ctx (files pr) = (Ok client, t)"
      and ends: "room_for_request q (upstream_writes e)" "response_ok r"
        "arrives (response_head r) (resp_body r) (upstream_reads e)"
    by (auto simp: answers_with_def)
  then show ?thesis
    by (simp add: run_proxy_def proxy_exchange_ends reply_when_read_def proxy_reply_def reply_whole [OF assms(2)])
qed

lemma served_reply:
  fixes ctx :: 'c
  assumes "request_ok q" and "arrives (request_head q) (req_body q) (request_reads e)"
    and "c_string (addr_ip (conn_addr conn)) = Returns ip"
    and "handle_request file ip info q = Returns act"
    and "answers_with e ctx pr act r" and "room_for r (reply_writes e)"
  shows "\<exists>pr'. serve_connection file e ctx conn info pr =
    (Replied r (Some (Ok ())) (response_bytes r),
     case act of
       Send r' \<Rightarrow> []
     | Run_cgi path q' \<Rightarrow> request_bytes q'
     | Proxy host port q' \<Rightarrow> request_bytes q',
     pr')"
proof -
  note served = serve_connection_request [OF get_request_arrives [OF assms(1,2)] assms(3,4), of ctx pr]
  show ?thesis
  proof (cases act)
    case (Send r')
    then have "r = r'" using assms(5) by (simp add: answers_with_def)
    then show ?thesis using served reply_whole [OF assms(6)] by (simp add: Send)
  next
    case (Run_cgi path q')
    with run_cgi_replies [OF _ assms(6)] assms(5) served show ?thesis by simp
  next
    case (Proxy host port q')
    with run_proxy_replies [OF _ assms(6)] assms(5) served show ?thesis by simp
  qed
qed


text \<open>The hypotheses at a request that is passed on to an upstream server on port 80.\<close>

definition sample_proxy :: server where
  "sample_proxy = server_init\<lparr>locations :=
     [(''/'', location_init\<lparr>accepted_methods := {''PUT''}, proxy_pass := ''80''\<rparr>)]\<rparr>"

definition sample_connection :: "unit connection" where
  "sample_connection = \<lparr>conn_sock = \<lparr>socket_fd = 6, socket_context = ()\<rparr>,
     conn_addr = \<lparr>addr_ip = map Some ''1.2.3.4'' @ replicate 11 (Some NUL), addr_port = 5000\<rparr>\<rparr>"

definition sample_run :: surroundings where
  "sample_run = \<lparr>
     request_reads = [chunk (take 9 (request_head sample_request)),
       chunk (drop 9 (request_head sample_request) @ ''h''), chunk ''iGET''],
     reply_writes = replicate 60 (TO_WRITE, Sys_ok 7),
     cgi_answers = \<lparr>first_pipe = Sys_errno 24, second_pipe = Sys_errno 24, fork_pid = 0,
       dup_stdout = True, dup_stdin = True, execve_fails = False\<rparr>,
     cgi_writes = [], cgi_reads = [],
     upstream_socket = Sys_ok (7, 1), upstream_connect = (\<lambda>ip port. Sys_ok ()),
     upstream_writes = replicate 90 (TO_WRITE, Sys_ok 7),
     upstream_reads = [chunk (take 9 (response_head sample_response)),
       chunk (drop 9 (response_head sample_response) @ ''h''), chunk ''i'']\<rparr>"

lemma sample_request_arrives:
  "arrives (request_head sample_request) (req_body sample_request) (request_reads sample_run)"
  unfolding arrives_def sample_run_def surroundings.simps
  using sample_request_chunks(2-4) by blast

lemma sample_response_arrives:
  "arrives (response_head sample_response) (resp_body sample_response) (upstream_reads sample_run)"
  unfolding arrives_def sample_run_def surroundings.simps
  using sample_response_chunks(2-4) by blast

lemma sample_proxied:
  "handle_request file ''1.2.3.4'' [sample_proxy] sample_request =
     Returns (Proxy ''127.0.0.1'' (port_of ''80'') (add_forwarded ''1.2.3.4'' sample_request))"
  by (simp add: handle_request_def get_location_def choose_server_def match_location_def sample_proxy_def
      sample_request_def map_find_def location_init_def server_init_def proxy_address_def)

abbreviation sample_process :: process where
  "sample_process \<equiv> \<lparr>files = (\<lambda>n. None), memory = \<lparr>arrays = (\<lambda>p. None), next_array = 1\<rparr>\<rparr>"

lemma sample_answers:
  "answers_with sample_run () sample_process
     (Proxy ''127.0.0.1'' (port_of ''80'') (add_forwarded ''1.2.3.4'' sample_request)) sample_response"
proof -
  have "room_for_request (add_forwarded ''1.2.3.4'' sample_request) (upstream_writes sample_run)"
    by (simp add: room_for_request_def sample_run_def has_room_def list_all_iff sample_bytes
        add_forwarded_def map_find_def)
  then show ?thesis
    using sample_response_arrives sample_response_chunks(1)
    by (simp add: answers_with_def client_from_def conn_tcp_serv_def sample_run_def)
qed

lemma sample_room: "room_for sample_response (reply_writes sample_run)"
  by (simp add: room_for_def sample_run_def has_room_def list_all_iff sample_bytes)

lemma sample_address: "c_string (addr_ip (conn_addr sample_connection)) = Returns ''1.2.3.4''"
  by (simp add: sample_connection_def c_string_def eval_nat_numeral)

text \<open>What the sample run ends with: the reply to the client, and what the upstream server got.\<close>

definition sample_end :: "process \<Rightarrow> unit conn_end \<times> bytes \<times> process" where
  "sample_end pr = (Replied sample_response (Some (Ok ())) (response_bytes sample_response),
     request_bytes (add_forwarded ''1.2.3.4'' sample_request), pr)"


end
