(* ===== verification/Event_Listener.thy ===== *)
theory Event_Listener
  imports Descriptors "HOL-Library.AList"
begin

text \<open>
  The three listeners of \<open>low-lewel/\<close> (\<open>epoll_based_l.hpp\<close>, which the build uses,
  \<open>poll_based_l.hpp\<close> and \<open>kqueue_based_l.hpp\<close>) and the wrapper \<open>EventListener.hpp\<close>. What the
  kernel keeps for an epoll or kqueue instance is part of the state, with the errors its manual
  gives for adding twice and for deleting what is not there; every other failure of a call is an
  argument. \<open>strerror\<close> is an argument too: its texts belong to the platform. That \<open>add_event\<close>
  also makes the descriptor non-blocking is not part of the state.
\<close>

section \<open>Listeners\<close>

text \<open>What the kernel says of a descriptor, and what it is asked for.\<close>

record readiness =
  r_in :: bool
  r_out :: bool
  r_hup :: bool
  r_err :: bool

datatype interest = Poll_in | Poll_out

text \<open>
  The test of \<open>add_event\<close> on the type of its event. For the two types it does not name, the
  code passes an indeterminate mask on.
\<close>

definition interest_of :: "64 word \<Rightarrow> interest option" where
  "interest_of event =
     (case event_type event of
        Some TO_READ \<Rightarrow> Some Poll_in
      | Some TO_ACCEPT \<Rightarrow> Some Poll_in
      | Some TO_WRITE \<Rightarrow> Some Poll_out
      | _ \<Rightarrow> None)"

subsection \<open>epoll\<close>

definition EPOLL_SIZE :: nat where "EPOLL_SIZE = 100"

definition EEXIST :: int where "EEXIST = 17"
definition ENOENT :: int where "ENOENT = 2"

record epoll =
  epfd :: fd
  watched :: "fd \<Rightarrow> (interest \<times> 64 word) option"

definition epoll_create :: "(int \<Rightarrow> string) \<Rightarrow> fd sys \<Rightarrow> epoll outcome" where
  "epoll_create strerror answer =
     (case answer of
        Sys_errno n \<Rightarrow> Throws (Logic_error (''Epoll Create: '' @ strerror n))
      | Sys_ok f \<Rightarrow> Returns \<lparr>epfd = f, watched = (\<lambda>_. None)\<rparr>)"

definition epoll_move :: "epoll \<Rightarrow> epoll \<times> epoll" where
  "epoll_move other = (other, other\<lparr>epfd := 0\<rparr>)"

definition epoll_destroy :: "epoll \<Rightarrow> table \<Rightarrow> epoll \<times> table" where
  "epoll_destroy l t = (if epfd l \<noteq> 0 then (l\<lparr>epfd := 0\<rparr>, os_close (epfd l) t) else (l, t))"

definition epoll_ctl_add :: "unit sys \<Rightarrow> fd \<Rightarrow> interest \<times> 64 word \<Rightarrow> epoll \<Rightarrow> epoll sys" where
  "epoll_ctl_add answer f e l =
     (if watched l f \<noteq> None then Sys_errno EEXIST
      else case answer of
        Sys_errno n \<Rightarrow> Sys_errno n
      | Sys_ok _ \<Rightarrow> Sys_ok (l\<lparr>watched := (watched l)(f \<mapsto> e)\<rparr>))"

definition epoll_ctl_del :: "unit sys \<Rightarrow> fd \<Rightarrow> epoll \<Rightarrow> epoll sys" where
  "epoll_ctl_del answer f l =
     (if watched l f = None then Sys_errno ENOENT
      else case answer of
        Sys_errno n \<Rightarrow> Sys_errno n
      | Sys_ok _ \<Rightarrow> Sys_ok (l\<lparr>watched := (watched l)(f := None)\<rparr>))"

definition epoll_add_event :: "(int \<Rightarrow> string) \<Rightarrow> unit sys \<Rightarrow> 64 word \<Rightarrow> epoll \<Rightarrow> epoll outcome" where
  "epoll_add_event strerror answer event l =
     (case interest_of event of
        None \<Rightarrow> Undefined
      | Some i \<Rightarrow>
          (case epoll_ctl_add answer (event_fd event) (i, event) l of
             Sys_errno n \<Rightarrow> Throws (Logic_error (''Epoll Add event: '' @ strerror n))
           | Sys_ok l \<Rightarrow> Returns l))"

definition epoll_del_event :: "(int \<Rightarrow> string) \<Rightarrow> unit sys \<Rightarrow> 64 word \<Rightarrow> epoll \<Rightarrow> epoll outcome" where
  "epoll_del_event strerror answer event l =
     (case epoll_ctl_del answer (event_fd event) l of
        Sys_errno n \<Rightarrow> Throws (Logic_error (''Epoll del event: '' @ strerror n))
      | Sys_ok l \<Rightarrow> Returns l)"

text \<open>\<open>epoll_wait\<close> answers with the 64 bits it was given for a descriptor and its readiness.\<close>

definition epoll_events :: "64 word \<times> readiness \<Rightarrow> 64 word list" where
  "epoll_events e =
     (let fd = event_fd (fst e); r = snd e in
        if r_in r then [mk_event fd TO_READ]
        else if r_out r then [mk_event fd TO_WRITE]
        else if r_hup r then [mk_event fd CLOSED]
        else if r_err r then [mk_event fd ERROR]
        else [])"

definition epoll_block ::
  "(int \<Rightarrow> string) \<Rightarrow> (64 word \<times> readiness) list sys \<Rightarrow> 64 word list \<Rightarrow> 64 word list outcome" where
  "epoll_block strerror answer events =
     (case answer of
        Sys_errno n \<Rightarrow> Throws (Logic_error (''Epoll block: '' @ strerror n))
      | Sys_ok es \<Rightarrow> Returns (events @ concat (map epoll_events es)))"

text \<open>
  What \<open>epoll_wait\<close> may answer: some of the watched descriptors, each once and at most as many as
  asked for, with a readiness that was asked for, or a hang-up or an error, which are always
  reported.
\<close>

definition asked_for :: "interest \<Rightarrow> readiness \<Rightarrow> bool" where
  "asked_for i r \<longleftrightarrow> (r_in r \<longrightarrow> i = Poll_in) \<and> (r_out r \<longrightarrow> i = Poll_out) \<and>
     (r_in r \<or> r_out r \<or> r_hup r \<or> r_err r)"

definition epoll_reports :: "epoll \<Rightarrow> (64 word \<times> readiness) list \<Rightarrow> bool" where
  "epoll_reports l es \<longleftrightarrow> length es \<le> EPOLL_SIZE \<and> distinct (map (event_fd \<circ> fst) es) \<and>
     list_all (\<lambda>(d, r). \<exists>i. watched l (event_fd d) = Some (i, d) \<and> asked_for i r) es"

interpretation epoll: descriptor_owner epfd epoll_move epoll_destroy
  by unfold_locales (simp_all add: epoll_move_def epoll_destroy_def)

subsection \<open>poll\<close>

text \<open>
  The \<open>unordered_map\<close> of the listener as the list of its entries in the order of iteration.
  \<open>block\<close> builds its array with one zeroed entry for each of them and then appends them.
\<close>

type_synonym poll_map = "(fd \<times> interest) list"

definition poll_create :: poll_map where
  "poll_create = []"

text \<open>The move constructor has an empty body: the new listener watches nothing.\<close>

definition poll_move :: "poll_map \<Rightarrow> poll_map \<times> poll_map" where
  "poll_move other = (poll_create, other)"

definition poll_add_event :: "64 word \<Rightarrow> poll_map \<Rightarrow> poll_map" where
  "poll_add_event event m =
     (case interest_of event of None \<Rightarrow> m | Some i \<Rightarrow> AList.update (event_fd event) i m)"

definition poll_del_event :: "64 word \<Rightarrow> poll_map \<Rightarrow> poll_map" where
  "poll_del_event event m = AList.delete (event_fd event) m"

definition poll_array :: "poll_map \<Rightarrow> (fd \<times> interest option) list" where
  "poll_array m = replicate (length m) (0, None) @ map (\<lambda>(f, i). (f, Some i)) m"

definition poll_events :: "fd \<times> readiness \<Rightarrow> 64 word list" where
  "poll_events e =
     (let fd = fst e; r = snd e in
        (if r_in r then [mk_event fd TO_READ]
         else if r_out r then [mk_event fd TO_WRITE]
         else if r_hup r then [mk_event fd CLOSED]
         else []) @
        (if r_err r then [mk_event fd ERROR] else []))"

definition poll_block ::
  "(int \<Rightarrow> string) \<Rightarrow> readiness list sys \<Rightarrow> poll_map \<Rightarrow> 64 word list \<Rightarrow> 64 word list outcome" where
  "poll_block strerror answer m events =
     (case answer of
        Sys_errno n \<Rightarrow> Throws (Logic_error (''poll block: '' @ strerror n))
      | Sys_ok rs \<Rightarrow>
          Returns (events @ concat (map poll_events (zip (map fst (poll_array m)) rs))))"

subsection \<open>kqueue\<close>

text \<open>The two filters as \<open>sys/event.h\<close> defines them, and what is registered with the kernel: pairs
  of a descriptor and a filter.\<close>

definition EVFILT_READ :: "16 word" where "EVFILT_READ = -1"
definition EVFILT_WRITE :: "16 word" where "EVFILT_WRITE = -2"

record kqueue =
  kq :: fd
  filters :: "(fd \<times> 16 word) set"

definition kqueue_create :: "(int \<Rightarrow> string) \<Rightarrow> fd sys \<Rightarrow> kqueue outcome" where
  "kqueue_create strerror answer =
     (case answer of
        Sys_errno n \<Rightarrow> Throws (Logic_error (''kqueue create: '' @ strerror n))
      | Sys_ok f \<Rightarrow> Returns \<lparr>kq = f, filters = {}\<rparr>)"

definition kqueue_move :: "kqueue \<Rightarrow> kqueue \<times> kqueue" where
  "kqueue_move other = (other, other\<lparr>kq := 0\<rparr>)"

definition kqueue_destroy :: "kqueue \<Rightarrow> table \<Rightarrow> kqueue \<times> table" where
  "kqueue_destroy l t = (if kq l \<noteq> 0 then (l\<lparr>kq := 0\<rparr>, os_close (kq l) t) else (l, t))"

interpretation kqueue: descriptor_owner kq kqueue_move kqueue_destroy
  by unfold_locales (simp_all add: kqueue_move_def kqueue_destroy_def)

definition kqueue_add_event :: "(int \<Rightarrow> string) \<Rightarrow> unit sys \<Rightarrow> 64 word \<Rightarrow> kqueue \<Rightarrow> kqueue outcome" where
  "kqueue_add_event strerror answer event k =
     (case interest_of event of
        None \<Rightarrow> Undefined
      | Some i \<Rightarrow>
          (case answer of
             Sys_errno n \<Rightarrow> Throws (Logic_error (''kqueue add event: '' @ strerror n))
           | Sys_ok _ \<Rightarrow> Returns (k\<lparr>filters := insert (event_fd event,
               case i of Poll_in \<Rightarrow> EVFILT_READ | Poll_out \<Rightarrow> EVFILT_WRITE) (filters k)\<rparr>)))"

definition kqueue_del_event :: "(int \<Rightarrow> string) \<Rightarrow> 64 word \<Rightarrow> kqueue \<Rightarrow> kqueue outcome" where
  "kqueue_del_event strerror event k =
     (let e = (event_fd event, EVFILT_READ OR EVFILT_WRITE) in
        if e \<in> filters k then Returns (k\<lparr>filters := filters k - {e}\<rparr>)
        else Throws (Logic_error (''kqueue del event: '' @ strerror ENOENT)))"

record kevent =
  ident :: fd
  ev_filter :: "16 word"
  ev_eof :: bool
  ev_error :: bool

definition kqueue_event :: "kevent \<Rightarrow> 64 word list" where
  "kqueue_event ev =
     (if ev_eof ev then [mk_event (ident ev) CLOSED]
      else if ev_error ev then [mk_event (ident ev) ERROR]
      else if ev_filter ev AND EVFILT_READ \<noteq> 0 then [mk_event (ident ev) TO_READ]
      else if ev_filter ev AND EVFILT_WRITE \<noteq> 0 then [mk_event (ident ev) TO_WRITE]
      else [])"

definition kqueue_block ::
  "(int \<Rightarrow> string) \<Rightarrow> kevent list sys \<Rightarrow> 64 word list \<Rightarrow> 64 word list outcome" where
  "kqueue_block strerror answer events =
     (case answer of
        Sys_errno n \<Rightarrow> Throws (Logic_error (''kqueue block: '' @ strerror n))
      | Sys_ok es \<Rightarrow> Returns (events @ concat (map kqueue_event es)))"

subsection \<open>Facts\<close>

text \<open>What is handed to a handler suits what the event it was registered with asked for.\<close>

definition suits :: "event_type \<Rightarrow> event_type \<Rightarrow> bool" where
  "suits wanted t \<longleftrightarrow> t = CLOSED \<or> t = ERROR \<or>
     t = TO_READ \<and> wanted \<in> {TO_READ, TO_ACCEPT} \<or> t = TO_WRITE \<and> wanted = TO_WRITE"

lemma interest_of_cases:
  "interest_of d = Some i \<Longrightarrow> \<exists>w. event_type d = Some w \<and> (i = Poll_in \<longleftrightarrow> w \<in> {TO_READ, TO_ACCEPT}) \<and>
     (i = Poll_out \<longleftrightarrow> w = TO_WRITE)"
  by (auto simp: interest_of_def split: option.splits event_type.splits)

lemma epoll_events_one:
  assumes "asked_for i r" and "interest_of d = Some i"
  shows "\<exists>t w. epoll_events (d, r) = [mk_event (event_fd d) t] \<and> event_type d = Some w \<and> suits w t"
  using assms(1) interest_of_cases [OF assms(2)]
  by (cases i) (auto simp: epoll_events_def asked_for_def suits_def Let_def)

lemma kqueue_filters: "EVFILT_READ OR EVFILT_WRITE = EVFILT_READ" "EVFILT_WRITE AND EVFILT_READ = EVFILT_WRITE"
  by (simp_all add: EVFILT_READ_def EVFILT_WRITE_def)

text \<open>
  The two listeners the build does not use cannot drive the event loop. With kqueue, a
  descriptor registered for writing is reported as readable when it becomes writable, and
  deleting its event throws, since the two filters combined with \<open>or\<close> are the one for reading.
  With poll, the array has as many entries for descriptor 0 as there are registered ones, so a
  hang-up of descriptor 0 is reported once for each, though nobody registered it; and a descriptor
  that is readable and in error is reported twice.
\<close>

lemma other_listeners_misreport:
  "kqueue_add_event strerror (Sys_ok ()) (mk_event f TO_WRITE) \<lparr>kq = q, filters = {}\<rparr> =
     Returns \<lparr>kq = q, filters = {(f, EVFILT_WRITE)}\<rparr> \<and>
   kqueue_event \<lparr>ident = f, ev_filter = EVFILT_WRITE, ev_eof = False, ev_error = False\<rparr> =
     [mk_event f TO_READ] \<and>
   kqueue_del_event strerror (mk_event f t) \<lparr>kq = q, filters = {(f, EVFILT_WRITE)}\<rparr> =
     Throws (Logic_error (''kqueue del event: '' @ strerror ENOENT)) \<and>
   poll_block strerror (Sys_ok (replicate (length m)
       \<lparr>r_in = False, r_out = False, r_hup = True, r_err = False\<rparr> @ rs)) m [] =
     Returns (replicate (length m) (mk_event 0 CLOSED) @ concat (map poll_events (zip (map fst m) rs))) \<and>
   poll_block strerror (Sys_ok [rd, \<lparr>r_in = True, r_out = False, r_hup = False, r_err = True\<rparr>])
       (poll_add_event (mk_event f TO_READ) []) [] =
     Returns (poll_events (0, rd) @ [mk_event f TO_READ, mk_event f ERROR])"
proof -
  have "zip (replicate n (0 :: fd) @ map fst m) (replicate n x @ rs) = replicate n (0, x) @ zip (map fst m) rs"
    for n and x :: readiness by (simp add: zip_append zip_replicate)
  moreover have "concat (map poll_events (replicate n (0, \<lparr>r_in = False, r_out = False, r_hup = True, r_err = False\<rparr>)))
      = replicate n (mk_event 0 CLOSED)" for n
    by (induction n) (simp_all add: poll_events_def)
  moreover have "map fst (poll_array m) = replicate (length m) 0 @ map fst m"
    by (simp add: poll_array_def comp_def case_prod_beta')
  ultimately have "poll_block strerror (Sys_ok (replicate (length m)
       \<lparr>r_in = False, r_out = False, r_hup = True, r_err = False\<rparr> @ rs)) m [] =
     Returns (replicate (length m) (mk_event 0 CLOSED) @ concat (map poll_events (zip (map fst m) rs)))"
    by (simp add: poll_block_def)
  then show ?thesis
    by (simp add: kqueue_add_event_def kqueue_event_def kqueue_del_event_def kqueue_filters interest_of_def
        event_type_mk event_fd_mk poll_block_def poll_array_def poll_add_event_def poll_events_def)
      (simp add: EVFILT_READ_def EVFILT_WRITE_def)
qed

end
