(* ===== verification/Event_Loop.thy ===== *)
theory Event_Loop
  imports Event_Listener "HOL-Library.Multiset"
begin

text \<open>
  \<open>ExecutionContext\<close> (\<open>ExecutionContext.hpp\<close>, \<open>ExecutionContext.cpp\<close>) over the epoll listener:
  the storage of the handlers, keyed by the descriptor alone, the registration of a handler by any
  thread, and the event loop. A step is one operation of one thread: the loop's thread goes through
  the reported events and, for each, deletes it from the listener and hands its handler to the
  executor (two steps: the loop does not hold the mutex); the executor's threads run the handlers in any
  order; any thread may register. The next round begins when all handlers of the last one have
  returned (\<open>all_comleted.block_get()\<close>).
\<close>

section \<open>The event loop\<close>

subsection \<open>The context\<close>

record 'h execution_context =
  listener :: epoll
  handlers :: "fd \<Rightarrow> 'h option"

definition set_handler :: "64 word \<Rightarrow> 'h \<Rightarrow> (fd \<Rightarrow> 'h option) \<Rightarrow> fd \<Rightarrow> 'h option" where
  "set_handler ev h hs = hs(event_fd ev \<mapsto> h)"

definition get_handler :: "64 word \<Rightarrow> (fd \<Rightarrow> 'h option) \<Rightarrow> ('h \<times> (fd \<Rightarrow> 'h option)) outcome" where
  "get_handler ev hs =
     (case hs (event_fd ev) of
        None \<Rightarrow> Throws (Logic_error ''CallbackStorage: Event must be here'')
      | Some h \<Rightarrow> Returns (h, hs(event_fd ev := None)))"

definition add_handler_for_event ::
  "(int \<Rightarrow> string) \<Rightarrow> unit sys \<Rightarrow> 64 word \<Rightarrow> 'h \<Rightarrow> 'h execution_context \<Rightarrow> 'h execution_context outcome" where
  "add_handler_for_event strerror answer event callback ctx =
     bind_outcome (epoll_add_event strerror answer event (listener ctx)) (\<lambda>l.
       Returns (ctx\<lparr>listener := l, handlers := set_handler event callback (handlers ctx)\<rparr>))"

text \<open>The registrations of the owners of descriptors.\<close>

definition when_readable :: "fd \<Rightarrow> 64 word" where "when_readable n = mk_event n TO_READ"
definition when_writable :: "fd \<Rightarrow> 64 word" where "when_writable n = mk_event n TO_WRITE"
definition when_acceptable :: "fd \<Rightarrow> 64 word" where "when_acceptable n = mk_event n TO_ACCEPT"

subsection \<open>The loop\<close>

text \<open>
  \<open>batch\<close> holds the events still to be gone through, \<open>deleted\<close> the one whose handler is about to be
  fetched, \<open>running\<close> the handlers given to the executor, with the type of their event. \<open>loop_exn\<close>
  is the exception that ended the loop. The rest records what happened: the accepted
  registrations with the type asked for, the handlers handed over and those that returned.
\<close>

record 'h loop =
  ctx :: "'h execution_context"
  batch :: "64 word list"
  deleted :: "64 word option"
  running :: "(fd \<times> 'h \<times> event_type) list"
  loop_exn :: "exn option"
  added :: "(fd \<times> 'h \<times> event_type) list"
  started :: "(fd \<times> 'h \<times> event_type) list"
  returned :: "(fd \<times> 'h \<times> event_type) list"

definition loop_init :: "epoll \<Rightarrow> 'h loop" where
  "loop_init l = \<lparr>ctx = \<lparr>listener = l, handlers = (\<lambda>_. None)\<rparr>, batch = [], deleted = None, running = [],
     loop_exn = None, added = [], started = [], returned = []\<rparr>"

datatype 'h loop_action =
    Add "64 word" 'h "unit sys"
  | Refused "64 word" 'h "unit sys" exn
  | Report "(64 word \<times> readiness) list"
  | Delete
  | Fetch
  | Run nat

text \<open>The loop's thread is between two rounds.\<close>

definition idle :: "'h loop \<Rightarrow> bool" where
  "idle s \<longleftrightarrow> batch s = [] \<and> deleted s = None \<and> running s = []"

text \<open>
  The bodies of the loop's two steps for one event. Deleting a descriptor that is open and
  watched does not fail.
\<close>

definition delete_step :: "(int \<Rightarrow> string) \<Rightarrow> 64 word \<Rightarrow> 64 word list \<Rightarrow> 'h loop \<Rightarrow> 'h loop" where
  "delete_step strerror ev rest s =
     (case epoll_del_event strerror (Sys_ok ()) ev (listener (ctx s)) of
        Returns l \<Rightarrow> s\<lparr>ctx := (ctx s)\<lparr>listener := l\<rparr>, batch := rest, deleted := Some ev\<rparr>
      | Throws x \<Rightarrow> s\<lparr>loop_exn := Some x\<rparr>
      | Undefined \<Rightarrow> s)"

definition fetch_step :: "64 word \<Rightarrow> event_type \<Rightarrow> 'h loop \<Rightarrow> 'h loop" where
  "fetch_step ev t s =
     (case get_handler ev (handlers (ctx s)) of
        Returns (h, hs) \<Rightarrow>
          s\<lparr>ctx := (ctx s)\<lparr>handlers := hs\<rparr>, deleted := None,
            running := running s @ [(event_fd ev, h, t)], started := started s @ [(event_fd ev, h, t)]\<rparr>
      | Throws x \<Rightarrow> s\<lparr>loop_exn := Some x\<rparr>
      | Undefined \<Rightarrow> s)"

inductive loop_step :: "(int \<Rightarrow> string) \<Rightarrow> 'h loop \<Rightarrow> 'h loop_action \<Rightarrow> 'h loop \<Rightarrow> bool" for strerror where
  step_add: "add_handler_for_event strerror answer ev h (ctx s) = Returns c \<Longrightarrow>
     event_type ev = Some w \<Longrightarrow>
     loop_step strerror s (Add ev h answer) (s\<lparr>ctx := c, added := added s @ [(event_fd ev, h, w)]\<rparr>)"
| step_refused: "add_handler_for_event strerror answer ev h (ctx s) = Throws x \<Longrightarrow>
     loop_step strerror s (Refused ev h answer x) s"
| step_report: "loop_exn s = None \<Longrightarrow> idle s \<Longrightarrow> epoll_reports (listener (ctx s)) es \<Longrightarrow>
     epoll_block strerror (Sys_ok es) [] = Returns evs \<Longrightarrow>
     loop_step strerror s (Report es) (s\<lparr>batch := evs\<rparr>)"
| step_delete: "loop_exn s = None \<Longrightarrow> deleted s = None \<Longrightarrow> batch s = ev # rest \<Longrightarrow>
     loop_step strerror s Delete (delete_step strerror ev rest s)"
| step_fetch: "loop_exn s = None \<Longrightarrow> deleted s = Some ev \<Longrightarrow> event_type ev = Some t \<Longrightarrow>
     loop_step strerror s Fetch (fetch_step ev t s)"
| step_run: "i < length (running s) \<Longrightarrow>
     loop_step strerror s (Run i)
       (s\<lparr>running := take i (running s) @ drop (Suc i) (running s),
          returned := returned s @ [running s ! i]\<rparr>)"

text \<open>
  A registration is orderly if it does not fall between the two steps for an event of the same
  descriptor. (The handler of that event cannot do so: it has not been started yet.)
\<close>

definition orderly :: "'h loop \<Rightarrow> 'h loop_action \<Rightarrow> bool" where
  "orderly s a \<longleftrightarrow>
     (case a of Add ev h answer \<Rightarrow> (case deleted s of None \<Rightarrow> True | Some e \<Rightarrow> event_fd e \<noteq> event_fd ev)
      | _ \<Rightarrow> True)"

inductive loop_run :: "(int \<Rightarrow> string) \<Rightarrow> 'h loop \<Rightarrow> 'h loop_action list \<Rightarrow> 'h loop \<Rightarrow> bool" for strerror where
  run_start: "loop_run strerror s [] s"
| run_more: "loop_run strerror s as t \<Longrightarrow> orderly t a \<Longrightarrow> loop_step strerror t a u \<Longrightarrow>
     loop_run strerror s (as @ [a]) u"

inductive_cases loop_stepE: "loop_step strerror s a t"

subsection \<open>The invariant\<close>

definition window :: "'h loop \<Rightarrow> fd set" where
  "window s = (case deleted s of None \<Rightarrow> {} | Some e \<Rightarrow> {event_fd e})"

abbreviation watch :: "'h loop \<Rightarrow> fd \<Rightarrow> (interest \<times> 64 word) option" where
  "watch s \<equiv> watched (listener (ctx s))"

abbreviation stored :: "'h loop \<Rightarrow> fd \<Rightarrow> 'h option" where
  "stored s \<equiv> handlers (ctx s)"

text \<open>The registrations that wait for their event.\<close>

definition registered :: "(fd \<Rightarrow> 'h option) \<Rightarrow> (fd \<times> 'h) multiset" where
  "registered hs = image_mset (\<lambda>f. (f, the (hs f))) (mset_set (dom hs))"

definition owner :: "fd \<times> 'h \<times> event_type \<Rightarrow> fd \<times> 'h" where
  "owner e = (fst e, fst (snd e))"

text \<open>An event and the registration it is for.\<close>

definition answered :: "'h loop \<Rightarrow> fd \<Rightarrow> 'h \<Rightarrow> event_type \<Rightarrow> bool" where
  "answered s f h t \<longleftrightarrow> (\<exists>w. (f, h, w) \<in> set (added s) \<and> suits w t)"

text \<open>What is watched has a handler; what is reported is watched; what is deleted has its handler.\<close>

definition watch_ok :: "'h loop \<Rightarrow> bool" where
  "watch_ok s \<longleftrightarrow> finite (dom (stored s)) \<and> dom (stored s) = dom (watch s) \<union> window s \<and>
     window s \<inter> dom (watch s) = {} \<and>
     (\<forall>f i d. watch s f = Some (i, d) \<longrightarrow> event_fd d = f \<and> interest_of d = Some i \<and>
        (\<exists>h w. stored s f = Some h \<and> event_type d = Some w \<and> (f, h, w) \<in> set (added s)))"

definition batch_ok :: "'h loop \<Rightarrow> bool" where
  "batch_ok s \<longleftrightarrow> distinct (map event_fd (batch s)) \<and>
     (\<forall>ev \<in> set (batch s). \<exists>i d t w. watch s (event_fd ev) = Some (i, d) \<and> event_type ev = Some t \<and>
        event_type d = Some w \<and> suits w t) \<and>
     (\<forall>ev. deleted s = Some ev \<longrightarrow> (\<exists>h t. stored s (event_fd ev) = Some h \<and> event_type ev = Some t \<and>
        answered s (event_fd ev) h t))"

definition ledger_ok :: "'h loop \<Rightarrow> bool" where
  "ledger_ok s \<longleftrightarrow>
     mset (map owner (added s)) = mset (map owner (started s)) + registered (stored s) \<and>
     mset (started s) = mset (returned s) + mset (running s) \<and>
     (\<forall>(f, h, t) \<in> set (started s). answered s f h t)"

definition loop_inv :: "'h loop \<Rightarrow> bool" where
  "loop_inv s \<longleftrightarrow> loop_exn s = None \<and> watch_ok s \<and> batch_ok s \<and> ledger_ok s"

lemma registered_add:
  "finite (dom hs) \<Longrightarrow> hs f = None \<Longrightarrow> registered (hs(f \<mapsto> h)) = add_mset (f, h) (registered hs)"
proof -
  assume fin: "finite (dom hs)" and new: "hs f = None"
  then have "f \<notin> dom hs" by auto
  moreover have "image_mset (\<lambda>g. (g, the ((hs(f \<mapsto> h)) g))) (mset_set (dom hs)) =
      image_mset (\<lambda>g. (g, the (hs g))) (mset_set (dom hs))"
    by (rule image_mset_cong) (use \<open>f \<notin> dom hs\<close> fin in auto)
  ultimately show ?thesis using fin by (simp add: registered_def)
qed

lemma registered_remove:
  assumes "finite (dom hs)" and "hs f = Some h"
  shows "registered hs = add_mset (f, h) (registered (hs(f := None)))"
proof -
  have "hs = (hs(f := None))(f \<mapsto> h)" using assms(2) by auto
  moreover have "finite (dom (hs(f := None)))" using assms(1) by simp
  ultimately show ?thesis using registered_add [of "hs(f := None)" f h] by (metis fun_upd_same)
qed

lemma epoll_add_event_Returns:
  "epoll_add_event strerror answer ev l = Returns l' \<longleftrightarrow>
     (\<exists>i. interest_of ev = Some i \<and> watched l (event_fd ev) = None \<and> answer = Sys_ok () \<and>
       l' = l\<lparr>watched := (watched l)(event_fd ev \<mapsto> (i, ev))\<rparr>)"
  by (cases "watched l (event_fd ev)")
    (auto simp: epoll_add_event_def epoll_ctl_add_def split: option.splits sys.splits)

lemma add_handler_Returns:
  "add_handler_for_event strerror answer ev h c = Returns c' \<longleftrightarrow>
     (\<exists>i. interest_of ev = Some i \<and> watched (listener c) (event_fd ev) = None \<and> answer = Sys_ok () \<and>
       c' = c\<lparr>listener := (listener c)\<lparr>watched := (watched (listener c))(event_fd ev \<mapsto> (i, ev))\<rparr>,
              handlers := (handlers c)(event_fd ev \<mapsto> h)\<rparr>)"
  by (auto simp: add_handler_for_event_def bind_outcome_Returns_iff epoll_add_event_Returns set_handler_def)

lemma answered_mono: "answered s f h t \<Longrightarrow> set (added s) \<subseteq> set (added s') \<Longrightarrow> answered s' f h t"
  by (auto simp: answered_def)

subsection \<open>Every step keeps it\<close>

lemma add_keeps:
  assumes inv: "loop_inv s" and "orderly s (Add ev h answer)"
    and "add_handler_for_event strerror answer ev h (ctx s) = Returns c" and w: "event_type ev = Some w"
  shows "loop_inv (s\<lparr>ctx := c, added := added s @ [(event_fd ev, h, w)]\<rparr>)" (is "loop_inv ?t")
proof -
  from assms(3) obtain i where i: "interest_of ev = Some i" "watch s (event_fd ev) = None"
    and c: "c = (ctx s)\<lparr>listener := (listener (ctx s))\<lparr>watched := (watch s)(event_fd ev \<mapsto> (i, ev))\<rparr>,
              handlers := (stored s)(event_fd ev \<mapsto> h)\<rparr>"
    by (auto simp: add_handler_Returns)
  have out: "event_fd ev \<notin> window s"
    using assms(2) by (auto simp: orderly_def window_def split: option.splits)
  have wo: "watch_ok s" "batch_ok s" "ledger_ok s" "loop_exn s = None"
    using inv by (simp_all add: loop_inv_def)
  then have "event_fd ev \<notin> dom (stored s)"
    using i(2) out by (simp add: watch_ok_def domIff)
  then have fresh: "stored s (event_fd ev) = None" by (simp add: domIff)
  have sel: "watch ?t = (watch s)(event_fd ev \<mapsto> (i, ev))" "stored ?t = (stored s)(event_fd ev \<mapsto> h)"
    "window ?t = window s" by (simp_all add: c window_def)
  have "watch_ok ?t"
    using wo(1) i(1) w out unfolding watch_ok_def sel by (auto split: if_splits)
  moreover have "batch_ok ?t"
    using wo(2) i(2) out unfolding batch_ok_def sel
    by (fastforce simp: window_def intro: answered_mono split: if_splits)
  moreover have "ledger_ok ?t"
    using wo(1,3) fresh unfolding ledger_ok_def sel
    by (auto simp: watch_ok_def registered_add owner_def intro: answered_mono)
  ultimately show ?thesis using wo(4) by (simp add: loop_inv_def)
qed

lemma report_keeps:
  assumes inv: "loop_inv s" and "idle s" and es: "epoll_reports (listener (ctx s)) es"
    and evs: "epoll_block strerror (Sys_ok es) [] = Returns evs"
  shows "loop_inv (s\<lparr>batch := evs\<rparr>)"
proof -
  have wo: "watch_ok s" "batch_ok s" "ledger_ok s" "loop_exn s = None"
    using inv by (simp_all add: loop_inv_def)
  have one: "\<exists>t i w. epoll_events e = [mk_event (event_fd (fst e)) t] \<and>
      watch s (event_fd (fst e)) = Some (i, fst e) \<and> event_type (fst e) = Some w \<and> suits w t"
    if "e \<in> set es" for e
  proof -
    obtain d r where e: "e = (d, r)" by (cases e)
    from es that obtain i where i: "watch s (event_fd d) = Some (i, d)" "asked_for i r"
      by (auto simp: epoll_reports_def list_all_iff e)
    with wo(1) have "interest_of d = Some i" by (simp add: watch_ok_def)
    from epoll_events_one [OF i(2) this] i(1) show ?thesis by (auto simp: e)
  qed
  have all: "evs = concat (map epoll_events es)" using evs by (simp add: epoll_block_def)
  have "map event_fd (concat (map epoll_events fs)) = map (event_fd \<circ> fst) fs" if "set fs \<subseteq> set es" for fs
    using that
  proof (induction fs)
    case (Cons e fs)
    then obtain t where "epoll_events e = [mk_event (event_fd (fst e)) t]" using one [of e] by auto
    with Cons show ?case by (simp add: event_fd_mk)
  qed simp
  then have "distinct (map event_fd evs)" using es by (simp add: all epoll_reports_def)
  moreover have "\<exists>i d t w. watch s (event_fd ev) = Some (i, d) \<and> event_type ev = Some t \<and>
      event_type d = Some w \<and> suits w t" if ev: "ev \<in> set evs" for ev
  proof -
    from ev obtain e where e: "e \<in> set es" "ev \<in> set (epoll_events e)" by (auto simp: all)
    from one [OF e(1)] obtain t i w where t: "epoll_events e = [mk_event (event_fd (fst e)) t]"
        "watch s (event_fd (fst e)) = Some (i, fst e)" "event_type (fst e) = Some w" "suits w t"
      by blast
    with e(2) have "ev = mk_event (event_fd (fst e)) t" by simp
    with t(2-4) show ?thesis by (simp add: event_fd_mk event_type_mk)
  qed
  ultimately have "batch_ok (s\<lparr>batch := evs\<rparr>)"
    using assms(2) by (simp add: batch_ok_def idle_def)
  then show ?thesis
    using wo by (simp add: loop_inv_def watch_ok_def window_def ledger_ok_def answered_def)
qed

lemma delete_step_is:
  assumes "loop_inv s" and "batch s = ev # rest"
  shows "delete_step strerror ev rest s = s\<lparr>ctx := (ctx s)\<lparr>listener := (listener (ctx s))
      \<lparr>watched := (watch s)(event_fd ev := None)\<rparr>\<rparr>, batch := rest, deleted := Some ev\<rparr>"
proof -
  obtain e where "watch s (event_fd ev) = Some e"
    using assms by (auto simp: loop_inv_def batch_ok_def)
  then show ?thesis by (simp add: delete_step_def epoll_del_event_def epoll_ctl_del_def)
qed

lemma delete_keeps:
  assumes inv: "loop_inv s" and "deleted s = None" and b: "batch s = ev # rest"
  shows "loop_inv (delete_step strerror ev rest s)" (is "loop_inv ?t")
proof -
  have wo: "watch_ok s" "batch_ok s" "ledger_ok s" "loop_exn s = None"
    using inv by (simp_all add: loop_inv_def)
  have sel: "watch ?t = (watch s)(event_fd ev := None)" "stored ?t = stored s" "window ?t = {event_fd ev}"
    "added ?t = added s" "batch ?t = rest" "deleted ?t = Some ev" "loop_exn ?t = None"
    "started ?t = started s" "returned ?t = returned s" "running ?t = running s"
    using wo(4) by (simp_all add: delete_step_is [OF inv b] window_def)
  have win: "window s = {}" using assms(2) by (simp add: window_def)
  obtain i d t w where ev: "watch s (event_fd ev) = Some (i, d)" "event_type ev = Some t"
      "event_type d = Some w" "suits w t"
    using wo(2) b by (auto simp: batch_ok_def)
  have "\<exists>h w. stored s (event_fd ev) = Some h \<and> event_type d = Some w \<and> (event_fd ev, h, w) \<in> set (added s)"
    using wo(1) ev(1) unfolding watch_ok_def by blast
  with ev(3) obtain h where h: "stored s (event_fd ev) = Some h" "(event_fd ev, h, w) \<in> set (added s)"
    by auto
  have "event_fd ev \<in> dom (watch s)" using ev(1) by blast
  then have "watch_ok ?t"
    using wo(1) unfolding watch_ok_def sel win by (auto split: if_splits)
  moreover have "answered ?t (event_fd ev) h t" using h(2) ev(4) by (auto simp: answered_def sel)
  then have "batch_ok ?t"
    using wo(2) b h(1) ev(2) unfolding batch_ok_def sel by (auto simp: image_iff)
  moreover have "ledger_ok ?t" using wo(3) unfolding ledger_ok_def sel answered_def by simp
  ultimately show ?thesis by (simp add: loop_inv_def sel)
qed

lemma fetch_keeps:
  assumes inv: "loop_inv s" and d: "deleted s = Some ev" and t: "event_type ev = Some t"
  shows "loop_inv (fetch_step ev t s)" and "loop_exn (fetch_step ev t s) = None"
    and "\<exists>h. started (fetch_step ev t s) = started s @ [(event_fd ev, h, t)] \<and> stored s (event_fd ev) = Some h"
proof -
  let ?t = "fetch_step ev t s"
  have wo: "watch_ok s" "batch_ok s" "ledger_ok s" "loop_exn s = None"
    using inv by (simp_all add: loop_inv_def)
  from wo(2) d t obtain h where h: "stored s (event_fd ev) = Some h" "answered s (event_fd ev) h t"
    by (auto simp: batch_ok_def)
  have step: "?t = s\<lparr>ctx := (ctx s)\<lparr>handlers := (stored s)(event_fd ev := None)\<rparr>, deleted := None,
      running := running s @ [(event_fd ev, h, t)], started := started s @ [(event_fd ev, h, t)]\<rparr>"
    by (simp add: fetch_step_def get_handler_def h(1))
  have sel: "watch ?t = watch s" "stored ?t = (stored s)(event_fd ev := None)" "window ?t = {}"
    "added ?t = added s" "batch ?t = batch s" "deleted ?t = None" "loop_exn ?t = None"
    "started ?t = started s @ [(event_fd ev, h, t)]" "returned ?t = returned s"
    "running ?t = running s @ [(event_fd ev, h, t)]"
    using wo(4) by (simp_all add: step window_def)
  have win: "window s = {event_fd ev}" using d by (simp add: window_def)
  have out: "event_fd ev \<notin> dom (watch s)" using wo(1) by (auto simp: watch_ok_def win)
  have "dom (stored s) - {event_fd ev} = dom (watch s)" using wo(1) out by (auto simp: watch_ok_def win)
  then have "watch_ok ?t"
    using wo(1) out unfolding watch_ok_def sel by (auto simp: domIff)
  moreover have "batch_ok ?t" using wo(2) unfolding batch_ok_def sel by simp
  moreover have "finite (dom (stored s))" using wo(1) by (simp add: watch_ok_def)
  from registered_remove [OF this h(1)] have "ledger_ok ?t"
    using wo(3) h(2) unfolding ledger_ok_def sel by (auto simp: owner_def answered_def sel)
  ultimately show "loop_inv ?t" by (simp add: loop_inv_def sel)
  show "loop_exn ?t = None" by (rule sel)
  show "\<exists>h. started ?t = started s @ [(event_fd ev, h, t)] \<and> stored s (event_fd ev) = Some h"
    using sel h(1) by blast
qed

lemma run_keeps:
  assumes inv: "loop_inv s" and i: "i < length (running s)"
  shows "loop_inv (s\<lparr>running := take i (running s) @ drop (Suc i) (running s),
    returned := returned s @ [running s ! i]\<rparr>)"
proof -
  have "mset (running s) = add_mset (running s ! i) (mset (take i (running s) @ drop (Suc i) (running s)))"
    using id_take_nth_drop [OF i] by (metis mset_append mset.simps(2) union_mset_add_mset_right)
  with inv show ?thesis
    by (simp add: loop_inv_def watch_ok_def batch_ok_def ledger_ok_def window_def answered_def)
qed

lemma loop_step_inv:
  assumes "loop_inv s" and "orderly s a" and "loop_step strerror s a t"
  shows "loop_inv t"
  using assms(3)
proof (cases rule: loop_step.cases)
  case step_add
  with assms(1,2) show ?thesis by (simp add: add_keeps)
next
  case step_refused
  with assms(1) show ?thesis by simp
next
  case step_report
  with assms(1) show ?thesis by (simp add: report_keeps)
next
  case step_delete
  with assms(1) show ?thesis by (simp add: delete_keeps)
next
  case step_fetch
  with assms(1) show ?thesis by (simp add: fetch_keeps(1))
next
  case step_run
  with assms(1) show ?thesis by (simp add: run_keeps)
qed

lemma loop_init_inv: "watched l = (\<lambda>_. None) \<Longrightarrow> loop_inv (loop_init l)"
  by (simp add: loop_init_def loop_inv_def watch_ok_def batch_ok_def ledger_ok_def window_def registered_def)

lemma loop_run_inv: "loop_run strerror s as t \<Longrightarrow> loop_inv s \<Longrightarrow> loop_inv t"
  by (induction rule: loop_run.induct) (auto intro: loop_step_inv)

lemma reachable_inv:
  "epoll_create strerror answer = Returns l \<Longrightarrow> loop_run strerror (loop_init l) as s \<Longrightarrow> loop_inv s"
  by (rule loop_run_inv, assumption, rule loop_init_inv) (auto simp: epoll_create_def split: sys.splits)

subsection \<open>A round ends\<close>

text \<open>The steps of the loop's and the executor's threads, and how many of them are left.\<close>

definition internal :: "'h loop_action \<Rightarrow> bool" where
  "internal a \<longleftrightarrow> (case a of Delete \<Rightarrow> True | Fetch \<Rightarrow> True | Run i \<Rightarrow> True | _ \<Rightarrow> False)"

definition steps_left :: "'h loop \<Rightarrow> nat" where
  "steps_left s = 3 * length (batch s) + (if deleted s = None then 0 else 2) + length (running s)"

lemma internal_simps: "internal Delete" "internal Fetch" "internal (Run i)"
  by (simp_all add: internal_def)

lemma internal_orderly: "internal a \<Longrightarrow> orderly s a"
  by (simp add: internal_def orderly_def split: loop_action.splits)

lemma internal_decreases:
  assumes "loop_inv s" and "internal a" and "loop_step strerror s a t"
  shows "steps_left t < steps_left s"
  using assms(3)
proof (cases rule: loop_step.cases)
  case (step_delete ev rest)
  then show ?thesis using assms(1) by (simp add: delete_step_is steps_left_def)
next
  case (step_fetch ev t')
  with assms(1) obtain h where "stored s (event_fd ev) = Some h"
    using fetch_keeps(3) by blast
  with step_fetch show ?thesis by (simp add: fetch_step_def get_handler_def steps_left_def)
next
  case (step_run i)
  then show ?thesis by (simp add: steps_left_def)
qed (use assms(2) in \<open>simp_all add: internal_def\<close>)

lemma internal_possible:
  assumes "loop_inv s" and "\<not> idle s"
  shows "\<exists>a t. internal a \<and> loop_step strerror s a t"
proof -
  have ok: "loop_exn s = None" using assms(1) by (simp add: loop_inv_def)
  consider "running s \<noteq> []" | ev where "deleted s = Some ev" | "deleted s = None" "batch s \<noteq> []"
    using assms(2) by (cases "deleted s") (auto simp: idle_def)
  then show ?thesis
  proof cases
    case 1
    then have "0 < length (running s)" by simp
    from step_run [OF this] internal_simps(3) show ?thesis by blast
  next
    case 2
    with assms(1) obtain t where "event_type ev = Some t" by (auto simp: loop_inv_def batch_ok_def)
    from step_fetch [OF ok 2 this] internal_simps(2) show ?thesis by blast
  next
    case 3
    then obtain ev rest where "batch s = ev # rest" by (cases "batch s") auto
    from step_delete [OF ok 3(1) this] internal_simps(1) show ?thesis by blast
  qed
qed

subsection \<open>A sample run\<close>

text \<open>One handler is registered for reading descriptor 3, reported, deleted, handed over and run.\<close>

definition sample_epoll :: epoll where
  "sample_epoll = \<lparr>epfd = 5, watched = (\<lambda>_. None)\<rparr>"

definition sample_event :: "64 word" where
  "sample_event = mk_event 3 TO_READ"

definition readable :: readiness where
  "readable = \<lparr>r_in = True, r_out = False, r_hup = False, r_err = False\<rparr>"

definition sample_added :: "string loop" where
  "sample_added = \<lparr>ctx = \<lparr>listener = \<lparr>epfd = 5, watched = [3 \<mapsto> (Poll_in, sample_event)]\<rparr>,
       handlers = [3 \<mapsto> ''h'']\<rparr>, batch = [], deleted = None, running = [], loop_exn = None,
     added = [(3, ''h'', TO_READ)], started = [], returned = []\<rparr>"

definition sample_window :: "string loop" where
  "sample_window = sample_added\<lparr>ctx := \<lparr>listener = sample_epoll, handlers = [3 \<mapsto> ''h'']\<rparr>,
     deleted := Some sample_event\<rparr>"

definition sample_done :: "string loop" where
  "sample_done = \<lparr>ctx = \<lparr>listener = sample_epoll, handlers = (\<lambda>_. None)\<rparr>, batch = [], deleted = None,
     running = [], loop_exn = None, added = [(3, ''h'', TO_READ)], started = [(3, ''h'', TO_READ)],
     returned = [(3, ''h'', TO_READ)]\<rparr>"

lemmas sample_loop_simps = sample_epoll_def sample_event_def readable_def sample_added_def
  sample_window_def sample_done_def event_fd_mk event_type_mk

lemma sample_step_add:
  "loop_step strerror (loop_init sample_epoll) (Add sample_event ''h'' (Sys_ok ())) sample_added"
proof -
  have "add_handler_for_event strerror (Sys_ok ()) sample_event ''h'' (ctx (loop_init sample_epoll :: string loop)) =
      Returns (ctx sample_added)"
    by (simp add: add_handler_Returns loop_init_def sample_loop_simps interest_of_def)
  from step_add [OF this, of TO_READ] show ?thesis
    by (simp add: loop_init_def sample_loop_simps)
qed

lemma sample_step_report:
  "loop_step strerror sample_added (Report [(sample_event, readable)]) (sample_added\<lparr>batch := [sample_event]\<rparr>)"
  by (rule step_report)
    (simp_all add: sample_loop_simps idle_def epoll_reports_def EPOLL_SIZE_def asked_for_def epoll_block_def
      epoll_events_def)

lemma sample_step_delete:
  "loop_step strerror (sample_added\<lparr>batch := [sample_event]\<rparr>) Delete sample_window"
proof -
  have "loop_step strerror (sample_added\<lparr>batch := [sample_event]\<rparr>) Delete
      (delete_step strerror sample_event [] (sample_added\<lparr>batch := [sample_event]\<rparr>))"
    by (rule step_delete) (simp_all add: sample_added_def)
  then show ?thesis
    by (simp add: delete_step_def epoll_del_event_def epoll_ctl_del_def sample_loop_simps)
qed

lemma sample_run_window:
  "loop_run strerror (loop_init sample_epoll) [Add sample_event ''h'' (Sys_ok ()),
     Report [(sample_event, readable)], Delete] sample_window"
  using run_more [OF run_more [OF run_more [OF run_start _ sample_step_add] _ sample_step_report] _
      sample_step_delete]
  by (simp add: orderly_def loop_init_def)

lemma sample_run_done:
  "loop_run strerror (loop_init sample_epoll) [Add sample_event ''h'' (Sys_ok ()),
     Report [(sample_event, readable)], Delete, Fetch, Run 0] sample_done"
proof -
  have "loop_step strerror sample_window Fetch (fetch_step sample_event TO_READ sample_window)"
    by (rule step_fetch) (simp_all add: sample_loop_simps)
  moreover have fetched: "fetch_step sample_event TO_READ sample_window =
      sample_done\<lparr>running := [(3, ''h'', TO_READ)], returned := []\<rparr>"
    by (simp add: fetch_step_def get_handler_def sample_loop_simps)
  moreover have "loop_step strerror (sample_done\<lparr>running := [(3, ''h'', TO_READ)], returned := []\<rparr>) (Run 0) sample_done"
    using step_run [of 0 "sample_done\<lparr>running := [(3, ''h'', TO_READ)], returned := []\<rparr>" strerror]
    by (simp add: sample_done_def)
  ultimately show ?thesis
    using run_more [OF run_more [OF sample_run_window]] by (simp add: orderly_def)
qed

lemma sample_created: "epoll_create strerror (Sys_ok 5) = Returns sample_epoll"
  by (simp add: epoll_create_def sample_epoll_def)

subsection \<open>Properties\<close>





text \<open>
  Property C39: registering twice. While a descriptor has a handler, registering another one for it is
  refused with an exception and changes nothing, whatever the event types (reading and writing on one
  socket at the same time is not possible). Between the two steps of the loop for an event of the
  descriptor it is accepted: then the new handler is called for the old event, the old one is
  lost, and the next event of the descriptor ends the loop with an exception.
\<close>

theorem double_registration:
  assumes "epoll_create strerror created = Returns l" and "loop_run strerror (loop_init l) as s"
    and "interest_of ev = Some i"
  shows "(watch s (event_fd ev) \<noteq> None \<longrightarrow>
      add_handler_for_event strerror answer ev h (ctx s) =
        Throws (Logic_error (''Epoll Add event: '' @ strerror EEXIST))) \<and>
    (deleted s = Some old \<and> event_fd old = event_fd ev \<longrightarrow>
      (\<exists>c h' t. stored s (event_fd ev) = Some h' \<and> event_type old = Some t \<and>
        add_handler_for_event strerror (Sys_ok ()) ev h (ctx s) = Returns c \<and>
        (let u = fetch_step old t (s\<lparr>ctx := c\<rparr>) in
           running u = running s @ [(event_fd ev, h, t)] \<and> stored u (event_fd ev) = None \<and>
           (\<exists>d. watch u (event_fd ev) = Some (i, d)) \<and>
           loop_exn (fetch_step ev t (delete_step strerror ev [] u)) =
             Some (Logic_error ''CallbackStorage: Event must be here''))))"
proof (intro conjI impI)
  assume "watch s (event_fd ev) \<noteq> None"
  then show "add_handler_for_event strerror answer ev h (ctx s) =
      Throws (Logic_error (''Epoll Add event: '' @ strerror EEXIST))"
    using assms(3) by (auto simp: add_handler_for_event_def epoll_add_event_def epoll_ctl_add_def)
next
  assume old: "deleted s = Some old \<and> event_fd old = event_fd ev"
  then obtain h' t where h': "stored s (event_fd ev) = Some h'" "event_type old = Some t"
    using reachable_inv [OF assms(1,2)] by (auto simp: loop_inv_def batch_ok_def)
  have "event_fd ev \<notin> dom (watch s)"
    using reachable_inv [OF assms(1,2)] old by (auto simp: loop_inv_def watch_ok_def window_def)
  then have free: "watch s (event_fd ev) = None" by (meson domIff)
  show "\<exists>c h' t. stored s (event_fd ev) = Some h' \<and> event_type old = Some t \<and>
        add_handler_for_event strerror (Sys_ok ()) ev h (ctx s) = Returns c \<and>
        (let u = fetch_step old t (s\<lparr>ctx := c\<rparr>) in
           running u = running s @ [(event_fd ev, h, t)] \<and> stored u (event_fd ev) = None \<and>
           (\<exists>d. watch u (event_fd ev) = Some (i, d)) \<and>
           loop_exn (fetch_step ev t (delete_step strerror ev [] u)) =
             Some (Logic_error ''CallbackStorage: Event must be here''))"
    using old h' free assms(3)
    by (simp add: add_handler_Returns fetch_step_def get_handler_def delete_step_def epoll_del_event_def
        epoll_ctl_del_def)
qed

theorem double_registration_witness:
  "\<exists>c. add_handler_for_event (\<lambda>_. []) (Sys_ok ()) sample_event ''g'' (ctx sample_window) = Returns c \<and>
     running (fetch_step sample_event TO_READ (sample_window\<lparr>ctx := c\<rparr>)) = [(3, ''g'', TO_READ)]"
proof -
  have "interest_of sample_event = Some Poll_in" by (simp add: interest_of_def sample_loop_simps)
  from double_registration [OF sample_created sample_run_window this, where old = sample_event and h = "''g''"]
  show ?thesis by (auto simp: sample_loop_simps Let_def)
qed

end
