(* ===== verification/Coroutine.thy ===== *)
theory Coroutine
  imports Future_State
begin

text \<open>
  \<open>coro/stackless.hpp\<close>: a coroutine whose return type is \<open>Future\<close>. The body is its tree of
  awaits; \<open>CoroutinePromise\<close> is the state of its result, \<open>FutureAwaiter\<close> the two steps
  \<open>await_ready\<close> and \<open>await_suspend\<close>, between which other threads may complete the awaited future
  or drop its promise. Each \<open>co_await\<close> is a full expression, so its awaiter is destroyed when it
  has been resumed.
\<close>

section \<open>Bodies and what they compute\<close>

datatype 'v coro = Return 'v | Raise exn | Await nat "'v \<Rightarrow> 'v coro"

text \<open>The specification: the body as a function of the values the futures have by now.\<close>

datatype 'v coro_end = Delivered 'v | Lost exn | Blocked nat

primrec coro_result :: "(nat \<Rightarrow> 'v option) \<Rightarrow> 'v coro \<Rightarrow> 'v coro_end" where
  "coro_result env (Return v) = Delivered v"
| "coro_result env (Raise e) = Lost e"
| "coro_result env (Await i k) =
     (case env i of None \<Rightarrow> Blocked i | Some v \<Rightarrow> coro_result env (k v))"

text \<open>A body awaits futures of \<open>fs\<close>, each at most once: \<open>co_await\<close> moves the future.\<close>

primrec awaits_within :: "nat set \<Rightarrow> 'v coro \<Rightarrow> bool" where
  "awaits_within fs (Return v) = True"
| "awaits_within fs (Raise e) = True"
| "awaits_within fs (Await i k) = (i \<in> fs \<and> (\<forall>v. awaits_within (fs - {i}) (k v)))"

section \<open>The coroutine and its futures\<close>

text \<open>
  Where the body is: executing, between an \<open>await_ready\<close> that returned false and
  \<open>await_suspend\<close>, suspended, or gone. \<open>stack\<close> are the operations on futures inside which the
  body was resumed, the innermost first; each holds the mutex of its future.
\<close>

datatype 'v point = Running "'v coro" | Missed nat "'v \<Rightarrow> 'v coro"
  | Suspended nat "'v \<Rightarrow> 'v coro" | Finished

datatype holder = In_Set nat | In_Suspend nat

fun held_by :: "holder \<Rightarrow> nat" where
  "held_by (In_Set i) = i"
| "held_by (In_Suspend i) = i"

record ('v, 'c) coro_world =
  awaited :: "nat \<Rightarrow> ('v, 'v \<Rightarrow> 'v coro) state"
  owned :: "nat set"
  promises :: "nat set"
  contract :: "('v, 'c) state"
  calls :: "('c \<times> 'v) list"
  frame :: "'v point"
  stack :: "holder list"

text \<open>\<open>get_return_object\<close>, and \<open>initial_suspend\<close>: the body starts at once.\<close>

definition coro_start :: "nat set \<Rightarrow> 'v coro \<Rightarrow> ('v, 'c) coro_world" where
  "coro_start fs body =
     \<lparr>awaited = (\<lambda>_. state_init), owned = fs, promises = fs, contract = state_init, calls = [],
      frame = Running body, stack = []\<rparr>"

definition return_value ::
  "('v \<Rightarrow> 'v) \<Rightarrow> 'v \<Rightarrow> ('v, 'c) coro_world \<Rightarrow> ('v, 'c) coro_world outcome" where
  "return_value residue v w =
     bind_outcome (state_step residue (Set_Value v) (contract w, calls w)) (\<lambda>(s, ls).
       Returns (w\<lparr>contract := s, calls := ls\<rparr>))"

definition unhandled_exception :: "exn \<Rightarrow> ('v, 'c) coro_world \<Rightarrow> ('v, 'c) coro_world outcome" where
  "unhandled_exception e w = Returns w"

text \<open>
  The body suspends or ends, and the operations that resumed it return. \<open>set_value\<close> clears its
  callback. \<open>set_callback\<close> unlocks the mutex of a state whose future went with the awaiter: if
  no promise is left either, the state is gone.
\<close>

fun unwind :: "holder list \<Rightarrow> ('v, 'c) coro_world \<Rightarrow> ('v, 'c) coro_world outcome" where
  "unwind [] w = Returns (w\<lparr>stack := []\<rparr>)"
| "unwind (In_Set i # hs) w =
     unwind hs (w\<lparr>awaited := (awaited w)(i := after_call (awaited w i))\<rparr>)"
| "unwind (In_Suspend i # hs) w = (if i \<in> promises w then unwind hs w else Undefined)"

definition leave :: "'v point \<Rightarrow> ('v, 'c) coro_world \<Rightarrow> ('v, 'c) coro_world outcome" where
  "leave p w = unwind (stack w) (w\<lparr>frame := p\<rparr>)"

definition await_ready ::
  "('v \<Rightarrow> 'v) \<Rightarrow> nat \<Rightarrow> ('v \<Rightarrow> 'v coro) \<Rightarrow> ('v, 'c) coro_world \<Rightarrow> ('v, 'c) coro_world outcome" where
  "await_ready residue i k w =
     (if i \<notin> owned w then Undefined
      else let (r, s) = try_get residue (awaited w i);
               w = w\<lparr>awaited := (awaited w)(i := s), owned := owned w - {i}\<rparr>
           in Returns (w\<lparr>frame := (case r of Some v \<Rightarrow> Running (k v) | None \<Rightarrow> Missed i k)\<rparr>))"

text \<open>The callback of \<open>await_suspend\<close>: \<open>h.resume()\<close>, and \<open>await_resume\<close> gives the value.\<close>

definition resume ::
  "holder \<Rightarrow> ('v \<Rightarrow> 'v coro) \<Rightarrow> 'v \<Rightarrow> ('v, 'c) coro_world \<Rightarrow> ('v, 'c) coro_world outcome" where
  "resume h k v w = Returns (w\<lparr>frame := Running (k v), stack := h # stack w\<rparr>)"

definition await_suspend ::
  "('v \<Rightarrow> 'v) \<Rightarrow> nat \<Rightarrow> ('v \<Rightarrow> 'v coro) \<Rightarrow> ('v, 'c) coro_world \<Rightarrow> ('v, 'c) coro_world outcome" where
  "await_suspend residue i k w =
     bind_outcome (set_callback residue (Some k) (awaited w i)) (\<lambda>(s, t).
       let w = w\<lparr>awaited := (awaited w)(i := s)\<rparr> in
       case t of None \<Rightarrow> leave (Suspended i k) w
       | Some t \<Rightarrow> call_task (resume (In_Suspend i)) t w)"

section \<open>Steps\<close>

text \<open>
  The thread that executes the body goes on, the promise of a future is set or destroyed, a client
  registers its callback with the result. \<open>None\<close>: the event cannot happen now.
\<close>

datatype ('v, 'c) coro_event = Advance | Complete nat 'v | Drop nat | Register 'c

fun advance :: "('v \<Rightarrow> 'v) \<Rightarrow> 'v point \<Rightarrow> ('v, 'c) coro_world \<Rightarrow> ('v, 'c) coro_world outcome option" where
  "advance residue (Running (Return v)) w =
     Some (bind_outcome (return_value residue v w) (leave Finished))"
| "advance residue (Running (Raise e)) w =
     Some (bind_outcome (unhandled_exception e w) (leave Finished))"
| "advance residue (Running (Await i k)) w = Some (await_ready residue i k w)"
| "advance residue (Missed i k) w = Some (await_suspend residue i k w)"
| "advance residue (Suspended i k) w = None"
| "advance residue Finished w = None"

fun coro_step ::
  "('v \<Rightarrow> 'v) \<Rightarrow> ('v, 'c) coro_event \<Rightarrow> ('v, 'c) coro_world \<Rightarrow> ('v, 'c) coro_world outcome option"
where
  "coro_step residue Advance w = advance residue (frame w) w"
| "coro_step residue (Complete i v) w =
     (if i \<notin> promises w \<or> i \<in> held_by ` set (stack w) then None
      else Some (bind_outcome (set_value residue v (awaited w i)) (\<lambda>(s, t, _).
             let w = w\<lparr>awaited := (awaited w)(i := s)\<rparr> in
             case t of None \<Rightarrow> Returns w | Some t \<Rightarrow> call_task (resume (In_Set i)) t w)))"
| "coro_step residue (Drop i) w =
     (if i \<notin> promises w \<or> In_Set i \<in> set (stack w) then None
      else Some (Returns (w\<lparr>promises := promises w - {i}\<rparr>)))"
| "coro_step residue (Register c) w =
     Some (bind_outcome (state_step residue (On_Complete c) (contract w, calls w)) (\<lambda>(s, ls).
             Returns (w\<lparr>contract := s, calls := ls\<rparr>)))"

text \<open>
  The client keeps to the contract: a promise is set once, one callback is registered, and the
  promise of a future lives at least until an \<open>await_suspend\<close> on it has returned.
\<close>

fun allowed :: "(nat \<Rightarrow> 'v option) \<Rightarrow> 'c option \<Rightarrow> ('v, 'c) coro_event \<Rightarrow> ('v, 'c) coro_world \<Rightarrow> bool" where
  "allowed env cl Advance w = True"
| "allowed env cl (Complete i v) w = (env i = None)"
| "allowed env cl (Drop i) w =
     (In_Suspend i \<notin> set (stack w) \<and> (case frame w of Missed j k \<Rightarrow> i \<noteq> j | _ \<Rightarrow> True))"
| "allowed env cl (Register c) w = (cl = None)"

fun values_after :: "('v, 'c) coro_event \<Rightarrow> (nat \<Rightarrow> 'v option) \<Rightarrow> nat \<Rightarrow> 'v option" where
  "values_after (Complete i v) env = env(i \<mapsto> v)"
| "values_after e env = env"

fun client_after :: "('v, 'c) coro_event \<Rightarrow> 'c option \<Rightarrow> 'c option" where
  "client_after (Register c) cl = Some c"
| "client_after e cl = cl"

inductive coro_reach ::
  "('v \<Rightarrow> 'v) \<Rightarrow> nat set \<Rightarrow> 'v coro \<Rightarrow> (nat \<Rightarrow> 'v option) \<Rightarrow> 'c option \<Rightarrow> ('v, 'c) coro_world \<Rightarrow> bool"
  for residue fs body
where
  start: "coro_reach residue fs body (\<lambda>_. None) None (coro_start fs body)"
| step: "coro_reach residue fs body env cl w \<Longrightarrow> allowed env cl e w \<Longrightarrow>
    coro_step residue e w = Some (Returns w') \<Longrightarrow>
    coro_reach residue fs body (values_after e env) (client_after e cl) w'"

text \<open>A given sequence of events, each of them allowed where it happens.\<close>

fun coro_run ::
  "('v \<Rightarrow> 'v) \<Rightarrow> ('v, 'c) coro_event list \<Rightarrow> (nat \<Rightarrow> 'v option) \<Rightarrow> 'c option \<Rightarrow> ('v, 'c) coro_world \<Rightarrow>
     ('v, 'c) coro_world outcome option" where
  "coro_run residue [] env cl w = Some (Returns w)"
| "coro_run residue (e # es) env cl w =
     (case coro_step residue e w of
        Some (Returns w') \<Rightarrow> coro_run residue es (values_after e env) (client_after e cl) w'
      | r \<Rightarrow> r)"

fun all_allowed ::
  "('v \<Rightarrow> 'v) \<Rightarrow> ('v, 'c) coro_event list \<Rightarrow> (nat \<Rightarrow> 'v option) \<Rightarrow> 'c option \<Rightarrow> ('v, 'c) coro_world \<Rightarrow> bool"
where
  "all_allowed residue [] env cl w = True"
| "all_allowed residue (e # es) env cl w = (allowed env cl e w \<and>
     (case coro_step residue e w of
        Some (Returns w') \<Rightarrow> all_allowed residue es (values_after e env) (client_after e cl) w'
      | _ \<Rightarrow> True))"

lemma coro_run_reaches:
  "coro_reach residue fs body env cl w \<Longrightarrow> all_allowed residue es env cl w \<Longrightarrow>
     coro_run residue es env cl w = Some (Returns w') \<Longrightarrow>
     coro_reach residue fs body (fold values_after es env) (fold client_after es cl) w'"
proof (induction es arbitrary: env cl w)
  case Nil
  then show ?case by simp
next
  case (Cons e es)
  then obtain w1 where w1: "coro_step residue e w = Some (Returns w1)"
    by (auto split: option.splits outcome.splits)
  show ?case using Cons.IH [OF step] Cons.prems w1 by auto
qed

section \<open>The invariant\<close>

text \<open>Whatever the open futures get, the body computes what is left of it.\<close>

definition reduces :: "(nat \<Rightarrow> 'v option) \<Rightarrow> 'v coro \<Rightarrow> 'v coro \<Rightarrow> bool" where
  "reduces env body c = (\<forall>env'. env \<subseteq>\<^sub>m env' \<longrightarrow> coro_result env' body = coro_result env' c)"

lemma reduces_refl: "reduces env c c"
  by (simp add: reduces_def)

lemma reduces_extend: "reduces env body c \<Longrightarrow> env i = None \<Longrightarrow> reduces (env(i \<mapsto> v)) body c"
  by (auto simp: reduces_def map_le_def dom_def split: if_splits)

lemma reduces_await: "reduces env body (Await i k) \<Longrightarrow> env i = Some v \<Longrightarrow> reduces env body (k v)"
  by (auto simp: reduces_def map_le_def dom_def)

lemma reduces_now: "reduces env body c \<Longrightarrow> coro_result env body = coro_result env c"
  by (simp add: reduces_def)

text \<open>The state of the result while the body is under way, and at its end.\<close>

definition pending :: "'c option \<Rightarrow> ('v, 'c) coro_world \<Rightarrow> bool" where
  "pending cl w = (slot (contract w) = None \<and> callback (contract w) = map_option Some cl \<and>
     calls w = [])"

definition delivered :: "'v \<Rightarrow> 'c option \<Rightarrow> ('v, 'c) coro_world \<Rightarrow> bool" where
  "delivered v cl w = (case cl of
     None \<Rightarrow> slot (contract w) = Some v \<and> callback (contract w) = None \<and> calls w = []
   | Some c \<Rightarrow> slot (contract w) \<noteq> None \<and> calls w = [(c, v)])"

definition untouched :: "(nat \<Rightarrow> 'v option) \<Rightarrow> nat \<Rightarrow> ('v, 'c) coro_world \<Rightarrow> bool" where
  "untouched env i w = (slot (awaited w i) = env i \<and> callback (awaited w i) = None)"

definition holders_ok :: "(nat \<Rightarrow> 'v option) \<Rightarrow> ('v, 'c) coro_world \<Rightarrow> bool" where
  "holders_ok env w = (held_by ` set (stack w) \<inter> owned w = {} \<and>
     (\<forall>h\<in>set (stack w). env (held_by h) \<noteq> None) \<and>
     (\<forall>i. In_Suspend i \<in> set (stack w) \<longrightarrow> i \<in> promises w))"

text \<open>Apart from the future the body waits for, every future it has taken is complete.\<close>

definition settled :: "(nat \<Rightarrow> 'v option) \<Rightarrow> nat set \<Rightarrow> ('v, 'c) coro_world \<Rightarrow> bool" where
  "settled env js w = (\<forall>j\<in>promises w. j \<in> owned w \<or> j \<in> js \<or> env j \<noteq> None)"

definition point_inv ::
  "(nat \<Rightarrow> 'v option) \<Rightarrow> 'v coro \<Rightarrow> 'c option \<Rightarrow> 'v point \<Rightarrow> ('v, 'c) coro_world \<Rightarrow> bool" where
  "point_inv env body cl p w = (case p of
     Running c \<Rightarrow> reduces env body c \<and> awaits_within (owned w) c \<and> pending cl w \<and> settled env {} w
   | Missed i k \<Rightarrow> reduces env body (Await i k) \<and> (\<forall>v. awaits_within (owned w) (k v)) \<and>
       pending cl w \<and> settled env {i} w \<and> untouched env i w \<and> i \<notin> owned w \<and> i \<notin> held_by ` set (stack w) \<and>
       (env i \<noteq> None \<longrightarrow> i \<in> promises w)
   | Suspended i k \<Rightarrow> reduces env body (Await i k) \<and> (\<forall>v. awaits_within (owned w) (k v)) \<and>
       pending cl w \<and> settled env {i} w \<and> i \<notin> owned w \<and> stack w = [] \<and> env i = None \<and>
       slot (awaited w i) = None \<and> callback (awaited w i) = Some (Some k)
   | Finished \<Rightarrow> stack w = [] \<and> settled env {} w \<and>
       ((\<exists>v. reduces env body (Return v) \<and> delivered v cl w) \<or>
        (\<exists>e. reduces env body (Raise e) \<and> pending cl w)))"

definition coro_inv ::
  "(nat \<Rightarrow> 'v option) \<Rightarrow> 'v coro \<Rightarrow> 'c option \<Rightarrow> ('v, 'c) coro_world \<Rightarrow> bool" where
  "coro_inv env body cl w = ((\<forall>i\<in>owned w. untouched env i w) \<and> holders_ok env w \<and>
     point_inv env body cl (frame w) w)"

lemmas coro_inv_defs = coro_inv_def holders_ok_def point_inv_def untouched_def pending_def settled_def

lemma coro_inv_start: "awaits_within fs body \<Longrightarrow> coro_inv (\<lambda>_. None) body None (coro_start fs body)"
  by (simp add: coro_inv_defs coro_start_def state_init_def reduces_refl)

text \<open>The operations that resumed the body return.\<close>

lemma unwind_returns:
  "\<forall>i. In_Suspend i \<in> set hs \<longrightarrow> i \<in> promises w \<Longrightarrow>
     \<exists>aw. unwind hs w = Returns (w\<lparr>awaited := aw, stack := []\<rparr>) \<and>
       (\<forall>i. i \<notin> held_by ` set hs \<longrightarrow> aw i = awaited w i)"
proof (induction hs w rule: unwind.induct)
  case (1 w)
  then show ?case by (auto intro: exI [of _ "awaited w"])
next
  case (2 i hs w)
  then obtain aw where "unwind (In_Set i # hs) w = Returns (w\<lparr>awaited := aw, stack := []\<rparr>)"
    "\<forall>j. j \<notin> held_by ` set hs \<longrightarrow> aw j = ((awaited w)(i := after_call (awaited w i))) j"
    by auto
  then show ?case by (intro exI [of _ aw]) auto
next
  case (3 i hs w)
  then show ?case by auto
qed

lemma leave_inv:
  assumes "\<forall>i\<in>owned w. untouched env i w" "holders_ok env w"
    and "\<And>aw. \<forall>i. i \<notin> held_by ` set (stack w) \<longrightarrow> aw i = awaited w i \<Longrightarrow>
      point_inv env body cl p (w\<lparr>awaited := aw, frame := p, stack := []\<rparr>)"
  shows "\<exists>w'. leave p w = Returns w' \<and> coro_inv env body cl w'"
proof -
  have "\<forall>i. In_Suspend i \<in> set (stack w) \<longrightarrow> i \<in> promises (w\<lparr>frame := p\<rparr>)"
    using assms(2) by (simp add: holders_ok_def)
  from unwind_returns [OF this] obtain aw where
      u: "unwind (stack w) (w\<lparr>frame := p\<rparr>) = Returns (w\<lparr>frame := p, awaited := aw, stack := []\<rparr>)"
      and "\<forall>i. i \<notin> held_by ` set (stack w) \<longrightarrow> aw i = awaited (w\<lparr>frame := p\<rparr>) i"
    by blast
  then have aw: "leave p w = Returns (w\<lparr>awaited := aw, frame := p, stack := []\<rparr>)"
      "\<forall>i. i \<notin> held_by ` set (stack w) \<longrightarrow> aw i = awaited w i"
    by (simp_all add: leave_def)
  have "\<forall>i\<in>owned w. aw i = awaited w i" using aw(2) assms(2) by (auto simp: holders_ok_def)
  with aw(1) assms(1) assms(3) [OF aw(2)] show ?thesis
    by (auto simp: coro_inv_def holders_ok_def untouched_def)
qed

text \<open>The steps of the body.\<close>

lemma advance_inv:
  assumes "coro_inv env body cl w" "advance residue (frame w) w = Some r"
  shows "\<exists>w'. r = Returns w' \<and> coro_inv env body cl w'"
proof -
  have ho: "\<forall>i\<in>owned w. untouched env i w" "holders_ok env w" and
    pt: "point_inv env body cl (frame w) w"
    using assms(1) by (auto simp: coro_inv_def)
  show ?thesis
  proof (cases "frame w")
    case (Running c)
    show ?thesis
    proof (cases c)
      case (Return v)
      let ?set = "return_value residue v w"
      obtain s ls where set: "?set = Returns (w\<lparr>contract := s, calls := ls\<rparr>)"
        and del: "delivered v cl (w\<lparr>contract := s, calls := ls\<rparr>)"
        using pt Running Return
        by (cases cl) (auto simp: point_inv_def pending_def delivered_def return_value_def
          set_value_simps after_call_def)
      have "\<exists>w'. leave Finished (w\<lparr>contract := s, calls := ls\<rparr>) = Returns w' \<and> coro_inv env body cl w'"
        by (rule leave_inv) (use ho pt Running Return del in
          \<open>auto simp: untouched_def holders_ok_def point_inv_def delivered_def settled_def split: option.splits\<close>)
      with assms(2) Running Return set show ?thesis by auto
    next
      case (Raise e)
      have "\<exists>w'. leave Finished w = Returns w' \<and> coro_inv env body cl w'"
        by (rule leave_inv) (use ho pt Running Raise in
          \<open>auto simp: point_inv_def pending_def settled_def\<close>)
      with assms(2) Running Raise show ?thesis by (auto simp: unhandled_exception_def)
    next
      case (Await i k)
      with pt Running have own: "i \<in> owned w" and red: "reduces env body (Await i k)" and
          k: "\<forall>v. awaits_within (owned w - {i}) (k v)" and
          pe: "pending cl w" "settled env {} w"
        by (auto simp: point_inv_def)
      have nh: "i \<notin> held_by ` set (stack w)" "held_by ` set (stack w) \<inter> (owned w - {i}) = {}"
        using own ho by (auto simp: holders_ok_def)
      show ?thesis
      proof (cases "env i")
        case None
        with own ho have "slot (awaited w i) = None" by (auto simp: untouched_def)
        with assms(2) Running Await own ho red k pe nh None show ?thesis
          by (auto simp: await_ready_def try_get_def coro_inv_defs)
      next
        case (Some v)
        with own ho have "slot (awaited w i) = Some v" by (auto simp: untouched_def)
        with assms(2) Running Await own ho k pe nh reduces_await [OF red Some] show ?thesis
          by (auto simp: await_ready_def try_get_def coro_inv_defs)
      qed
    qed
  next
    case (Missed i k)
    with pt have red: "reduces env body (Await i k)" and k: "\<forall>v. awaits_within (owned w) (k v)" and
        pe: "pending cl w" "settled env {i} w" and un: "untouched env i w" and no: "i \<notin> owned w" and
        nh: "i \<notin> held_by ` set (stack w)" and pr: "env i \<noteq> None \<longrightarrow> i \<in> promises w"
      by (auto simp: point_inv_def)
    show ?thesis
    proof (cases "env i")
      case None
      let ?w = "w\<lparr>awaited := (awaited w)(i := (awaited w i)\<lparr>callback := Some (Some k)\<rparr>)\<rparr>"
      have "\<exists>w'. leave (Suspended i k) ?w = Returns w' \<and> coro_inv env body cl w'"
        by (rule leave_inv) (use ho red k pe un no nh None in
          \<open>auto simp: untouched_def holders_ok_def point_inv_def pending_def settled_def\<close>)
      with assms(2) Missed un None show ?thesis
        by (auto simp: await_suspend_def set_callback_simps untouched_def)
    next
      case (Some v)
      with pe(2) have "settled env {} w" by (auto simp: settled_def)
      with assms(2) Missed ho k pe(1) un no pr reduces_await [OF red Some] Some show ?thesis
        by (auto simp: await_suspend_def set_callback_simps coro_inv_defs resume_def)
    qed
  qed (use assms(2) in auto)
qed

text \<open>The other events.\<close>

lemma complete_inv:
  assumes inv: "coro_inv env body cl w" and env: "env i = None"
    and "coro_step residue (Complete i v) w = Some r"
  shows "\<exists>w'. r = Returns w' \<and> coro_inv (env(i \<mapsto> v)) body cl w'"
proof -
  have i: "i \<in> promises w" "i \<notin> held_by ` set (stack w)" using assms(3) by (auto split: if_splits)
  have ho: "\<forall>j\<in>owned w. untouched env j w" "holders_ok env w" and
    pt: "point_inv env body cl (frame w) w"
    using inv by (auto simp: coro_inv_def)
  have later: "reduces (env(i \<mapsto> v)) body c" if "reduces env body c" for c
    using reduces_extend that env .
  show ?thesis
  proof (cases "\<exists>k. frame w = Suspended i k")
    case True
    then obtain k where f: "frame w = Suspended i k" by blast
    from pt f have "reduces (env(i \<mapsto> v)) body (k v)"
      by (intro reduces_await [where k = k, OF later]) (auto simp: point_inv_def)
    with assms(3) f i env ho pt show ?thesis
      by (auto simp: set_value_simps resume_def coro_inv_defs)
  next
    case False
    have "callback (awaited w i) = None"
      using False pt ho(1) i env by (cases "frame w") (auto simp: point_inv_def settled_def untouched_def)
    then have r: "r = Returns (w\<lparr>awaited := (awaited w)(i := (awaited w i)\<lparr>slot := Some v\<rparr>)\<rparr>)"
      using assms(3) i by (simp add: set_value_simps)
    have "point_inv (env(i \<mapsto> v)) body cl (frame w)
        (w\<lparr>awaited := (awaited w)(i := (awaited w i)\<lparr>slot := Some v\<rparr>)\<rparr>)"
      using False pt i env
      by (cases "frame w") (auto simp: point_inv_def settled_def untouched_def pending_def
        delivered_def dest: later split: option.splits)
    with r ho env show ?thesis
      by (auto simp: coro_inv_def holders_ok_def untouched_def)
  qed
qed

lemma drop_inv:
  assumes "coro_inv env body cl w" "allowed env cl (Drop i) w"
    and "coro_step residue (Drop i) w = Some r"
  shows "\<exists>w'. r = Returns w' \<and> coro_inv env body cl w'"
  using assms
  by (cases "frame w")
    (auto simp: coro_inv_defs delivered_def split: if_splits option.splits)

lemma register_inv:
  assumes "coro_inv env body None w" "coro_step residue (Register c) w = Some r"
  shows "\<exists>w'. r = Returns w' \<and> coro_inv env body (Some c) w'"
  using assms
  by (cases "frame w")
    (auto simp: coro_inv_defs delivered_def set_callback_simps)

lemma coro_step_inv:
  assumes "coro_inv env body cl w" "allowed env cl e w" "coro_step residue e w = Some r"
  shows "\<exists>w'. r = Returns w' \<and> coro_inv (values_after e env) body (client_after e cl) w'"
proof (cases e)
  case Advance
  with assms show ?thesis using advance_inv by auto
next
  case (Complete i v)
  with assms show ?thesis using complete_inv by (auto simp del: coro_step.simps)
next
  case (Drop i)
  with assms show ?thesis using drop_inv by (auto simp del: coro_step.simps allowed.simps)
next
  case (Register c)
  with assms show ?thesis using register_inv by (auto simp del: coro_step.simps)
qed

lemma coro_reach_inv:
  "coro_reach residue fs body env cl w \<Longrightarrow> awaits_within fs body \<Longrightarrow> coro_inv env body cl w"
proof (induction rule: coro_reach.induct)
  case start
  then show ?case by (rule coro_inv_start)
next
  case (step env cl w e w')
  then show ?case using coro_step_inv [OF _ step.hyps(2) step.hyps(3)] by auto
qed

section \<open>Properties\<close>

text \<open>
  Property C23: a coroutine computes its body. In every order of completions, destructions of
  promises, the registration of the client and the turns of the body: a coroutine that ended with
  a value has delivered that of its body on the values of the futures, once, to the client that
  registered; one that is suspended waits for a future that has no value, so no wake-up is lost;
  one that is not can go on. No operation throws or touches a state that is gone, as long as
  promises live until the \<open>await_suspend\<close> on their future has returned. A body that ended with an
  exception leaves its result without a value for ever.
\<close>

theorem coroutine_delivers:
  assumes "coro_reach residue fs body env cl w" "awaits_within fs body"
  shows "(case frame w of
      Running c \<Rightarrow> coro_result env c = coro_result env body \<and> coro_step residue Advance w \<noteq> None
    | Missed i k \<Rightarrow> coro_step residue Advance w \<noteq> None
    | Suspended i k \<Rightarrow> coro_result env body = Blocked i \<and> env i = None
    | Finished \<Rightarrow> (case coro_result env body of
          Delivered v \<Rightarrow> delivered v cl w | Lost e \<Rightarrow> pending cl w | Blocked i \<Rightarrow> False)) \<and>
    (\<forall>e. allowed env cl e w \<longrightarrow> coro_step residue e w = None \<or>
       (\<exists>w'. coro_step residue e w = Some (Returns w')))"
proof -
  have inv: "coro_inv env body cl w" using assms coro_reach_inv by blast
  have "coro_step residue e w = None \<or> (\<exists>w'. coro_step residue e w = Some (Returns w'))"
    if "allowed env cl e w" for e
    using coro_step_inv [OF inv that] by (cases "coro_step residue e w") auto
  moreover have "coro_step residue Advance w \<noteq> None" if "frame w = Running c" for c
    using that by (cases c) auto
  ultimately show ?thesis
    using inv by (cases "frame w") (auto simp: coro_inv_def point_inv_def dest: reduces_now)
qed

text \<open>The body awaits two futures; the second is complete when it is awaited, the first wakes it.\<close>

lemma coroutine_delivers_witness:
  "\<exists>w :: (int, string) coro_world.
     coro_reach (\<lambda>_. 0) {0, 1} (Await 0 (\<lambda>a. Await 1 (\<lambda>b. Return (a - b))))
       ((\<lambda>_. None)(1 \<mapsto> 2, 0 \<mapsto> 7)) (Some ''client'') w \<and>
     frame w = Finished \<and> calls w = [(''client'', 5)]"
proof -
  let ?body = "Await 0 (\<lambda>a. Await 1 (\<lambda>b. Return (a - b))) :: int coro"
  let ?es = "[Advance, Complete 1 2, Register ''client'', Advance, Complete 0 7, Advance, Advance]"
  let ?w = "coro_start {0, 1} ?body :: (int, string) coro_world"
  note defs = coro_start_def state_init_def await_ready_def try_get_def await_suspend_def leave_def
    set_value_def set_callback_def call_by_executor_def resume_def return_value_def after_call_def
  have "\<exists>w. coro_run (\<lambda>_. 0) ?es (\<lambda>_. None) None ?w = Some (Returns w) \<and> frame w = Finished"
    by (simp add: defs)
  then obtain w where w: "coro_run (\<lambda>_. 0) ?es (\<lambda>_. None) None ?w = Some (Returns w)"
    "frame w = Finished" by blast
  have "all_allowed (\<lambda>_. 0) ?es (\<lambda>_. None) None ?w" by (simp add: defs)
  from coro_run_reaches [OF start this w(1)]
  have r: "coro_reach (\<lambda>_. 0) {0, 1} ?body ((\<lambda>_. None)(1 \<mapsto> 2, 0 \<mapsto> 7)) (Some ''client'') w" by simp
  have "awaits_within {0, 1} ?body" by auto
  from coroutine_delivers [OF r this] w(2) r show ?thesis
    by (auto simp: delivered_def)
qed

text \<open>
  The limits. A body that throws is over without a trace: \<open>unhandled_exception\<close> does nothing,
  whoever waits for the result waits for ever. And if the promise sets the value and is destroyed
  between \<open>await_ready\<close> and \<open>await_suspend\<close>, the body resumes inside \<open>set_callback\<close> on a state
  that only the awaiter keeps; when the awaiter goes, the mutex that is still locked goes with it.
\<close>

lemma coroutine_limits:
  fixes c :: 'c and v :: 'v
  shows "(\<exists>w. coro_run residue [Advance, Register c] (\<lambda>_. None) None
      (coro_start {} (Raise e) :: ('v, 'c) coro_world) = Some (Returns w) \<and>
      frame w = Finished \<and> calls w = []) \<and>
    coro_run residue [Advance, Complete 0 v, Drop 0, Advance, Advance] (\<lambda>_. None) None
      (coro_start {0} (Await 0 Return) :: ('v, 'c) coro_world) = Some Undefined"
  by (simp add: coro_start_def state_init_def await_ready_def try_get_def await_suspend_def
    leave_def set_value_def set_callback_def call_by_executor_def resume_def return_value_def
    after_call_def unhandled_exception_def)

end
