(* ===== verification/Conn_Steps.thy ===== *)
theory Conn_Steps
  imports Server_Pipeline
begin

text \<open>
  A connection as the event loop sees it: a chain of handlers, each of which is called once, with
  one event, does one system call and leaves the next handler (\<open>FutRead.hpp\<close>, \<open>FutWrite.hpp\<close> and the
  callbacks of \<open>server_pipeline\<close> in \<open>webserv.cpp\<close>). \<open>stage\<close> is what the handler that is registered has
  captured. The theory shows that these steps compute what \<open>serve_connection\<close> does with the
  list of the events that have come so far.
\<close>

section \<open>One step of a reader or a writer\<close>

text \<open>The handler of \<open>read_entity\<close>: read a part, give it to the creator, and go on or end.\<close>

definition read_step ::
  "(mem \<Rightarrow> bytes \<Rightarrow> 'p \<Rightarrow> (io_state \<times> 'p) outcome) \<Rightarrow> ('p \<Rightarrow> ('e, 'err) res outcome) \<Rightarrow>
   (io_error \<Rightarrow> 'err) \<Rightarrow> read_wakeup \<Rightarrow> 'p \<Rightarrow> 'p + ('e, 'err) res outcome" where
  "read_step creator create_entity Error w p =
     (case read_part w of
        Err e \<Rightarrow> Inr (Returns (Err (Error e)))
      | Ok data \<Rightarrow>
         (case creator (r_mem w) data p of
            Throws x \<Rightarrow> Inr (Throws x)
          | Undefined \<Rightarrow> Inr Undefined
          | Returns (PENDING, p) \<Rightarrow> Inl p
          | Returns (READY, p) \<Rightarrow> Inr (create_entity p)))"

lemma read_entity_step:
  "read_entity creator create_entity Error (w # ws) p =
     (case read_step creator create_entity Error w p of
        Inl p \<Rightarrow> read_entity creator create_entity Error ws p
      | Inr r \<Rightarrow> Some r)"
  by (simp add: read_step_def split: res.split outcome.split io_state.split)

text \<open>
  What a handler of \<open>write_all\<close> inside \<open>write_entity\<close> has captured: the serializer after its last
  \<open>get_data\<close>, the part and how far it has been taken.
\<close>

record writer =
  w_rest :: serializer
  w_data :: bytes
  w_pos :: nat

definition start_write ::
  "(serializer \<Rightarrow> bytes \<times> serializer) \<Rightarrow> (serializer \<Rightarrow> io_state) \<Rightarrow> serializer \<Rightarrow> writer option" where
  "start_write get_data state s =
     (case state s of
        READY \<Rightarrow> None
      | PENDING \<Rightarrow> let (d, s) = get_data s in Some \<lparr>w_rest = s, w_data = d, w_pos = 0\<rparr>)"

definition write_step ::
  "(serializer \<Rightarrow> bytes \<times> serializer) \<Rightarrow> (serializer \<Rightarrow> io_state) \<Rightarrow> write_wakeup \<Rightarrow> writer \<Rightarrow>
   bytes \<times> (writer + (unit, io_error) res)" where
  "write_step get_data state w wr =
     (case write_part w (length (w_data wr) - w_pos wr) of
        Err e \<Rightarrow> ([], Inr (Err e))
      | Ok n \<Rightarrow>
         (take n (drop (w_pos wr) (w_data wr)),
          if w_pos wr + n \<noteq> length (w_data wr) then Inl (wr\<lparr>w_pos := w_pos wr + n\<rparr>)
          else (case start_write get_data state (w_rest wr) of Some wr \<Rightarrow> Inl wr | None \<Rightarrow> Inr (Ok ()))))"

text \<open>What is left of \<open>write_entity\<close> for a writer under way.\<close>

definition write_more ::
  "(serializer \<Rightarrow> bytes \<times> serializer) \<Rightarrow> (serializer \<Rightarrow> io_state) \<Rightarrow> write_wakeup list \<Rightarrow> writer \<Rightarrow> bytes \<Rightarrow>
   (nat, io_error) res option \<times> bytes \<times> write_wakeup list" where
  "write_more get_data state ws wr out =
     (case write_all ws (w_data wr) (w_pos wr) 0 out of
        (None, out, ws) \<Rightarrow> (None, out, ws)
      | (Some (Err e), out, ws) \<Rightarrow> (Some (Err e), out, ws)
      | (Some (Ok _), out, ws) \<Rightarrow> write_entity get_data state ws (w_rest wr) 0 out)"

lemma write_entity_start:
  "write_entity get_data state ws s 0 out =
     (case start_write get_data state s of
        None \<Rightarrow> (Some (Ok 0), out, ws)
      | Some wr \<Rightarrow> write_more get_data state ws wr out)"
  by (subst write_entity.simps)
    (simp add: start_write_def write_more_def split: io_state.split prod.split option.split res.split)

lemma write_more_step:
  "write_more get_data state (w # ws) wr out =
     (case write_step get_data state w wr of
        (b, Inl wr) \<Rightarrow> write_more get_data state ws wr (out @ b)
      | (b, Inr r) \<Rightarrow> (Some (map_res r (\<lambda>_. 0)), out @ b, ws))"
  by (simp add: write_more_def [of _ _ "w # ws"] write_step_def Let_def write_entity_start
      split: res.split option.split)
    (simp add: write_more_def split: option.split res.split prod.split)

lemma write_more_Nil: "write_more get_data state [] wr out = (None, out, [])"
  by (simp add: write_more_def)

text \<open>A reader or writer has got to a point, whatever comes next.\<close>

definition read_so_far where
  "read_so_far creator create_entity Error rs p0 p \<longleftrightarrow>
     (\<forall>ws. read_entity creator create_entity Error (rs @ ws) p0 = read_entity creator create_entity Error ws p)"

definition written_so_far where
  "written_so_far get_data state us s wr out \<longleftrightarrow>
     (\<forall>ws. write_entity get_data state (us @ ws) s 0 [] = write_more get_data state ws wr out)"

lemma read_so_far_Nil: "read_so_far creator create_entity Error [] p p"
  by (simp add: read_so_far_def)

lemma read_so_far_pending:
  "read_so_far creator create_entity Error rs p0 p \<Longrightarrow> read_entity creator create_entity Error rs p0 = None"
  unfolding read_so_far_def by (drule spec [of _ "[]"]) simp

lemma read_so_far_step:
  assumes "read_so_far creator create_entity Error rs p0 p"
  shows "case read_step creator create_entity Error w p of
      Inl p' \<Rightarrow> read_so_far creator create_entity Error (rs @ [w]) p0 p'
    | Inr r \<Rightarrow> read_entity creator create_entity Error (rs @ [w]) p0 = Some r"
proof -
  have "read_entity creator create_entity Error (rs @ w # ws) p0 =
      read_entity creator create_entity Error (w # ws) p" for ws
    using assms by (simp add: read_so_far_def)
  note this [unfolded read_entity_step]
  then show ?thesis by (simp add: read_so_far_def split: sum.split)
qed

lemma written_so_far_start:
  "start_write get_data state s = Some wr \<Longrightarrow> written_so_far get_data state [] s wr []"
  by (simp add: written_so_far_def write_entity_start)

lemma written_so_far_pending:
  "written_so_far get_data state us s wr out \<Longrightarrow> write_entity get_data state us s 0 [] = (None, out, [])"
  unfolding written_so_far_def by (drule spec [of _ "[]"]) (simp add: write_more_Nil)

lemma written_so_far_step:
  assumes "written_so_far get_data state us s wr out"
  shows "case write_step get_data state w wr of
      (b, Inl wr') \<Rightarrow> written_so_far get_data state (us @ [w]) s wr' (out @ b)
    | (b, Inr r) \<Rightarrow> write_entity get_data state (us @ [w]) s 0 [] = (Some (map_res r (\<lambda>_. 0)), out @ b, [])"
proof -
  have "write_entity get_data state (us @ w # ws) s 0 [] = write_more get_data state (w # ws) wr out" for ws
    using assms by (simp add: written_so_far_def)
  note this [unfolded write_more_step]
  then show ?thesis by (simp add: written_so_far_def split: sum.split prod.split)
qed

section \<open>The chain of handlers of a connection\<close>

text \<open>Who is asked on behalf of the client.\<close>

datatype 'c peer = Program "'c cgi_object" | Upstream "'c http_client"

datatype 'c stage =
    Get_request request_parser
  | Send_on "'c peer" writer
  | Get_answer "'c peer" response_parser
  | Send_reply response writer
  | Over "'c conn_end"

datatype wakeup = Read_ready read_wakeup | Write_ready write_wakeup

text \<open>\<open>heard\<close> collects the wake-ups; what the kernel will answer when a program is started or an
  upstream server is connected to is in it from the beginning.\<close>

record 'c conn_run =
  stage :: "'c stage"
  to_peer :: bytes
  to_client :: bytes
  heard :: surroundings

definition conn_start :: "surroundings \<Rightarrow> 'c conn_run" where
  "conn_start e =
     \<lparr>stage = Get_request RequestParser, to_peer = [], to_client = [],
      heard = e\<lparr>request_reads := [], reply_writes := [], cgi_writes := [], cgi_reads := [],
                upstream_writes := [], upstream_reads := []\<rparr>\<rparr>"

text \<open>The wake-ups of the descriptors of the peer.\<close>

fun peer_writes :: "'c peer \<Rightarrow> surroundings \<Rightarrow> write_wakeup list" where
  "peer_writes (Program ob) e = cgi_writes e"
| "peer_writes (Upstream c) e = upstream_writes e"

fun peer_reads :: "'c peer \<Rightarrow> surroundings \<Rightarrow> read_wakeup list" where
  "peer_reads (Program ob) e = cgi_reads e"
| "peer_reads (Upstream c) e = upstream_reads e"

fun hear_write :: "'c peer \<Rightarrow> write_wakeup \<Rightarrow> surroundings \<Rightarrow> surroundings" where
  "hear_write (Program ob) w e = e\<lparr>cgi_writes := cgi_writes e @ [w]\<rparr>"
| "hear_write (Upstream c) w e = e\<lparr>upstream_writes := upstream_writes e @ [w]\<rparr>"

fun hear_read :: "'c peer \<Rightarrow> read_wakeup \<Rightarrow> surroundings \<Rightarrow> surroundings" where
  "hear_read (Program ob) w e = e\<lparr>cgi_reads := cgi_reads e @ [w]\<rparr>"
| "hear_read (Upstream c) w e = e\<lparr>upstream_reads := upstream_reads e @ [w]\<rparr>"

text \<open>The response for a request that could not be written to the peer, and for its answer.\<close>

fun peer_failed :: "'c peer \<Rightarrow> io_error \<Rightarrow> response outcome" where
  "peer_failed (Program ob) e =
     bind_outcome (error_description e) (\<lambda>d. cgi_reply (Err (''cgi::send_request '' @ d) :: (response, string) res))"
| "peer_failed (Upstream c) e = proxy_reply (Err (http_error_of_io e))"

fun peer_answered :: "'c peer \<Rightarrow> (response, http_error) res outcome \<Rightarrow> response outcome" where
  "peer_answered (Program ob) a =
     bind_outcome a (\<lambda>res. cgi_reply (case res of Err _ \<Rightarrow> Err ''http error'' | Ok r \<Rightarrow> Ok r))"
| "peer_answered (Upstream c) a = bind_outcome a proxy_reply"

definition begin_reply :: "response outcome \<Rightarrow> 'c conn_run \<Rightarrow> 'c conn_run" where
  "begin_reply r st =
     st\<lparr>stage := (case r of
          Returns response \<Rightarrow>
            (case start_write response_get_data response_state (ResponseSerializer response) of
               Some wr \<Rightarrow> Send_reply response wr
             | None \<Rightarrow> Over (Replied response (Some (Ok ())) []))
        | _ \<Rightarrow> Over Crashed)\<rparr>"

definition begin_exchange :: "'c peer \<Rightarrow> request \<Rightarrow> 'c conn_run \<Rightarrow> 'c conn_run" where
  "begin_exchange peer q st =
     st\<lparr>stage := (case start_write request_get_data request_state (RequestSerializer q) of
          Some wr \<Rightarrow> Send_on peer wr
        | None \<Rightarrow> Get_answer peer ResponseParser)\<rparr>"

text \<open>What the callback of \<open>get_request\<close> does with a request.\<close>

definition on_request ::
  "(string \<Rightarrow> bytes option) \<Rightarrow> 'c \<Rightarrow> 'd connection \<Rightarrow> server list \<Rightarrow> request \<Rightarrow> 'c conn_run \<Rightarrow> process \<Rightarrow>
   'c conn_run \<times> process" where
  "on_request file ctx conn info req st pr =
     (case bind_outcome (c_string (addr_ip (conn_addr conn)))
         (\<lambda>client_ip. handle_request file client_ip info req) of
        Returns (Send r) \<Rightarrow> (begin_reply (Returns r) st, pr)
      | Returns (Run_cgi path q) \<Rightarrow>
          (case object_from (cgi_answers (heard st)) ctx path (req_headers q) pr of
             Returns (Returned (Err e), pr) \<Rightarrow> (begin_reply (cgi_reply (Err e)) st, pr)
           | Returns (Returned (Ok ob), pr) \<Rightarrow> (begin_exchange (Program ob) q st, pr)
           | Returns (ended, pr) \<Rightarrow> (st\<lparr>stage := Over (In_child ended)\<rparr>, pr)
           | _ \<Rightarrow> (st\<lparr>stage := Over Crashed\<rparr>, pr))
      | Returns (Proxy ip port q) \<Rightarrow>
          (case client_from (upstream_socket (heard st)) (upstream_connect (heard st)) ip port ctx (files pr) of
             (Err e, t) \<Rightarrow> (begin_reply (proxy_reply (Err e)) st, pr\<lparr>files := t\<rparr>)
           | (Ok client, t) \<Rightarrow> (begin_exchange (Upstream client) q st, pr\<lparr>files := t\<rparr>))
      | _ \<Rightarrow> (st\<lparr>stage := Over Crashed\<rparr>, pr))"

text \<open>The handlers of the stages.\<close>

definition get_request_step ::
  "(string \<Rightarrow> bytes option) \<Rightarrow> 'c \<Rightarrow> 'd connection \<Rightarrow> server list \<Rightarrow> read_wakeup \<Rightarrow> request_parser \<Rightarrow>
   'c conn_run \<Rightarrow> process \<Rightarrow> 'c conn_run \<times> process" where
  "get_request_step file ctx conn info w p st pr =
     (let st = st\<lparr>heard := (heard st)\<lparr>request_reads := request_reads (heard st) @ [w]\<rparr>\<rparr> in
      case read_step RequestParser_call (\<lambda>p. Returns (request_create_entity p)) http_error_of_io w p of
        Inl p \<Rightarrow> (st\<lparr>stage := Get_request p\<rparr>, pr)
      | Inr (Returns (Err e)) \<Rightarrow> (st\<lparr>stage := Over (No_request e)\<rparr>, pr)
      | Inr (Returns (Ok req)) \<Rightarrow> on_request file ctx conn info req st pr
      | Inr _ \<Rightarrow> (st\<lparr>stage := Over Crashed\<rparr>, pr))"

definition send_on_step :: "write_wakeup \<Rightarrow> 'c peer \<Rightarrow> writer \<Rightarrow> 'c conn_run \<Rightarrow> 'c conn_run" where
  "send_on_step w peer wr st =
     (case write_step request_get_data request_state w wr of (b, res) \<Rightarrow>
        let st = st\<lparr>to_peer := to_peer st @ b, heard := hear_write peer w (heard st)\<rparr> in
        case res of
          Inl wr \<Rightarrow> st\<lparr>stage := Send_on peer wr\<rparr>
        | Inr (Ok _) \<Rightarrow> st\<lparr>stage := Get_answer peer ResponseParser\<rparr>
        | Inr (Err e) \<Rightarrow> begin_reply (peer_failed peer e) st)"

definition get_answer_step :: "read_wakeup \<Rightarrow> 'c peer \<Rightarrow> response_parser \<Rightarrow> 'c conn_run \<Rightarrow> 'c conn_run" where
  "get_answer_step w peer p st =
     (let st = st\<lparr>heard := hear_read peer w (heard st)\<rparr> in
      case read_step ResponseParser_call response_create_entity http_error_of_io w p of
        Inl p \<Rightarrow> st\<lparr>stage := Get_answer peer p\<rparr>
      | Inr a \<Rightarrow> begin_reply (peer_answered peer a) st)"

definition send_reply_step :: "write_wakeup \<Rightarrow> response \<Rightarrow> writer \<Rightarrow> 'c conn_run \<Rightarrow> 'c conn_run" where
  "send_reply_step w r wr st =
     (case write_step response_get_data response_state w wr of (b, res) \<Rightarrow>
        let st = st\<lparr>to_client := to_client st @ b,
                    heard := (heard st)\<lparr>reply_writes := reply_writes (heard st) @ [w]\<rparr>\<rparr> in
        case res of
          Inl wr \<Rightarrow> st\<lparr>stage := Send_reply r wr\<rparr>
        | Inr res \<Rightarrow> st\<lparr>stage := Over (Replied r (Some res) (to_client st))\<rparr>)"

text \<open>A wake-up of the kind the stage waits for; there are no others.\<close>

definition conn_step ::
  "(string \<Rightarrow> bytes option) \<Rightarrow> 'c \<Rightarrow> 'd connection \<Rightarrow> server list \<Rightarrow> wakeup \<Rightarrow> 'c conn_run \<times> process \<Rightarrow>
   'c conn_run \<times> process" where
  "conn_step file ctx conn info w s =
     (case s of (st, pr) \<Rightarrow>
        case (stage st, w) of
          (Get_request p, Read_ready w) \<Rightarrow> get_request_step file ctx conn info w p st pr
        | (Send_on peer wr, Write_ready w) \<Rightarrow> (send_on_step w peer wr st, pr)
        | (Get_answer peer p, Read_ready w) \<Rightarrow> (get_answer_step w peer p st, pr)
        | (Send_reply r wr, Write_ready w) \<Rightarrow> (send_reply_step w r wr st, pr)
        | _ \<Rightarrow> (st, pr))"

text \<open>How the connection stands for an observer.\<close>

definition conn_view :: "'c conn_run \<Rightarrow> 'c conn_end" where
  "conn_view st =
     (case stage st of
        Send_reply r wr \<Rightarrow> Replied r None (to_client st)
      | Over x \<Rightarrow> x
      | _ \<Rightarrow> Waiting)"

section \<open>The steps compute \<open>serve_connection\<close>\<close>

subsection \<open>The exchange with a peer\<close>

definition exchange ::
  "'c peer \<Rightarrow> request \<Rightarrow> write_wakeup list \<Rightarrow> read_wakeup list \<Rightarrow> write_wakeup list \<Rightarrow> 'c conn_end \<times> bytes" where
  "exchange peer q us rs ws =
     (case write_entity request_get_data request_state us (RequestSerializer q) 0 [] of
        (None, out, _) \<Rightarrow> (Waiting, out)
      | (Some (Err e), out, _) \<Rightarrow> (reply ws (peer_failed peer e), out)
      | (Some (Ok _), out, _) \<Rightarrow>
          (case http_get_response rs of
             None \<Rightarrow> Waiting
           | Some a \<Rightarrow> reply ws (peer_answered peer a), out))"

lemma reply_bind:
  "reply_when_read ws decide (Some a) = reply ws (bind_outcome a decide)"
  by (cases a) (simp_all add: reply_when_read_def reply_def)

lemma cgi_exchange:
  "(case cgi_send_request (Ok ob) q us rs of
      (res, sent) \<Rightarrow> (reply_when_read ws cgi_reply res, sent)) = exchange (Program ob) q us rs ws"
  by (simp add: cgi_send_request_def exchange_def http_get_response_def reply_when_read_def [of _ _ None]
        split: option.split res.split prod.split)
    (auto simp: reply_bind bind_outcome_assoc intro!: arg_cong [where f = "reply ws"] bind_outcome_cong
      split: res.split)

lemma proxy_exchange:
  "(case request_response us rs q of
      (res, sent) \<Rightarrow> (reply_when_read ws proxy_reply res, sent)) = exchange (Upstream c) q us rs ws"
proof -
  obtain r out us' where w: "write_entity request_get_data request_state us (RequestSerializer q) 0 [] = (r, out, us')"
    by (cases "write_entity request_get_data request_state us (RequestSerializer q) 0 []")
  show ?thesis
    by (cases r) (auto simp: request_response_def http_send_request_def exchange_def w reply_when_read_def [of _ _ None]
      reply_bind split: option.split res.split)
qed

lemma exchange_sending:
  "written_so_far request_get_data request_state us (RequestSerializer q) wr out \<Longrightarrow>
     exchange peer q us rs ws = (Waiting, out)"
  by (simp add: exchange_def written_so_far_pending)

subsection \<open>The invariant of the steps\<close>

text \<open>\<open>e\<close> agrees with \<open>h\<close> on what the request was and what the start of a peer was answered.\<close>

definition same_start :: "surroundings \<Rightarrow> surroundings \<Rightarrow> bool" where
  "same_start h e \<longleftrightarrow> request_reads e = request_reads h \<and> cgi_answers e = cgi_answers h \<and>
     upstream_socket e = upstream_socket h \<and> upstream_connect e = upstream_connect h"

definition asks where
  "asks serve h peer q pr \<longleftrightarrow> (\<forall>e. same_start h e \<longrightarrow>
     serve e = (case exchange peer q (peer_writes peer e) (peer_reads peer e) (reply_writes e) of
       (x, out) \<Rightarrow> (x, out, pr)))"

definition replies where
  "replies serve h r out pr \<longleftrightarrow> (\<forall>ws. serve (h\<lparr>reply_writes := ws\<rparr>) = (reply ws r, out, pr))"

text \<open>\<open>serve e\<close> is \<open>serve_connection\<close> in the surroundings \<open>e\<close>.\<close>

definition stage_inv ::
  "(surroundings \<Rightarrow> 'c conn_end \<times> bytes \<times> process) \<Rightarrow> process \<Rightarrow> 'c conn_run \<times> process \<Rightarrow> bool" where
  "stage_inv serve pr0 s \<longleftrightarrow> (case s of (st, pr) \<Rightarrow> let h = heard st in
     (case stage st of
        Get_request p \<Rightarrow> pr = pr0 \<and> to_peer st = [] \<and> to_client st = [] \<and>
          reply_writes h = [] \<and> cgi_writes h = [] \<and> cgi_reads h = [] \<and> upstream_writes h = [] \<and>
          upstream_reads h = [] \<and>
          read_so_far RequestParser_call (\<lambda>p. Returns (request_create_entity p)) http_error_of_io
            (request_reads h) RequestParser p
      | Send_on peer wr \<Rightarrow> (\<exists>q. asks serve h peer q pr \<and>
          written_so_far request_get_data request_state (peer_writes peer h) (RequestSerializer q) wr (to_peer st)) \<and>
          peer_reads peer h = [] \<and> reply_writes h = [] \<and> to_client st = []
      | Get_answer peer p \<Rightarrow> (\<exists>q n. asks serve h peer q pr \<and>
          write_entity request_get_data request_state (peer_writes peer h) (RequestSerializer q) 0 [] =
            (Some (Ok n), to_peer st, [])) \<and>
          read_so_far ResponseParser_call response_create_entity http_error_of_io
            (peer_reads peer h) ResponseParser p \<and>
          reply_writes h = [] \<and> to_client st = []
      | Send_reply r wr \<Rightarrow> replies serve h (Returns r) (to_peer st) pr \<and>
          written_so_far response_get_data response_state (reply_writes h) (ResponseSerializer r) wr (to_client st)
      | Over x \<Rightarrow> serve h = (x, to_peer st, pr)))"

lemma same_start_refl [simp]: "same_start h h"
  by (simp add: same_start_def)

lemma same_start_hear [simp]:
  "same_start (hear_write peer w h) = same_start h" "same_start (hear_read peer v h) = same_start h"
  "same_start h (hear_write peer w e) = same_start h e" "same_start h (hear_read peer v e) = same_start h e"
  "same_start h (e\<lparr>reply_writes := ws\<rparr>) = same_start h e"
  by (cases peer; simp add: same_start_def fun_eq_iff)+

lemma heard_simps [simp]:
  "peer_writes peer (hear_write peer w h) = peer_writes peer h @ [w]"
  "peer_reads peer (hear_write peer w h) = peer_reads peer h"
  "peer_reads peer (hear_read peer v h) = peer_reads peer h @ [v]"
  "peer_writes peer (hear_read peer v h) = peer_writes peer h"
  "reply_writes (hear_write peer w h) = reply_writes h" "reply_writes (hear_read peer v h) = reply_writes h"
  "peer_writes peer (h\<lparr>reply_writes := ws\<rparr>) = peer_writes peer h"
  "peer_reads peer (h\<lparr>reply_writes := ws\<rparr>) = peer_reads peer h"
  by (cases peer; simp)+

lemma asks_hear [simp]:
  "asks serve (hear_write peer' w h) peer q pr = asks serve h peer q pr"
  "asks serve (hear_read peer' v h) peer q pr = asks serve h peer q pr"
  by (simp_all add: asks_def)

lemma asksD: "asks serve h peer q pr \<Longrightarrow> same_start h e \<Longrightarrow>
    serve e = (case exchange peer q (peer_writes peer e) (peer_reads peer e) (reply_writes e) of
       (x, out) \<Rightarrow> (x, out, pr))"
  by (simp add: asks_def)

text \<open>In each stage the invariant gives what \<open>serve_connection\<close> does so far.\<close>

lemma stage_inv_view:
  assumes "stage_inv serve pr0 (st, pr)"
    and "\<And>e. http_get_request (request_reads e) = None \<Longrightarrow> serve e = (Waiting, [], pr0)"
  shows "serve (heard st) = (conn_view st, to_peer st, pr)"
proof (cases "stage st")
  case (Get_request p)
  with assms(1) have r: "read_so_far RequestParser_call (\<lambda>p. Returns (request_create_entity p)) http_error_of_io
      (request_reads (heard st)) RequestParser p" and "to_peer st = []" "pr = pr0"
    by (simp_all add: stage_inv_def Let_def)
  with Get_request assms(2) [of "heard st"] show ?thesis
    by (simp add: http_get_request_def read_so_far_pending [OF r] conn_view_def)
next
  case (Send_on peer wr)
  with assms(1) obtain q where q: "asks serve (heard st) peer q pr"
    "written_so_far request_get_data request_state (peer_writes peer (heard st)) (RequestSerializer q) wr (to_peer st)"
    by (auto simp: stage_inv_def Let_def)
  then show ?thesis
    using Send_on by (simp add: asksD [OF q(1)] exchange_sending [OF q(2)] conn_view_def)
next
  case (Get_answer peer p)
  with assms(1) obtain q n where q: "asks serve (heard st) peer q pr"
    "write_entity request_get_data request_state (peer_writes peer (heard st)) (RequestSerializer q) 0 [] =
            (Some (Ok n), to_peer st, [])"
    "read_so_far ResponseParser_call response_create_entity http_error_of_io
            (peer_reads peer (heard st)) ResponseParser p"
    by (auto simp: stage_inv_def Let_def)
  then show ?thesis
    using Get_answer by (simp add: asksD [OF q(1)] exchange_def q(2) http_get_response_def
      read_so_far_pending [OF q(3)] conn_view_def)
next
  case (Send_reply r wr)
  with assms(1) have "replies serve (heard st) (Returns r) (to_peer st) pr"
    and w: "written_so_far response_get_data response_state (reply_writes (heard st)) (ResponseSerializer r) wr (to_client st)"
    by (auto simp: stage_inv_def Let_def)
  then have "serve ((heard st)\<lparr>reply_writes := reply_writes (heard st)\<rparr>) =
      (reply (reply_writes (heard st)) (Returns r), to_peer st, pr)"
    unfolding replies_def by blast
  then show ?thesis
    using Send_reply by (simp add: reply_def http_send_response_def written_so_far_pending [OF w] conn_view_def)
next
  case (Over x)
  with assms(1) show ?thesis by (simp add: stage_inv_def conn_view_def)
qed

subsection \<open>The steps keep the invariant\<close>

lemma begin_reply_inv:
  assumes "replies serve (heard st) r (to_peer st) pr" "reply_writes (heard st) = []" "to_client st = []"
  shows "stage_inv serve pr0 (begin_reply r st, pr)"
proof -
  have same: "(heard st)\<lparr>reply_writes := []\<rparr> = heard st" using assms(2) by simp
  from assms(1) have now: "serve (heard st) = (reply [] r, to_peer st, pr)"
    unfolding replies_def by (metis same)
  show ?thesis
  proof (cases r)
    case (Returns x)
    show ?thesis
    proof (cases "start_write response_get_data response_state (ResponseSerializer x)")
      case None
      with now Returns show ?thesis
        by (simp add: stage_inv_def begin_reply_def reply_def http_send_response_def write_entity_start)
    next
      case (Some wr)
      with assms Returns show ?thesis
        by (simp add: stage_inv_def begin_reply_def written_so_far_start)
    qed
  qed (use now in \<open>simp_all add: stage_inv_def begin_reply_def reply_def\<close>)
qed

lemma begin_exchange_inv:
  assumes "asks serve (heard st) peer q pr" "peer_writes peer (heard st) = []" "peer_reads peer (heard st) = []"
    "reply_writes (heard st) = []" "to_peer st = []" "to_client st = []"
  shows "stage_inv serve pr0 (begin_exchange peer q st, pr)"
proof (cases "start_write request_get_data request_state (RequestSerializer q)")
  case None
  then have "write_entity request_get_data request_state [] (RequestSerializer q) 0 [] = (Some (Ok 0), [], [])"
    by (simp add: write_entity_start)
  with None assms show ?thesis by (auto simp: stage_inv_def begin_exchange_def read_so_far_Nil)
next
  case (Some wr)
  with assms show ?thesis by (auto simp: stage_inv_def begin_exchange_def written_so_far_start)
qed

lemma send_on_inv:
  assumes "stage_inv serve pr0 (st, pr)" "stage st = Send_on peer wr"
  shows "stage_inv serve pr0 (send_on_step w peer wr st, pr)"
proof -
  obtain q where q: "asks serve (heard st) peer q pr"
    "written_so_far request_get_data request_state (peer_writes peer (heard st)) (RequestSerializer q) wr (to_peer st)"
    and e: "peer_reads peer (heard st) = []" "reply_writes (heard st) = []" "to_client st = []"
    using assms by (auto simp: stage_inv_def Let_def)
  obtain b res where b: "write_step request_get_data request_state w wr = (b, res)" by fastforce
  note next_step = written_so_far_step [OF q(2), of w, unfolded b, simplified]
  show ?thesis
  proof (cases res)
    case (Inl wr')
    with next_step q(1) e b show ?thesis by (auto simp: stage_inv_def send_on_step_def Let_def)
  next
    case (Inr r)
    with next_step have w: "write_entity request_get_data request_state (peer_writes peer (heard st) @ [w])
        (RequestSerializer q) 0 [] = (Some (map_res r (\<lambda>_. 0)), to_peer st @ b, [])" by simp
    show ?thesis
    proof (cases r)
      case (Ok u)
      with Inr w q(1) e b show ?thesis
        by (auto simp: stage_inv_def send_on_step_def Let_def read_so_far_Nil)
    next
      case (Err er)
      let ?st = "st\<lparr>to_peer := to_peer st @ b, heard := hear_write peer w (heard st)\<rparr>"
      have "replies serve (heard ?st) (peer_failed peer er) (to_peer ?st) pr"
        using q(1) w Err by (simp add: replies_def asksD exchange_def)
      from begin_reply_inv [OF this] e b Inr Err show ?thesis by (simp add: send_on_step_def)
    qed
  qed
qed

lemma get_answer_inv:
  assumes "stage_inv serve pr0 (st, pr)" "stage st = Get_answer peer p"
  shows "stage_inv serve pr0 (get_answer_step w peer p st, pr)"
proof -
  obtain q n where q: "asks serve (heard st) peer q pr"
    "write_entity request_get_data request_state (peer_writes peer (heard st)) (RequestSerializer q) 0 [] =
            (Some (Ok n), to_peer st, [])"
    and r: "read_so_far ResponseParser_call response_create_entity http_error_of_io
            (peer_reads peer (heard st)) ResponseParser p"
    and e: "reply_writes (heard st) = []" "to_client st = []"
    using assms by (auto simp: stage_inv_def Let_def)
  note next_step = read_so_far_step [OF r, of w]
  show ?thesis
  proof (cases "read_step ResponseParser_call response_create_entity http_error_of_io w p")
    case (Inl p')
    with next_step q e show ?thesis by (auto simp: stage_inv_def get_answer_step_def Let_def)
  next
    case (Inr a)
    let ?st = "st\<lparr>heard := hear_read peer w (heard st)\<rparr>"
    have "http_get_response (peer_reads peer (heard st) @ [w]) = Some a"
      using next_step Inr by (simp add: http_get_response_def)
    then have "replies serve (heard ?st) (peer_answered peer a) (to_peer ?st) pr"
      using q by (simp add: replies_def asksD exchange_def)
    from begin_reply_inv [OF this] e Inr show ?thesis by (simp add: get_answer_step_def)
  qed
qed

lemma send_reply_inv:
  assumes "stage_inv serve pr0 (st, pr)" "stage st = Send_reply r wr"
  shows "stage_inv serve pr0 (send_reply_step w r wr st, pr)"
proof -
  let ?h = "(heard st)\<lparr>reply_writes := reply_writes (heard st) @ [w]\<rparr>"
  have rep: "replies serve (heard st) (Returns r) (to_peer st) pr"
    and wsf: "written_so_far response_get_data response_state (reply_writes (heard st)) (ResponseSerializer r) wr (to_client st)"
    using assms by (auto simp: stage_inv_def Let_def)
  obtain b res where b: "write_step response_get_data response_state w wr = (b, res)" by fastforce
  note next_step = written_so_far_step [OF wsf, of w, unfolded b, simplified]
  have rep': "replies serve ?h (Returns r) (to_peer st) pr" using rep by (simp add: replies_def)
  show ?thesis
  proof (cases res)
    case (Inl wr')
    with next_step rep' b show ?thesis by (simp add: stage_inv_def send_reply_step_def Let_def)
  next
    case (Inr x)
    have unit: "map_res (map_res x (\<lambda>_. 0 :: nat)) (\<lambda>_. ()) = x" by (cases x) simp_all
    from Inr next_step have "http_send_response (reply_writes (heard st) @ [w]) r = (Some x, to_client st @ b)"
      by (simp add: http_send_response_def unit)
    moreover have "serve ?h = (reply (reply_writes (heard st) @ [w]) (Returns r), to_peer st, pr)"
      using rep unfolding replies_def by blast
    ultimately show ?thesis using Inr b by (simp add: stage_inv_def send_reply_step_def Let_def reply_def)
  qed
qed

text \<open>The action for a request, in any surroundings in which it was read.\<close>

lemma serve_request:
  assumes "http_get_request (request_reads h) = Some (Returns (Ok req))" "same_start h e"
  shows "serve_connection file e ctx conn info pr =
    (case bind_outcome (c_string (addr_ip (conn_addr conn)))
         (\<lambda>client_ip. handle_request file client_ip info req) of
            Returns (Send r) \<Rightarrow> (reply (reply_writes e) (Returns r), [], pr)
          | Returns (Run_cgi path q) \<Rightarrow> run_cgi e ctx path q pr
          | Returns (Proxy ip port q) \<Rightarrow> run_proxy e ctx ip port q pr
          | _ \<Rightarrow> (Crashed, [], pr))"
  using assms by (simp add: serve_connection_def same_start_def)

definition idle_run :: "'c conn_run \<Rightarrow> bool" where
  "idle_run st \<longleftrightarrow> to_peer st = [] \<and> to_client st = [] \<and> reply_writes (heard st) = [] \<and>
     cgi_writes (heard st) = [] \<and> cgi_reads (heard st) = [] \<and>
     upstream_writes (heard st) = [] \<and> upstream_reads (heard st) = []"

lemma run_cgi_inv:
  fixes st :: "'c conn_run"
  assumes "idle_run st"
    and serve: "\<And>e. same_start (heard st) e \<Longrightarrow> serve e = run_cgi e ctx path q pr0"
  shows "stage_inv serve pr0
    (case object_from (cgi_answers (heard st)) ctx path (req_headers q) pr0 of
             Returns (Returned (Err e), pr) \<Rightarrow> (begin_reply (cgi_reply (Err e)) st, pr)
           | Returns (Returned (Ok ob), pr) \<Rightarrow> (begin_exchange (Program ob) q st, pr)
           | Returns (ended, pr) \<Rightarrow> (st\<lparr>stage := Over (In_child ended)\<rparr>, pr)
           | _ \<Rightarrow> (st\<lparr>stage := Over Crashed\<rparr>, pr0))"
proof -
  have same: "cgi_answers e = cgi_answers (heard st)" if "same_start (heard st) e" for e
    using that by (simp add: same_start_def)
  let ?started = "object_from (cgi_answers (heard st)) ctx path (req_headers q) pr0 :: ('c from_end \<times> process) outcome"
  have now: "serve (heard st) = run_cgi (heard st) ctx path q pr0" by (rule serve) simp
  have idle: "to_peer st = []" "to_client st = []" "reply_writes (heard st) = []"
    using assms(1) by (simp_all add: idle_run_def)
  show ?thesis
  proof (cases ?started)
    case (Returns x)
    obtain ended pr where x: "x = (ended, pr)" by fastforce
    show ?thesis
    proof (cases ended)
      case (Returned got)
      show ?thesis
      proof (cases got)
        case (Ok ob)
        have "run_cgi e ctx path q pr0 =
            (case exchange (Program ob) q (cgi_writes e) (cgi_reads e) (reply_writes e) of (x, out) \<Rightarrow> (x, out, pr))"
          if "same_start (heard st) e" for e
          using Returns x Returned Ok same [OF that]
          by (simp add: run_cgi_def cgi_exchange [symmetric] split: prod.split)
        then have "asks serve (heard st) (Program ob) q pr" using serve by (simp add: asks_def)
        from begin_exchange_inv [OF this] show ?thesis
          using Returns x Returned Ok assms(1) by (simp add: idle_run_def)
      next
        case (Err er)
        have "serve ((heard st)\<lparr>reply_writes := ws\<rparr>) = (reply ws (cgi_reply (Err er)), [], pr)" for ws
          using Returns x Returned Err serve
          by (simp add: run_cgi_def cgi_send_request_def reply_bind)
        then have "replies serve (heard st) (cgi_reply (Err er)) (to_peer st) pr"
          by (simp add: replies_def idle)
        from begin_reply_inv [OF this] show ?thesis using Returns x Returned Err idle by simp
      qed
    qed (use Returns x now idle in \<open>simp_all add: stage_inv_def run_cgi_def\<close>)
  qed (use now idle in \<open>simp_all add: stage_inv_def run_cgi_def\<close>)
qed

lemma run_proxy_inv:
  fixes st :: "'c conn_run"
  assumes "idle_run st"
    and serve: "\<And>e. same_start (heard st) e \<Longrightarrow> serve e = run_proxy e ctx ip port q pr0"
  shows "stage_inv serve pr0
    (case client_from (upstream_socket (heard st)) (upstream_connect (heard st)) ip port ctx (files pr0) of
             (Err e, t) \<Rightarrow> (begin_reply (proxy_reply (Err e)) st, pr0\<lparr>files := t\<rparr>)
           | (Ok client, t) \<Rightarrow> (begin_exchange (Upstream client) q st, pr0\<lparr>files := t\<rparr>))"
proof -
  have same: "upstream_socket e = upstream_socket (heard st)" "upstream_connect e = upstream_connect (heard st)"
    if "same_start (heard st) e" for e
    using that by (simp_all add: same_start_def)
  have idle: "to_peer st = []" "to_client st = []" "reply_writes (heard st) = []"
    using assms(1) by (simp_all add: idle_run_def)
  obtain started t where c: "client_from (upstream_socket (heard st)) (upstream_connect (heard st)) ip port ctx (files pr0)
      = (started, t)" by fastforce
  show ?thesis
  proof (cases started)
    case (Ok client)
    have "run_proxy e ctx ip port q pr0 =
        (case exchange (Upstream client) q (upstream_writes e) (upstream_reads e) (reply_writes e) of
          (x, out) \<Rightarrow> (x, out, pr0\<lparr>files := t\<rparr>))"
      if "same_start (heard st) e" for e
      using c Ok same [OF that]
      by (simp add: run_proxy_def proxy_exchange [symmetric] split: prod.split)
    then have "asks serve (heard st) (Upstream client) q (pr0\<lparr>files := t\<rparr>)" using serve by (simp add: asks_def)
    from begin_exchange_inv [OF this] show ?thesis using c Ok assms(1) by (simp add: idle_run_def)
  next
    case (Err er)
    have "serve ((heard st)\<lparr>reply_writes := ws\<rparr>) = (reply ws (proxy_reply (Err er)), [], pr0\<lparr>files := t\<rparr>)" for ws
      using c Err serve by (simp add: run_proxy_def)
    then have "replies serve (heard st) (proxy_reply (Err er)) (to_peer st) (pr0\<lparr>files := t\<rparr>)"
      by (simp add: replies_def idle)
    from begin_reply_inv [OF this] show ?thesis using c Err idle by simp
  qed
qed

lemma on_request_inv:
  assumes "idle_run st" "http_get_request (request_reads (heard st)) = Some (Returns (Ok req))"
  shows "stage_inv (\<lambda>e. serve_connection file e ctx conn info pr0) pr0 (on_request file ctx conn info req st pr0)"
proof -
  note served = serve_request [OF assms(2), of _ "file" ctx conn info pr0]
  have idle: "to_peer st = []" "to_client st = []" "reply_writes (heard st) = []"
    using assms(1) by (simp_all add: idle_run_def)
  let ?act = "bind_outcome (c_string (addr_ip (conn_addr conn))) (\<lambda>client_ip. handle_request file client_ip info req)"
  show ?thesis
  proof (cases ?act)
    case (Returns act)
    show ?thesis
    proof (cases act)
      case (Send r)
      have "replies (\<lambda>e. serve_connection file e ctx conn info pr0) (heard st) (Returns r) (to_peer st) pr0"
        using Returns Send served by (simp add: replies_def idle)
      from begin_reply_inv [OF this] show ?thesis using Returns Send idle by (simp add: on_request_def)
    next
      case (Run_cgi path q)
      from run_cgi_inv [OF assms(1), of "\<lambda>e. serve_connection file e ctx conn info pr0" ctx "path" q pr0] show ?thesis
        using Returns Run_cgi served by (simp add: on_request_def)
    next
      case (Proxy ip port q)
      from run_proxy_inv [OF assms(1), of "\<lambda>e. serve_connection file e ctx conn info pr0" ctx ip port q pr0] show ?thesis
        using Returns Proxy served by (simp add: on_request_def)
    qed
  qed (use served [of "heard st"] idle in \<open>simp_all add: on_request_def stage_inv_def\<close>)
qed

lemma get_request_inv:
  assumes "stage_inv (\<lambda>e. serve_connection file e ctx conn info pr0) pr0 (st, pr)" "stage st = Get_request p"
  shows "stage_inv (\<lambda>e. serve_connection file e ctx conn info pr0) pr0 (get_request_step file ctx conn info w p st pr)"
proof -
  let ?st = "st\<lparr>heard := (heard st)\<lparr>request_reads := request_reads (heard st) @ [w]\<rparr>\<rparr>"
  have r: "read_so_far RequestParser_call (\<lambda>p. Returns (request_create_entity p)) http_error_of_io
            (request_reads (heard st)) RequestParser p" and pr: "pr = pr0" and idle: "idle_run ?st"
    using assms by (simp_all add: stage_inv_def Let_def idle_run_def)
  note next_step = read_so_far_step [OF r, of w]
  show ?thesis
  proof (cases "read_step RequestParser_call (\<lambda>p. Returns (request_create_entity p)) http_error_of_io w p")
    case (Inl p')
    with next_step idle pr show ?thesis
      by (simp add: get_request_step_def stage_inv_def Let_def idle_run_def)
  next
    case (Inr res)
    with next_step have got: "http_get_request (request_reads (heard ?st)) = Some res"
      by (simp add: http_get_request_def)
    show ?thesis
    proof (cases res)
      case (Returns req)
      show ?thesis
      proof (cases req)
        case (Ok q)
        with on_request_inv [OF idle, of q] got Inr Returns pr show ?thesis
          by (simp add: get_request_step_def)
      next
        case (Err e)
        with got Inr Returns pr idle show ?thesis
          by (simp add: get_request_step_def stage_inv_def serve_connection_def idle_run_def)
      qed
    qed (use got Inr pr idle in \<open>simp_all add: get_request_step_def stage_inv_def serve_connection_def idle_run_def\<close>)
  qed
qed

lemma conn_step_inv:
  assumes "stage_inv (\<lambda>e. serve_connection file e ctx conn info pr0) pr0 s"
  shows "stage_inv (\<lambda>e. serve_connection file e ctx conn info pr0) pr0 (conn_step file ctx conn info w s)"
proof -
  obtain st pr where s: "s = (st, pr)" by fastforce
  show ?thesis
    using assms by (cases "stage st"; cases w)
      (simp_all add: s conn_step_def get_request_inv send_on_inv get_answer_inv send_reply_inv)
qed

lemma conn_start_inv: "stage_inv serve pr0 (conn_start e, pr0)"
  by (simp add: conn_start_def stage_inv_def read_so_far_Nil)

subsection \<open>What a connection has heard\<close>

text \<open>The wake-ups that the handlers were called with, in order; none is invented or moved.\<close>

fun awaits :: "'c stage \<Rightarrow> wakeup \<Rightarrow> bool" where
  "awaits (Get_request p) w = (\<exists>v. w = Read_ready v)"
| "awaits (Send_on peer wr) w = (\<exists>v. w = Write_ready v)"
| "awaits (Get_answer peer p) w = (\<exists>v. w = Read_ready v)"
| "awaits (Send_reply r wr) w = (\<exists>v. w = Write_ready v)"
| "awaits (Over x) w = False"

fun taken ::
  "(string \<Rightarrow> bytes option) \<Rightarrow> 'c \<Rightarrow> 'd connection \<Rightarrow> server list \<Rightarrow> wakeup list \<Rightarrow> 'c conn_run \<times> process \<Rightarrow>
   wakeup list" where
  "taken file ctx conn info [] s = []"
| "taken file ctx conn info (w # ws) s =
     (if awaits (stage (fst s)) w then [w] else []) @
     taken file ctx conn info ws (conn_step file ctx conn info w s)"

definition heard_list :: "surroundings \<Rightarrow> wakeup list" where
  "heard_list h = map Read_ready (request_reads h) @ map Write_ready (cgi_writes h @ upstream_writes h) @
     map Read_ready (cgi_reads h @ upstream_reads h) @ map Write_ready (reply_writes h)"

fun other_lists :: "'c peer \<Rightarrow> surroundings \<Rightarrow> bool" where
  "other_lists (Program ob) h = (upstream_writes h = [] \<and> upstream_reads h = [])"
| "other_lists (Upstream c) h = (cgi_writes h = [] \<and> cgi_reads h = [])"

definition heard_inv :: "'c conn_run \<Rightarrow> bool" where
  "heard_inv st \<longleftrightarrow> (case stage st of
     Get_request p \<Rightarrow> idle_run st
   | Send_on peer wr \<Rightarrow> other_lists peer (heard st) \<and> peer_reads peer (heard st) = [] \<and> reply_writes (heard st) = []
   | Get_answer peer p \<Rightarrow> other_lists peer (heard st) \<and> reply_writes (heard st) = []
   | _ \<Rightarrow> True)"

lemma begin_simps [simp]:
  "heard (begin_reply r st) = heard st" "heard (begin_exchange peer q st) = heard st"
  by (simp_all add: begin_reply_def begin_exchange_def)

lemma begin_heard_inv:
  "heard_inv (begin_reply r st)"
  "other_lists peer (heard st) \<Longrightarrow> peer_reads peer (heard st) = [] \<Longrightarrow> reply_writes (heard st) = [] \<Longrightarrow>
     heard_inv (begin_exchange peer q st)"
  by (simp_all add: heard_inv_def begin_reply_def begin_exchange_def split: outcome.split option.split)

lemma on_request_heard:
  assumes "idle_run st"
  shows "heard (fst (on_request file ctx conn info req st pr)) = heard st \<and>
    heard_inv (fst (on_request file ctx conn info req st pr))"
proof -
  have e: "heard_inv (begin_exchange peer q st)" for peer q
    using assms by (intro begin_heard_inv(2)) (cases peer; simp add: idle_run_def)+
  show ?thesis
    by (simp add: on_request_def e begin_heard_inv heard_inv_def [of "st\<lparr>stage := Over x\<rparr>" for x]
        split: outcome.split action.split from_end.split res.split prod.split)
qed

lemma conn_step_heard:
  assumes "heard_inv st"
  shows "heard_inv (fst (conn_step file ctx conn info w (st, pr))) \<and>
    heard_list (heard (fst (conn_step file ctx conn info w (st, pr)))) =
      heard_list (heard st) @ (if awaits (stage st) w then [w] else [])"
proof (cases "awaits (stage st) w")
  case False
  then have "conn_step file ctx conn info w (st, pr) = (st, pr)"
    by (cases "stage st"; cases w) (simp_all add: conn_step_def)
  with False assms show ?thesis by simp
next
  case True
  show ?thesis
  proof (cases "stage st")
    case (Get_request p)
    with True obtain v where w: "w = Read_ready v" by auto
    let ?st = "st\<lparr>heard := (heard st)\<lparr>request_reads := request_reads (heard st) @ [v]\<rparr>\<rparr>"
    have idle: "idle_run ?st" using assms Get_request by (simp add: heard_inv_def idle_run_def)
    have on: "heard (fst (on_request file ctx conn info req ?st pr)) = heard ?st \<and>
        heard_inv (fst (on_request file ctx conn info req ?st pr))" for req
      by (rule on_request_heard [OF idle])
    have "heard (fst (get_request_step file ctx conn info v p st pr)) = heard ?st \<and>
        heard_inv (fst (get_request_step file ctx conn info v p st pr))"
      using on idle
      by (auto simp: get_request_step_def Let_def heard_inv_def [of "_\<lparr>stage := _\<rparr>"] idle_run_def
        split: sum.split outcome.split res.split)
    with True Get_request w idle show ?thesis by (simp add: conn_step_def heard_list_def idle_run_def)
  next
    case (Send_on peer wr)
    with True obtain v where w: "w = Write_ready v" by auto
    have "heard (send_on_step v peer wr st) = hear_write peer v (heard st) \<and> heard_inv (send_on_step v peer wr st)"
      using assms Send_on by (cases peer)
        (auto simp: send_on_step_def Let_def heard_inv_def [of st] begin_heard_inv heard_inv_def [of "_\<lparr>stage := _\<rparr>"]
          split: prod.split sum.split res.split)
    with True Send_on w assms show ?thesis
      by (cases peer) (simp_all add: conn_step_def heard_list_def heard_inv_def)
  next
    case (Get_answer peer p)
    with True obtain v where w: "w = Read_ready v" by auto
    have "heard (get_answer_step v peer p st) = hear_read peer v (heard st) \<and> heard_inv (get_answer_step v peer p st)"
      using assms Get_answer by (cases peer)
        (auto simp: get_answer_step_def Let_def heard_inv_def [of st] begin_heard_inv heard_inv_def [of "_\<lparr>stage := _\<rparr>"]
          split: sum.split)
    with True Get_answer w assms show ?thesis
      by (cases peer) (simp_all add: conn_step_def heard_list_def heard_inv_def)
  next
    case (Send_reply r wr)
    with True obtain v where w: "w = Write_ready v" by auto
    have "heard (send_reply_step v r wr st) = (heard st)\<lparr>reply_writes := reply_writes (heard st) @ [v]\<rparr> \<and>
        heard_inv (send_reply_step v r wr st)"
      by (auto simp: send_reply_step_def Let_def heard_inv_def split: prod.split sum.split)
    with True Send_reply w show ?thesis by (simp add: conn_step_def heard_list_def)
  qed (use True in simp)
qed

lemma conn_fold_heard:
  "heard_inv (fst s) \<Longrightarrow>
     heard_list (heard (fst (fold (conn_step file ctx conn info) ws s))) =
       heard_list (heard (fst s)) @ taken file ctx conn info ws s"
proof (induction ws arbitrary: s)
  case Nil
  then show ?case by simp
next
  case (Cons w ws)
  with conn_step_heard [of "fst s" "file" ctx conn info w "snd s"] show ?case by simp
qed

lemma conn_fold_inv:
  "stage_inv (\<lambda>e. serve_connection file e ctx conn info pr0) pr0 s \<Longrightarrow>
     stage_inv (\<lambda>e. serve_connection file e ctx conn info pr0) pr0 (fold (conn_step file ctx conn info) ws s)"
  by (induction ws arbitrary: s) (simp_all add: conn_step_inv)

lemma conn_start_heard: "heard_inv (conn_start e)" "heard_list (heard (conn_start e)) = []"
  by (simp_all add: heard_inv_def conn_start_def idle_run_def heard_list_def)

section \<open>Properties\<close>

text \<open>
  Property C17: the chain of handlers is the connection. Whatever wake-ups come, and in whatever
  state the connection is then: \<open>serve_connection\<close>, given the wake-ups that the handlers were
  called with (all that were awaited, in their order), ends with what the connection shows: the
  reply it is sending or has sent, what the program or upstream server has been sent, and the
  same process.
\<close>

theorem connection_steps_refine:
  "case fold (conn_step file ctx conn info) ws (conn_start e, pr0) of
     (st, pr) \<Rightarrow>
       heard_list (heard st) = taken file ctx conn info ws (conn_start e, pr0) \<and>
       serve_connection file (heard st) ctx conn info pr0 = (conn_view st, to_peer st, pr)"
proof -
  let ?s = "fold (conn_step file ctx conn info) ws (conn_start e, pr0)"
  have "stage_inv (\<lambda>e. serve_connection file e ctx conn info pr0) pr0 (fst ?s, snd ?s)"
    using conn_fold_inv [OF conn_start_inv] by simp
  from stage_inv_view [OF this] have
    "serve_connection file (heard (fst ?s)) ctx conn info pr0 = (conn_view (fst ?s), to_peer (fst ?s), snd ?s)"
    by (simp add: serve_connection_def)
  moreover have "heard_list (heard (fst ?s)) = taken file ctx conn info ws (conn_start e, pr0)"
    using conn_fold_heard [of "(conn_start e, pr0)" "file" ctx conn info ws] by (simp add: conn_start_heard)
  ultimately show ?thesis by (simp add: case_prod_beta)
qed

end
