(* ===== verification/Web_Loop.thy ===== *)
theory Web_Loop
  imports Event_Loop Conn_Steps
begin

text \<open>
  The program as it runs: \<open>main\<close>, the chain of \<open>server_pipeline\<close> calls that accepts connections,
  the handlers of the connections, and the event loop with the executor \<open>same_thread\<close>, so that a
  handler runs where the loop hands it over, before the next event. What the handler of a
  connection does is \<open>conn_step\<close> of \<open>Conn_Steps\<close>; here it waits for its turn among the others, on one
  listener and one table of descriptors.
\<close>

section \<open>Accepting connections for ever\<close>

subsection \<open>The handlers\<close>

text \<open>
  The handler of a server, by its number, or of a connection, with the server it came from and
  what the handler has captured.
\<close>

datatype 'c handler = Accepting nat | Serving nat "'c connection" "'c conn_run"

definition register ::
  "(int \<Rightarrow> string) \<Rightarrow> unit sys \<Rightarrow> 64 word \<Rightarrow> 'h \<Rightarrow> 'h loop \<Rightarrow> 'h loop outcome" where
  "register strerror answer ev h s =
     bind_outcome (add_handler_for_event strerror answer ev h (ctx s)) (\<lambda>c.
       Returns (s\<lparr>ctx := c, added := added s @ [(event_fd ev, h, the (event_type ev))]\<rparr>))"

abbreviation server_fd :: "'c http_server list \<Rightarrow> nat \<Rightarrow> fd" where
  "server_fd servers i \<equiv> acceptor_fd (server_acceptor (servers ! i))"

text \<open>\<open>server_pipeline\<close> itself only asks for the next connection.\<close>

definition server_pipeline ::
  "(int \<Rightarrow> string) \<Rightarrow> unit sys \<Rightarrow> 'c http_server list \<Rightarrow> nat \<Rightarrow> 'c handler loop \<Rightarrow>
   'c handler loop outcome" where
  "server_pipeline strerror answer servers i s =
     register strerror answer (when_acceptable (server_fd servers i)) (Accepting i) s"

text \<open>
  The callback of \<open>get_conn\<close>: first the next connection is asked for, then the result is looked
  at; \<open>get_request\<close> waits for the first bytes of a new connection. (\<open>e\<close> is what the kernel is going
  to answer when this connection needs a program or an upstream server.)
\<close>

definition on_connection ::
  "(int \<Rightarrow> string) \<Rightarrow> unit sys \<Rightarrow> unit sys \<Rightarrow> surroundings \<Rightarrow> 'c http_server list \<Rightarrow> nat \<Rightarrow>
   ('c connection, io_error) res \<Rightarrow> 'c handler loop \<Rightarrow> 'c handler loop outcome" where
  "on_connection strerror again first e servers i res s =
     bind_outcome (server_pipeline strerror again servers i s) (\<lambda>s.
       case res of
         Err e \<Rightarrow> Returns s
       | Ok conn \<Rightarrow>
           register strerror first (when_readable (socket_fd (conn_sock conn)))
             (Serving i conn (conn_start e)) s)"

text \<open>What the handler of a connection asks the listener for before it returns.\<close>

fun peer_input :: "'c peer \<Rightarrow> fd" where
  "peer_input (Program ob) = sender_fd (async_sender (to_cgi ob))"
| "peer_input (Upstream c) = socket_fd (client_sock c)"

fun peer_output :: "'c peer \<Rightarrow> fd" where
  "peer_output (Program ob) = receiver_fd (async_receiver (from_cgi ob))"
| "peer_output (Upstream c) = socket_fd (client_sock c)"

fun waits_on :: "'c connection \<Rightarrow> 'c stage \<Rightarrow> 64 word option" where
  "waits_on conn (Get_request p) = Some (when_readable (socket_fd (conn_sock conn)))"
| "waits_on conn (Send_on peer wr) = Some (when_writable (peer_input peer))"
| "waits_on conn (Get_answer peer p) = Some (when_readable (peer_output peer))"
| "waits_on conn (Send_reply r wr) = Some (when_writable (socket_fd (conn_sock conn)))"
| "waits_on conn (Over x) = None"

definition wait_next ::
  "(int \<Rightarrow> string) \<Rightarrow> unit sys \<Rightarrow> nat \<Rightarrow> 'c connection \<Rightarrow> 'c conn_run \<Rightarrow> 'c handler loop \<Rightarrow>
   'c handler loop outcome" where
  "wait_next strerror answer i conn st s =
     (case waits_on conn (stage st) of
        None \<Rightarrow> Returns s
      | Some ev \<Rightarrow> register strerror answer ev (Serving i conn st) s)"

text \<open>The descriptors whose owners the handler of a connection has captured.\<close>

fun handles :: "'c connection \<Rightarrow> 'c stage \<Rightarrow> fd set" where
  "handles conn (Get_request p) = {socket_fd (conn_sock conn)}"
| "handles conn (Send_on peer wr) = {socket_fd (conn_sock conn), peer_input peer, peer_output peer}"
| "handles conn (Get_answer peer p) = {socket_fd (conn_sock conn), peer_output peer}"
| "handles conn (Send_reply r wr) = {socket_fd (conn_sock conn)}"
| "handles conn (Over x) = {}"

subsection \<open>The program\<close>

text \<open>The last loop of \<open>async_main\<close>, over the servers it created, before \<open>context.loop()\<close>.\<close>

fun start_pipelines ::
  "(int \<Rightarrow> string) \<Rightarrow> (nat \<Rightarrow> unit sys) \<Rightarrow> 'c http_server list \<Rightarrow> nat list \<Rightarrow> 'c handler loop \<Rightarrow>
   'c handler loop outcome" where
  "start_pipelines strerror answers servers [] s = Returns s"
| "start_pipelines strerror answers servers (i # is) s =
     bind_outcome (server_pipeline strerror (answers i) servers i s)
       (start_pipelines strerror answers servers is)"

text \<open>An event is deleted and its handler handed to \<open>same_thread\<close>, which runs it at once.\<close>

definition hand_over :: "(int \<Rightarrow> string) \<Rightarrow> 'h loop \<Rightarrow> fd \<times> 'h \<times> event_type \<Rightarrow> 'h loop \<Rightarrow> bool" where
  "hand_over strerror s e t =
     (\<exists>u. loop_step strerror s Delete u \<and> loop_step strerror u Fetch t \<and> running t = [e])"

text \<open>An exception in a handler ends the program, and a child process does not return to the loop.\<close>

fun goes_on :: "'c stage \<Rightarrow> bool" where
  "goes_on (Over Crashed) = False"
| "goes_on (Over (In_child x)) = False"
| "goes_on _ = True"

fun event_of :: "wakeup \<Rightarrow> event_type" where
  "event_of (Read_ready w) = r_event w"
| "event_of (Write_ready w) = fst w"

text \<open>Beside the loop and the process, what has been accepted and which connections are over.\<close>

record 'c web =
  events :: "'c handler loop"
  proc :: process
  accepted :: "(nat \<times> 'c connection) list"
  finished :: "(nat \<times> 'c connection \<times> 'c conn_run) list"

definition web_init :: "'c handler loop \<Rightarrow> process \<Rightarrow> 'c web" where
  "web_init s pr = \<lparr>events = s, proc = pr, accepted = [], finished = []\<rparr>"

text \<open>
  The kernel hands out descriptors that are not in use (those for a program or an upstream server when
  the request is complete); number 0 stands for no descriptor.
\<close>

definition fresh_accept :: "accept_answer \<Rightarrow> table \<Rightarrow> bool" where
  "fresh_accept answer t \<longleftrightarrow> (case answer of Sys_ok (n, _) \<Rightarrow> t n = None | Sys_errno _ \<Rightarrow> True)"

definition fresh_answers :: "surroundings \<Rightarrow> table \<Rightarrow> bool" where
  "fresh_answers e t \<longleftrightarrow> fresh_pipes (cgi_answers e) t \<and>
     (case upstream_socket e of Sys_ok (n, _) \<Rightarrow> t n = None | Sys_errno _ \<Rightarrow> True)"

fun reading_request :: "'c stage \<Rightarrow> bool" where
  "reading_request (Get_request p) = True"
| "reading_request _ = False"

text \<open>
  A step: the kernel reports events; the handler of a server or of a connection runs; or a
  descriptor is closed whose owner no server and no waiting handler has any more.
\<close>

inductive web_step ::
  "(int \<Rightarrow> string) \<Rightarrow> (string \<Rightarrow> bytes option) \<Rightarrow> 'c \<Rightarrow> 'c http_server list \<Rightarrow> (nat \<Rightarrow> server list) \<Rightarrow>
   'c web \<Rightarrow> 'c web \<Rightarrow> bool"
  for strerror "file" cx servers infos
where
  asks_kernel: "loop_step strerror (events x) (Report es) u \<Longrightarrow>
    web_step strerror file cx servers infos x (x\<lparr>events := u\<rparr>)"
| accepts: "hand_over strerror (events x) (f, Accepting i, ty) u \<Longrightarrow>
    get_conn (ty, answer) (servers ! i) (files (proc x)) = Returns (res, t) \<Longrightarrow>
    on_connection strerror again first e servers i res u = Returns v \<Longrightarrow>
    loop_step strerror v (Run 0) w \<Longrightarrow> fresh_accept answer (files (proc x)) \<Longrightarrow>
    web_step strerror file cx servers infos x
      (x\<lparr>events := w, proc := (proc x)\<lparr>files := t\<rparr>,
         accepted := accepted x @ (case res of Ok conn \<Rightarrow> [(i, conn)] | Err _ \<Rightarrow> [])\<rparr>)"
| serves: "hand_over strerror (events x) (f, Serving i conn st, ty) u \<Longrightarrow>
    event_of w = ty \<Longrightarrow> awaits (stage st) w \<Longrightarrow>
    conn_step file cx conn (infos i) w (st, proc x) = (st', pr) \<Longrightarrow> goes_on (stage st') \<Longrightarrow>
    wait_next strerror answer i conn st' u = Returns v \<Longrightarrow>
    loop_step strerror v (Run 0) z \<Longrightarrow>
    (reading_request (stage st) \<and> \<not> reading_request (stage st') \<longrightarrow>
       fresh_answers (heard st) (files (proc x))) \<Longrightarrow>
    web_step strerror file cx servers infos x
      (x\<lparr>events := z, proc := pr,
         finished := finished x @ (if waits_on conn (stage st') = None then [(i, conn, st')] else [])\<rparr>)"
| closes: "n \<noteq> 0 \<Longrightarrow> n \<notin> server_fd servers ` {..<length servers} \<Longrightarrow>
    \<forall>f i conn st. stored (events x) f = Some (Serving i conn st) \<longrightarrow> n \<notin> handles conn (stage st) \<Longrightarrow>
    web_step strerror file cx servers infos x (x\<lparr>proc := (proc x)\<lparr>files := os_close n (files (proc x))\<rparr>\<rparr>)"

inductive web_run ::
  "(int \<Rightarrow> string) \<Rightarrow> (string \<Rightarrow> bytes option) \<Rightarrow> 'c \<Rightarrow> 'c http_server list \<Rightarrow> (nat \<Rightarrow> server list) \<Rightarrow>
   'c web \<Rightarrow> 'c web \<Rightarrow> bool"
  for strerror "file" cx servers infos x0
where
  web_start: "web_run strerror file cx servers infos x0 x0"
| web_more: "web_run strerror file cx servers infos x0 x \<Longrightarrow> web_step strerror file cx servers infos x y \<Longrightarrow>
    web_run strerror file cx servers infos x0 y"

text \<open>
  What holds between two events: every server is registered, by its own descriptor, and nothing
  else is registered as a server.
\<close>

definition accepting :: "'c http_server list \<Rightarrow> nat set \<Rightarrow> 'c handler loop \<Rightarrow> bool" where
  "accepting servers is s =
     ((\<forall>i\<in>is. stored s (server_fd servers i) = Some (Accepting i) \<and>
        watch s (server_fd servers i) = Some (Poll_in, when_acceptable (server_fd servers i))) \<and>
      (\<forall>f i. stored s f = Some (Accepting i) \<longrightarrow> i \<in> is \<and> f = server_fd servers i))"

definition between :: "'h loop \<Rightarrow> bool" where
  "between s = (loop_inv s \<and> deleted s = None \<and> running s = [])"

subsection \<open>Lemmas\<close>

lemma acceptingD:
  assumes "accepting servers is s"
  shows "i \<in> is \<Longrightarrow> stored s (server_fd servers i) = Some (Accepting i)"
    "i \<in> is \<Longrightarrow> watch s (server_fd servers i) = Some (Poll_in, when_acceptable (server_fd servers i))"
    "stored s f = Some (Accepting i) \<Longrightarrow> i \<in> is"
    "stored s f = Some (Accepting i) \<Longrightarrow> f = server_fd servers i"
  using assms unfolding accepting_def by blast+

lemma acceptable_event:
  "event_fd (when_acceptable f) = f" "event_type (when_acceptable f) = Some TO_ACCEPT"
  "interest_of (when_acceptable f) = Some Poll_in"
  by (simp_all add: when_acceptable_def event_fd_mk event_type_mk interest_of_def)

lemma register_Returns:
  "register strerror answer ev h s = Returns t \<longleftrightarrow>
     (\<exists>i. interest_of ev = Some i \<and> watch s (event_fd ev) = None \<and> answer = Sys_ok () \<and>
       t = s\<lparr>ctx := (ctx s)\<lparr>listener := (listener (ctx s))\<lparr>watched := (watch s)(event_fd ev \<mapsto> (i, ev))\<rparr>,
              handlers := (stored s)(event_fd ev \<mapsto> h)\<rparr>,
            added := added s @ [(event_fd ev, h, the (event_type ev))]\<rparr>)"
  by (auto simp: register_def bind_outcome_Returns_iff add_handler_Returns)

lemma register_step:
  assumes "register strerror answer ev h s = Returns t"
  shows "loop_step strerror s (Add ev h answer) t"
proof -
  obtain c where c: "add_handler_for_event strerror answer ev h (ctx s) = Returns c"
      "t = s\<lparr>ctx := c, added := added s @ [(event_fd ev, h, the (event_type ev))]\<rparr>"
    using assms by (auto simp: register_def bind_outcome_Returns_iff)
  moreover from c(1) obtain w where "event_type ev = Some w"
    by (auto simp: add_handler_Returns interest_of_def split: option.splits)
  ultimately show ?thesis using step_add [OF c(1)] by simp
qed

lemma register_keeps:
  assumes "register strerror answer ev h s = Returns t" "loop_inv s" "deleted s = None"
  shows "loop_inv t \<and> deleted t = None \<and> running t = running s"
proof -
  have "loop_inv t"
    using loop_step_inv [OF assms(2) _ register_step [OF assms(1)]] assms(3) by (simp add: orderly_def)
  with assms(1,3) show ?thesis by (auto simp: register_Returns)
qed

lemma register_tables:
  assumes "register strerror answer ev h s = Returns t"
  shows "stored t = (stored s)(event_fd ev \<mapsto> h)" "watch s (event_fd ev) = None"
    "\<exists>i. interest_of ev = Some i \<and> watch t = (watch s)(event_fd ev \<mapsto> (i, ev))"
  using assms by (auto simp: register_Returns)

lemma register_server:
  assumes "server_pipeline strerror answer servers i s = Returns t" "accepting servers is s"
  shows "accepting servers (insert i is) t"
proof -
  note r = register_tables [OF assms(1) [unfolded server_pipeline_def], unfolded acceptable_event]
  have "server_fd servers j \<noteq> server_fd servers i" if "j \<in> is" for j
    using acceptingD(2) [OF assms(2) that] r(2) by auto
  then show ?thesis
    using r(3) acceptingD(1,2) [OF assms(2)] acceptingD(3,4) [OF assms(2)]
    unfolding accepting_def r(1) by (intro conjI ballI allI impI) (auto split: if_splits simp del: One_nat_def)
qed

lemma register_connection:
  assumes "register strerror answer ev (Serving j c st) s = Returns t" "accepting servers is s"
  shows "accepting servers is t"
proof -
  note r = register_tables [OF assms(1)]
  have "server_fd servers i \<noteq> event_fd ev" if "i \<in> is" for i
    using acceptingD(2) [OF assms(2) that] r(2) by auto
  then show ?thesis
    using r(3) acceptingD(1,2) [OF assms(2)] acceptingD(3,4) [OF assms(2)]
    unfolding accepting_def r(1) by (intro conjI ballI allI impI) (auto split: if_splits)
qed

lemma wait_next_keeps:
  assumes "wait_next strerror answer i conn st s = Returns t" "accepting servers is s" "loop_inv s" "deleted s = None"
  shows "accepting servers is t \<and> loop_inv t \<and> deleted t = None \<and> running t = running s"
proof (cases "waits_on conn (stage st)")
  case None
  with assms show ?thesis by (simp add: wait_next_def)
next
  case (Some ev)
  with assms(1) have r: "register strerror answer ev (Serving i conn st) s = Returns t"
    by (simp add: wait_next_def)
  with register_connection [OF r] register_keeps [OF r] assms show ?thesis by simp
qed

text \<open>The handler that is handed over is the one stored; the other registrations stay.\<close>

lemma hand_over_is:
  assumes "hand_over strerror s (f, h, ty) t" "between s"
  shows "loop_inv t \<and> deleted t = None \<and> stored s f = Some h \<and>
    stored t = (stored s)(f := None) \<and> watch t = (watch s)(f := None)"
proof -
  from assms(2) have inv: "loop_inv s" by (simp add: between_def)
  from assms(1) obtain u where u: "loop_step strerror s Delete u" "loop_step strerror u Fetch t"
      "running t = [(f, h, ty)]"
    by (auto simp: hand_over_def)
  have iu: "loop_inv u" by (rule loop_step_inv [OF inv _ u(1)]) (simp add: orderly_def)
  have it: "loop_inv t" by (rule loop_step_inv [OF iu _ u(2)]) (simp add: orderly_def)
  from u(1) obtain ev rest where ev: "batch s = ev # rest" "u = delete_step strerror ev rest s"
    by (cases rule: loop_step.cases) auto
  note du = delete_step_is [OF inv ev(1)]
  from u(2) obtain ev' ty' where "deleted u = Some ev'" "t = fetch_step ev' ty' u" "event_type ev' = Some ty'"
    by (cases rule: loop_step.cases) auto
  moreover from this(1) have "ev' = ev" by (simp add: ev(2) du)
  ultimately have t: "t = fetch_step ev ty' u" "deleted u = Some ev" "event_type ev = Some ty'" by simp_all
  obtain h' where h': "stored u (event_fd ev) = Some h'" using fetch_keeps(3) [OF iu t(2,3)] by blast
  then have ft: "t = u\<lparr>ctx := (ctx u)\<lparr>handlers := (stored u)(event_fd ev := None)\<rparr>, deleted := None,
      running := running u @ [(event_fd ev, h', ty')], started := started u @ [(event_fd ev, h', ty')]\<rparr>"
    by (simp add: t(1) fetch_step_def get_handler_def)
  with u(3) have "running u @ [(event_fd ev, h', ty')] = [(f, h, ty)]" by simp
  then have "event_fd ev = f" "h' = h" by simp_all
  with it h' show ?thesis by (simp add: ft ev(2) du)
qed

lemma hand_over_possible:
  assumes "between s" "batch s \<noteq> []"
  shows "\<exists>e u. hand_over strerror s e u"
proof -
  from assms(1) have inv: "loop_inv s" "deleted s = None" "running s = []" by (simp_all add: between_def)
  then have ok: "loop_exn s = None" by (simp add: loop_inv_def)
  from assms(2) obtain ev rest where b: "batch s = ev # rest" by (cases "batch s") auto
  let ?u = "delete_step strerror ev rest s"
  have u: "loop_step strerror s Delete ?u" by (rule step_delete [OF ok inv(2) b])
  have iu: "loop_inv ?u" by (rule loop_step_inv [OF inv(1) _ u]) (simp add: orderly_def)
  have du: "deleted ?u = Some ev" "running ?u = []" by (simp_all add: delete_step_is [OF inv(1) b] inv)
  then obtain ty where ty: "event_type ev = Some ty" using iu by (auto simp: loop_inv_def batch_ok_def)
  have "loop_exn ?u = None" using iu by (simp add: loop_inv_def)
  from step_fetch [OF this du(1) ty] have "loop_step strerror ?u Fetch (fetch_step ev ty ?u)" .
  moreover obtain h where "stored ?u (event_fd ev) = Some h" using fetch_keeps(3) [OF iu du(1) ty] by blast
  then have "running (fetch_step ev ty ?u) = [(event_fd ev, h, ty)]"
    by (simp add: fetch_step_def get_handler_def du(2))
  ultimately show ?thesis using u unfolding hand_over_def by blast
qed

text \<open>What is between two events after a handler of a server or a connection has run.\<close>

definition web_inv :: "'c http_server list \<Rightarrow> 'c handler loop \<Rightarrow> bool" where
  "web_inv servers s = (between s \<and> accepting servers {..<length servers} s)"

lemma start_keeps:
  assumes "start_pipelines strerror answers servers js s = Returns t"
    "accepting servers is s" "between s" "batch s = []"
  shows "accepting servers (set js \<union> is) t \<and> between t \<and> batch t = []"
  using assms
proof (induction js arbitrary: "is" s)
  case Nil
  then show ?case by simp
next
  case (Cons j js)
  then obtain u where u: "server_pipeline strerror (answers j) servers j s = Returns u"
      "start_pipelines strerror answers servers js u = Returns t"
    by (auto simp: bind_outcome_Returns_iff)
  have "accepting servers (insert j is) u" using register_server [OF u(1)] Cons.prems by blast
  moreover have "between u" "batch u = []"
    using register_keeps [OF u(1) [unfolded server_pipeline_def]] Cons.prems u(1)
    by (auto simp: between_def server_pipeline_def register_Returns)
  ultimately show ?case using Cons.IH [OF u(2), of "insert j is"] by simp
qed

lemma run_last:
  assumes "loop_step strerror s (Run 0) t" "loop_inv s" "deleted s = None" "running s = [e]"
    "accepting servers is s"
  shows "between t \<and> accepting servers is t"
proof -
  have "loop_inv t" by (rule loop_step_inv [OF assms(2) _ assms(1)]) (simp add: orderly_def)
  moreover have "running t = []" "deleted t = None" "ctx t = ctx s"
    using assms(1,3,4) by (auto elim: loop_step.cases)
  ultimately show ?thesis using assms(5) by (simp add: between_def accepting_def)
qed

text \<open>While the handler of a server runs, the others are registered.\<close>

lemma hand_over_rest:
  assumes "hand_over strerror s (f, h, ty) u" "web_inv servers s"
  shows "accepting servers ({..<length servers} - (case h of Accepting i \<Rightarrow> {i} | _ \<Rightarrow> {})) u"
proof -
  from assms(2) have acc: "accepting servers {..<length servers} s" and "between s"
    by (simp_all add: web_inv_def)
  then have d: "stored s f = Some h" "stored u = (stored s)(f := None)" "watch u = (watch s)(f := None)"
    using hand_over_is [OF assms(1)] by simp_all
  have "server_fd servers j \<noteq> f"
    if "j \<in> {..<length servers} - (case h of Accepting i \<Rightarrow> {i} | _ \<Rightarrow> {})" for j
    using acceptingD(1) [OF acc, of j] that d(1) by (auto split: handler.splits)
  moreover have "j \<in> {..<length servers} - (case h of Accepting i \<Rightarrow> {i} | _ \<Rightarrow> {})"
    if "stored u g = Some (Accepting j)" for g j
    using acceptingD(3,4) [OF acc, of g j] acceptingD(4) [OF acc, of f] that d
    by (auto split: if_splits handler.splits)
  moreover have "g = server_fd servers j" if "stored u g = Some (Accepting j)" for g j
    using acceptingD(4) [OF acc, of g j] that d(2) by (auto split: if_splits)
  ultimately show ?thesis
    using acceptingD(1,2) [OF acc] unfolding accepting_def d(2,3) by (intro conjI ballI allI impI) auto
qed

lemma web_step_inv:
  assumes "web_step strerror file cx servers infos x y" "web_inv servers (events x)"
  shows "web_inv servers (events y)"
  using assms(1)
proof (cases rule: web_step.cases)
  case (asks_kernel es u)
  have "loop_inv u"
    by (rule loop_step_inv [OF _ _ asks_kernel(2)]) (use assms(2) in
      \<open>simp_all add: web_inv_def between_def orderly_def\<close>)
  moreover have "ctx u = ctx (events x)" "running u = running (events x)" "deleted u = deleted (events x)"
    using asks_kernel(2) by (auto elim: loop_step.cases)
  ultimately show ?thesis using assms(2) by (simp add: asks_kernel(1) web_inv_def between_def accepting_def)
next
  case (accepts f i ty u answer res t again first e v w)
  have d: "loop_inv u" "deleted u = None" "stored (events x) f = Some (Accepting i)"
      "running u = [(f, Accepting i, ty)]"
    using hand_over_is [OF accepts(2)] assms(2) accepts(2) by (auto simp: web_inv_def hand_over_def)
  have i: "i < length servers"
    using acceptingD(3) [OF _ d(3)] assms(2) by (auto simp: web_inv_def)
  obtain v1 where v1: "server_pipeline strerror again servers i u = Returns v1"
    using accepts(4) by (auto simp: on_connection_def bind_outcome_Returns_iff)
  have all: "insert i ({..<length servers} - {i}) = {..<length servers}" using i by auto
  have "accepting servers ({..<length servers} - {i}) u"
    using hand_over_rest [OF accepts(2) assms(2)] by simp
  from register_server [OF v1 this] have a1: "accepting servers {..<length servers} v1"
    unfolding all .
  have k1: "loop_inv v1 \<and> deleted v1 = None \<and> running v1 = running u"
    by (rule register_keeps [OF v1 [unfolded server_pipeline_def] d(1,2)])
  have "accepting servers {..<length servers} v \<and> loop_inv v \<and> deleted v = None \<and> running v = running u"
  proof (cases res)
    case (Ok conn)
    then have "register strerror first (when_readable (socket_fd (conn_sock conn)))
        (Serving i conn (conn_start e)) v1 = Returns v"
      using accepts(4) v1 by (simp add: on_connection_def)
    with register_connection [OF this a1] register_keeps [OF this] k1 show ?thesis by simp
  next
    case (Err e)
    with accepts(4) v1 a1 k1 show ?thesis by (simp add: on_connection_def)
  qed
  with run_last [OF accepts(5)] d(4) show ?thesis by (auto simp: accepts(1) web_inv_def)
next
  case (serves f i conn st ty u w st' pr answer v z)
  have d: "loop_inv u" "deleted u = None" "running u = [(f, Serving i conn st, ty)]"
    using hand_over_is [OF serves(2)] assms(2) serves(2) by (auto simp: web_inv_def hand_over_def)
  have "accepting servers {..<length servers} u"
    using hand_over_rest [OF serves(2) assms(2)] by simp
  from wait_next_keeps [OF serves(7) this d(1,2)] run_last [OF serves(8)] d(3) show ?thesis
    by (auto simp: serves(1) web_inv_def)
next
  case closes
  with assms(2) show ?thesis by simp
qed

lemma web_run_inv:
  "web_run strerror file cx servers infos x0 x \<Longrightarrow> web_inv servers (events x0) \<Longrightarrow> web_inv servers (events x)"
  by (induction rule: web_run.induct) (auto dest: web_step_inv)

lemma started_inv:
  assumes "epoll_create strerror answer = Returns l"
    "start_pipelines strerror answers servers [0..<length servers] (loop_init l) = Returns s"
  shows "web_inv servers s"
proof -
  have "loop_inv (loop_init l :: 'c handler loop)"
    by (rule loop_init_inv) (use assms(1) in \<open>auto simp: epoll_create_def split: sys.splits\<close>)
  then have "between (loop_init l :: 'c handler loop)" by (simp add: between_def loop_init_def)
  moreover have "accepting servers {} (loop_init l)" by (simp add: accepting_def loop_init_def)
  ultimately show ?thesis
    using start_keeps [OF assms(2), of "{}"] by (auto simp: web_inv_def loop_init_def atLeast0LessThan)
qed

subsection \<open>The servers keep accepting\<close>


subsection \<open>The connections\<close>

text \<open>The connections that wait for their next event.\<close>

fun connection_of :: "'c handler \<Rightarrow> (nat \<times> 'c connection) multiset" where
  "connection_of (Accepting i) = {#}"
| "connection_of (Serving i conn st) = {#(i, conn)#}"

definition waiting :: "(fd \<Rightarrow> 'c handler option) \<Rightarrow> (nat \<times> 'c connection) multiset" where
  "waiting hs = sum_mset (image_mset (\<lambda>r. connection_of (snd r)) (registered hs))"

lemma waiting_add: "finite (dom hs) \<Longrightarrow> hs f = None \<Longrightarrow> waiting (hs(f \<mapsto> h)) = connection_of h + waiting hs"
  by (simp add: waiting_def registered_add)

lemma waiting_remove:
  "finite (dom hs) \<Longrightarrow> hs f = Some h \<Longrightarrow> waiting hs = connection_of h + waiting (hs(f := None))"
  by (simp add: waiting_def registered_remove)

text \<open>
  A connection has done what \<open>serve_connection\<close> does with what it has heard, in the process as it
  was when its request was complete; and its handler is registered for what it waits for.
\<close>

definition served ::
  "(string \<Rightarrow> bytes option) \<Rightarrow> 'c \<Rightarrow> (nat \<Rightarrow> server list) \<Rightarrow> nat \<Rightarrow> 'c connection \<Rightarrow> 'c conn_run \<Rightarrow> bool" where
  "served file cx infos i conn st \<longleftrightarrow>
     (\<exists>pr0 pr1. stage_inv (\<lambda>e. serve_connection file e cx conn (infos i) pr0) pr0 (st, pr1))"

fun handler_ok ::
  "(string \<Rightarrow> bytes option) \<Rightarrow> 'c \<Rightarrow> (nat \<Rightarrow> server list) \<Rightarrow> (interest \<times> 64 word) option \<Rightarrow> 'c handler \<Rightarrow> bool" where
  "handler_ok file cx infos d (Accepting i) = True"
| "handler_ok file cx infos d (Serving i conn st) =
     (served file cx infos i conn st \<and> map_option snd d = waits_on conn (stage st) \<and> d \<noteq> None)"

definition handlers_ok ::
  "(string \<Rightarrow> bytes option) \<Rightarrow> 'c \<Rightarrow> (nat \<Rightarrow> server list) \<Rightarrow> 'c handler loop \<Rightarrow> bool" where
  "handlers_ok file cx infos s \<longleftrightarrow> (\<forall>f h. stored s f = Some h \<longrightarrow> handler_ok file cx infos (watch s f) h)"

lemma served_heard:
  assumes "served file cx infos i conn st"
  shows "\<exists>pr0 pr1. serve_connection file (heard st) cx conn (infos i) pr0 = (conn_view st, to_peer st, pr1)"
  using assms stage_inv_view unfolding served_def by (fastforce simp: serve_connection_def)

text \<open>While a request is read the invariant does not depend on the process; later the steps do not.\<close>

lemma served_start: "served file cx infos i conn (conn_start e)"
  unfolding served_def using conn_start_inv by blast

lemma served_step:
  assumes "served file cx infos i conn st" "conn_step file cx conn (infos i) w (st, pr) = (st', pr')"
  shows "served file cx infos i conn st'"
proof -
  from assms(1) obtain pr0 pr1 where
    inv: "stage_inv (\<lambda>e. serve_connection file e cx conn (infos i) pr0) pr0 (st, pr1)"
    by (auto simp: served_def)
  show ?thesis
  proof (cases "stage st")
    case (Get_request p)
    with inv have "stage_inv (\<lambda>e. serve_connection file e cx conn (infos i) pr) pr (st, pr)"
      by (simp add: stage_inv_def Let_def)
    from conn_step_inv [OF this, of w] show ?thesis unfolding assms(2) served_def by blast
  qed (use conn_step_inv [OF inv, of w] assms(2) in
    \<open>auto simp: served_def conn_step_def split: wakeup.splits\<close>)
qed

text \<open>Registering and handing over.\<close>

lemma register_ok:
  assumes "register strerror answer ev h s = Returns t" "loop_inv s" "deleted s = None"
    "handlers_ok file cx infos s" "\<And>j. handler_ok file cx infos (Some (j, ev)) h"
  shows "handlers_ok file cx infos t \<and> waiting (stored t) = connection_of h + waiting (stored s)"
proof -
  note r = register_tables [OF assms(1)]
  have dom: "finite (dom (stored s))" "dom (stored s) = dom (watch s)"
    using assms(2,3) by (auto simp: loop_inv_def watch_ok_def window_def)
  then have "stored s (event_fd ev) = None" using r(2) by (metis domIff)
  with r dom(1) assms(4,5) show ?thesis by (auto simp: handlers_ok_def waiting_add)
qed

lemma hand_over_ok:
  assumes "hand_over strerror s (f, h, ty) u" "between s" "handlers_ok file cx infos s"
  shows "handlers_ok file cx infos u \<and> waiting (stored s) = connection_of h + waiting (stored u) \<and>
    (\<exists>d. handler_ok file cx infos d h)"
proof -
  note d = hand_over_is [OF assms(1,2)]
  have "finite (dom (stored s))" using assms(2) by (simp add: between_def loop_inv_def watch_ok_def)
  with d assms(3) show ?thesis by (auto simp: handlers_ok_def waiting_remove)
qed

lemma run_tables: "loop_step strerror s (Run 0) t \<Longrightarrow> stored t = stored s \<and> watch t = watch s"
  by (auto elim: loop_step.cases)

lemma get_request_ok:
  "handler_ok file cx infos (Some (j, when_readable (socket_fd (conn_sock conn)))) (Serving i conn (conn_start e))"
  by (simp add: served_start) (simp add: conn_start_def)

definition conns_ok ::
  "(string \<Rightarrow> bytes option) \<Rightarrow> 'c \<Rightarrow> (nat \<Rightarrow> server list) \<Rightarrow> 'c web \<Rightarrow> bool" where
  "conns_ok file cx infos x \<longleftrightarrow> handlers_ok file cx infos (events x) \<and>
     (\<forall>(i, conn, st) \<in> set (finished x). served file cx infos i conn st \<and> waits_on conn (stage st) = None) \<and>
     mset (accepted x) = waiting (stored (events x)) + mset (map (\<lambda>(i, conn, st). (i, conn)) (finished x))"

lemma web_step_ok:
  assumes "web_step strerror file cx servers infos x y" "web_inv servers (events x)" "conns_ok file cx infos x"
  shows "conns_ok file cx infos y"
  using assms(1)
proof (cases rule: web_step.cases)
  case (asks_kernel es u)
  then have "ctx u = ctx (events x)" by (auto elim: loop_step.cases)
  with assms(3) show ?thesis by (simp add: asks_kernel(1) conns_ok_def handlers_ok_def)
next
  case (accepts f i ty u answer res t again first e v w)
  have b: "between (events x)" using assms(2) by (simp add: web_inv_def)
  have h: "handlers_ok file cx infos (events x)" using assms(3) by (simp add: conns_ok_def)
  note u = hand_over_is [OF accepts(2) b] hand_over_ok [OF accepts(2) b h]
  obtain v1 where v1: "register strerror again (when_acceptable (server_fd servers i)) (Accepting i) u = Returns v1"
    using accepts(4) by (auto simp: on_connection_def server_pipeline_def bind_outcome_Returns_iff)
  have k1: "loop_inv v1" "deleted v1 = None" using register_keeps [OF v1] u by simp_all
  have h1: "handlers_ok file cx infos v1" "waiting (stored v1) = waiting (stored u)"
    using register_ok [OF v1, of "file" cx infos] u by simp_all
  have "handlers_ok file cx infos v \<and> waiting (stored v) =
      (case res of Ok conn \<Rightarrow> {#(i, conn)#} | Err _ \<Rightarrow> {#}) + waiting (stored v1)"
  proof (cases res)
    case (Ok conn)
    then have r: "register strerror first (when_readable (socket_fd (conn_sock conn)))
        (Serving i conn (conn_start e)) v1 = Returns v"
      using accepts(4) v1 by (simp add: on_connection_def server_pipeline_def)
    from register_ok [OF r k1 h1(1) get_request_ok] Ok show ?thesis by simp
  next
    case (Err err)
    with accepts(4) v1 h1 show ?thesis by (simp add: on_connection_def server_pipeline_def)
  qed
  with run_tables [OF accepts(5)] h1 u assms(3) show ?thesis
    by (auto simp: accepts(1) conns_ok_def handlers_ok_def split: res.splits)
next
  case (serves f i conn st ty u w st' pr answer v z)
  have b: "between (events x)" using assms(2) by (simp add: web_inv_def)
  have h: "handlers_ok file cx infos (events x)" using assms(3) by (simp add: conns_ok_def)
  note u = hand_over_is [OF serves(2) b] hand_over_ok [OF serves(2) b h]
  then have st': "served file cx infos i conn st'" using served_step [where i = i and infos = infos, OF _ serves(5)] by auto
  show ?thesis
  proof (cases "waits_on conn (stage st')")
    case None
    with serves(7) have "v = u" by (simp add: wait_next_def)
    with None st' run_tables [OF serves(8)] u assms(3) show ?thesis
      by (auto simp: serves(1) conns_ok_def handlers_ok_def)
  next
    case (Some ev)
    then have r: "register strerror answer ev (Serving i conn st') u = Returns v"
      using serves(7) by (simp add: wait_next_def)
    have "handler_ok file cx infos (Some (j, ev)) (Serving i conn st')" for j
      using Some st' by simp
    from register_ok [OF r _ _ _ this] u have "handlers_ok file cx infos v"
      "waiting (stored v) = {#(i, conn)#} + waiting (stored u)" by simp_all
    with Some run_tables [OF serves(8)] u assms(3) show ?thesis
      by (auto simp: serves(1) conns_ok_def handlers_ok_def)
  qed
next
  case closes
  with assms(3) show ?thesis by (simp add: conns_ok_def)
qed

lemma web_run_ok:
  "web_run strerror file cx servers infos x0 x \<Longrightarrow> web_inv servers (events x0) \<Longrightarrow> conns_ok file cx infos x0 \<Longrightarrow>
     conns_ok file cx infos x"
  by (induction rule: web_run.induct) (auto dest: web_step_ok web_run_inv)

lemma started_ok:
  assumes "start_pipelines strerror answers servers js s = Returns t" "between s" "batch s = []"
    "accepting servers is s" "handlers_ok file cx infos s"
  shows "handlers_ok file cx infos t \<and> waiting (stored t) = waiting (stored s)"
  using assms
proof (induction js arbitrary: s "is")
  case Nil
  then show ?case by simp
next
  case (Cons j js)
  then obtain u where u: "server_pipeline strerror (answers j) servers j s = Returns u"
      "start_pipelines strerror answers servers js u = Returns t"
    by (auto simp: bind_outcome_Returns_iff)
  note r = u(1) [unfolded server_pipeline_def]
  have s: "loop_inv s" "deleted s = None" using Cons.prems by (simp_all add: between_def)
  have b: "between u" "batch u = []"
    using register_keeps [OF r s] Cons.prems r by (auto simp: between_def register_Returns)
  have "handlers_ok file cx infos u" "waiting (stored u) = waiting (stored s)"
    using register_ok [OF r s Cons.prems(5)] by simp_all
  with Cons.IH [OF u(2) b register_server [OF u(1) Cons.prems(4)]] show ?case by simp
qed

lemma run_ok:
  assumes "epoll_create strerror answer = Returns l"
    and "start_pipelines strerror answers servers [0..<length servers] (loop_init l) = Returns s0"
    and "web_run strerror file cx servers infos (web_init s0 pr) x"
  shows "conns_ok file cx infos x"
proof -
  let ?l = "loop_init l :: 'a handler loop"
  have l: "watched l = (\<lambda>_. None)" using assms(1) by (auto simp: epoll_create_def split: sys.splits)
  then have "between ?l" using loop_init_inv [OF l] by (simp add: between_def loop_init_def)
  moreover have "accepting servers {} ?l" "handlers_ok file cx infos ?l" "batch ?l = []" "waiting (stored ?l) = {#}"
    by (simp_all add: accepting_def handlers_ok_def loop_init_def waiting_def registered_def)
  ultimately have "handlers_ok file cx infos s0" "waiting (stored s0) = {#}"
    using started_ok [OF assms(2)] by simp_all
  then have "conns_ok file cx infos (web_init s0 pr)" by (simp add: conns_ok_def web_init_def)
  with web_run_ok [OF assms(3)] started_inv [OF assms(1,2)] show ?thesis by (simp add: web_init_def)
qed

lemma run_served:
  assumes "epoll_create strerror answer = Returns l"
    and "start_pipelines strerror answers servers [0..<length servers] (loop_init l) = Returns s0"
    and "web_run strerror file cx servers infos (web_init s0 pr) x"
  shows "stored (events x) f = Some (Serving i conn st) \<Longrightarrow> served file cx infos i conn st"
    "(i, conn, st) \<in> set (finished x) \<Longrightarrow> served file cx infos i conn st"
  using run_ok [OF assms] by (fastforce simp: conns_ok_def handlers_ok_def)+


subsection \<open>Sample runs\<close>

text \<open>One event of a watched descriptor is reported and its handler handed over.\<close>

definition handed :: "fd \<Rightarrow> 'h \<Rightarrow> event_type \<Rightarrow> 'h loop \<Rightarrow> 'h loop" where
  "handed f h ty s =
     s\<lparr>ctx := (ctx s)\<lparr>listener := (listener (ctx s))\<lparr>watched := (watch s)(f := None)\<rparr>, handlers := (stored s)(f := None)\<rparr>,
       running := [(f, h, ty)], started := started s @ [(f, h, ty)]\<rparr>"

definition ran :: "(fd \<times> 'h \<times> event_type) \<Rightarrow> 'h loop \<Rightarrow> 'h loop" where
  "ran e s = s\<lparr>running := [], returned := returned s @ [e]\<rparr>"

definition event_due :: "fd \<Rightarrow> 'h \<Rightarrow> event_type \<Rightarrow> 'h loop \<Rightarrow> bool" where
  "event_due f h ty s \<longleftrightarrow> loop_exn s = None \<and> idle s \<and> stored s f = Some h \<and>
     (\<exists>i d r. watch s f = Some (i, d) \<and> event_fd d = f \<and> asked_for i r \<and> epoll_events (d, r) = [mk_event f ty])"

lemma event_arrives:
  assumes "loop_exn s = None" "idle s" "watch s f = Some (i, d)" "event_fd d = f" "asked_for i r"
    "epoll_events (d, r) = [mk_event f ty]" "stored s f = Some h"
  shows "loop_step strerror s (Report [(d, r)]) (s\<lparr>batch := [mk_event f ty]\<rparr>) \<and>
    hand_over strerror (s\<lparr>batch := [mk_event f ty]\<rparr>) (f, h, ty)
      (handed f h ty s)"
proof -
  let ?b = "s\<lparr>batch := [mk_event f ty]\<rparr>"
  let ?d = "?b\<lparr>ctx := (ctx s)\<lparr>listener := (listener (ctx s))\<lparr>watched := (watch s)(f := None)\<rparr>\<rparr>,
    batch := [], deleted := Some (mk_event f ty)\<rparr>"
  have i: "deleted s = None" "running s = []" "batch s = []" using assms(2) by (simp_all add: idle_def)
  have "loop_step strerror s (Report [(d, r)]) ?b"
    by (rule step_report) (use assms in \<open>simp_all add: epoll_reports_def EPOLL_SIZE_def epoll_block_def\<close>)
  moreover have "loop_step strerror ?b Delete ?d"
    using step_delete [of ?b "mk_event f ty" "[]" strerror] assms(1,3) i
    by (simp add: delete_step_def epoll_del_event_def epoll_ctl_del_def event_fd_mk)
  moreover have "fetch_step (mk_event f ty) ty ?d = handed f h ty s"
    by (rule loop.equality) (simp_all add: handed_def fetch_step_def get_handler_def event_fd_mk assms(7) i)
  with step_fetch [of ?d "mk_event f ty" ty strerror]
  have "loop_step strerror ?d Fetch (handed f h ty s)" by (simp add: assms(1) event_type_mk)
  moreover have "running (handed f h ty s) = [(f, h, ty)]" by (simp add: handed_def)
  ultimately show ?thesis unfolding hand_over_def by blast
qed

lemma event_due_steps:
  assumes "event_due f h ty (events x)"
  shows "web_step strerror file cx servers infos x (x\<lparr>events := (events x)\<lparr>batch := [mk_event f ty]\<rparr>\<rparr>) \<and>
    hand_over strerror ((events x)\<lparr>batch := [mk_event f ty]\<rparr>) (f, h, ty) (handed f h ty (events x))"
proof -
  from assms obtain i d r where "loop_exn (events x) = None" "idle (events x)" "watch (events x) f = Some (i, d)"
    "event_fd d = f" "asked_for i r" "epoll_events (d, r) = [mk_event f ty]" "stored (events x) f = Some h"
    by (auto simp: event_due_def)
  from event_arrives [OF this, of strerror] asks_kernel [of strerror x _ _ "file" cx servers infos]
  show ?thesis by blast
qed

lemma run_only: "running s = [e] \<Longrightarrow> loop_step strerror s (Run 0) (ran e s)"
  using step_run [of 0 s strerror] by (simp add: ran_def)

lemma run_accepts:
  assumes "web_run strerror file cx servers infos x0 x" "event_due f (Accepting i) ty (events x)"
    "get_conn (ty, answer) (servers ! i) (files (proc x)) = Returns (res, t)"
    "on_connection strerror again first e servers i res (handed f (Accepting i) ty (events x)) = Returns v"
    "running v = [(f, Accepting i, ty)]" "fresh_accept answer (files (proc x))"
  shows "web_run strerror file cx servers infos x0
    (x\<lparr>events := ran (f, Accepting i, ty) v, proc := (proc x)\<lparr>files := t\<rparr>,
       accepted := accepted x @ (case res of Ok conn \<Rightarrow> [(i, conn)] | Err _ \<Rightarrow> [])\<rparr>)"
proof -
  let ?y = "x\<lparr>events := (events x)\<lparr>batch := [mk_event f ty]\<rparr>\<rparr>"
  note s = event_due_steps [OF assms(2), of strerror "file" cx servers infos]
  have "web_step strerror file cx servers infos ?y
    (?y\<lparr>events := ran (f, Accepting i, ty) v, proc := (proc ?y)\<lparr>files := t\<rparr>,
       accepted := accepted ?y @ (case res of Ok conn \<Rightarrow> [(i, conn)] | Err _ \<Rightarrow> [])\<rparr>)"
    by (rule accepts [where f = f and ty = ty and answer = answer, OF _ _ assms(4) run_only [OF assms(5)]])
      (use s assms(3,6) in simp_all)
  from web_more [OF web_more [OF assms(1) conjunct1 [OF s]] this] show ?thesis by simp
qed

lemma run_serves:
  assumes "web_run strerror file cx servers infos x0 x" "event_due f (Serving i conn st) (event_of w) (events x)"
    "awaits (stage st) w" "conn_step file cx conn (infos i) w (st, proc x) = (st', pr)" "goes_on (stage st')"
    "wait_next strerror answer i conn st' (handed f (Serving i conn st) (event_of w) (events x)) = Returns v"
    "running v = [(f, Serving i conn st, event_of w)]"
    "reading_request (stage st) \<and> \<not> reading_request (stage st') \<longrightarrow> fresh_answers (heard st) (files (proc x))"
  shows "web_run strerror file cx servers infos x0
    (x\<lparr>events := ran (f, Serving i conn st, event_of w) v, proc := pr,
       finished := finished x @ (if waits_on conn (stage st') = None then [(i, conn, st')] else [])\<rparr>)"
proof -
  let ?y = "x\<lparr>events := (events x)\<lparr>batch := [mk_event f (event_of w)]\<rparr>\<rparr>"
  note s = event_due_steps [OF assms(2), of strerror "file" cx servers infos]
  have "web_step strerror file cx servers infos ?y
    (?y\<lparr>events := ran (f, Serving i conn st, event_of w) v, proc := pr,
       finished := finished ?y @ (if waits_on conn (stage st') = None then [(i, conn, st')] else [])\<rparr>)"
    by (rule serves [where f = f and st = st and w = w, OF _ refl assms(3) _ assms(5,6) run_only [OF assms(7)]])
      (use s assms(4,8) in simp_all)
  from web_more [OF web_more [OF assms(1) conjunct1 [OF s]] this] show ?thesis by simp
qed

text \<open>One server.\<close>

definition sample_servers :: "unit http_server list" where
  "sample_servers = [\<lparr>server_acceptor = \<lparr>acceptor_fd = 3, acceptor_context = ()\<rparr>\<rparr>]"

definition sample_started :: "unit handler loop" where
  "sample_started = (loop_init sample_epoll)
     \<lparr>ctx := \<lparr>listener = \<lparr>epfd = 5, watched = [3 \<mapsto> (Poll_in, when_acceptable 3)]\<rparr>,
              handlers = [3 \<mapsto> Accepting 0]\<rparr>,
      added := [(3, Accepting 0, TO_ACCEPT)]\<rparr>"

lemma sample_start:
  "start_pipelines strerror (\<lambda>_. Sys_ok ()) sample_servers [0..<length sample_servers]
     (loop_init sample_epoll) = Returns sample_started"
  by (simp add: sample_servers_def sample_started_def server_pipeline_def register_def
    acceptable_event add_handler_for_event_def epoll_add_event_def epoll_ctl_add_def set_handler_def
    loop_init_def sample_epoll_def)

lemmas sample_web_simps = sample_started_def sample_epoll_def loop_init_def web_init_def
  on_connection_def server_pipeline_def register_def add_handler_for_event_def epoll_add_event_def
  epoll_ctl_add_def set_handler_def sample_servers_def acceptable_event

lemma sample_due: "event_due 3 (Accepting 0) TO_READ sample_started"
  by (auto simp: event_due_def sample_web_simps idle_def asked_for_def epoll_events_def
    intro!: exI [of _ readable]) (simp_all add: readable_def)

text \<open>\<open>accept\<close> fails with \<open>EMFILE\<close>, and the server is registered again.\<close>

lemma sample_accept_fails:
  "\<exists>x. web_run strerror file cx sample_servers infos (web_init sample_started pr) x \<and>
     returned (events x) = [(3, Accepting 0, TO_READ)]"
proof -
  have g: "get_conn (TO_READ, Sys_errno 24) (sample_servers ! 0) t = Returns (Err (from_errno 24), t)" for t
    by (simp add: get_conn_def fut_accept_conn_def acceptor_accept_conn_def)
  obtain v where v: "on_connection strerror (Sys_ok ()) (Sys_ok ()) sample_run sample_servers 0 (Err (from_errno 24))
      (handed 3 (Accepting 0) TO_READ sample_started) = Returns v"
    "running v = [(3, Accepting 0, TO_READ)]" "returned v = []"
    by (simp add: sample_web_simps handed_def)
  from run_accepts [OF web_start, of 3 0 TO_READ "web_init sample_started pr" "Sys_errno 24"] sample_due g v(1,2)
  have "web_run strerror file cx sample_servers infos (web_init sample_started pr)
    ((web_init sample_started pr)\<lparr>events := ran (3, Accepting 0, TO_READ) v\<rparr>)"
    by (fastforce simp: web_init_def fresh_accept_def)
  then show ?thesis using v(3) by (intro exI conjI) (assumption | simp add: ran_def)+
qed


text \<open>\<open>accept\<close> gives descriptor 6, and the client hangs up before it has sent a request.\<close>

lemma sample_accept:
  assumes "files pr 6 = None"
  shows "\<exists>x conn. web_run strerror file cx sample_servers infos (web_init sample_started pr) x \<and>
     accepted x = [(0, conn)] \<and> finished x = [] \<and>
     socket_fd (conn_sock conn) = 6 \<and> c_string (addr_ip (conn_addr conn)) = Returns (inet_ntoa (1, 2, 3, 4)) \<and>
     watch (events x) 6 = Some (Poll_in, when_readable 6) \<and>
     stored (events x) 6 = Some (Serving 0 conn (conn_start sample_run)) \<and>
     loop_exn (events x) = None \<and> idle (events x) \<and> files (proc x) = (files pr)(6 \<mapsto> Inet_socket 7)"
proof -
  let ?a = "Sys_ok (6, 7, (1, 2, 3, 4), 5000) :: accept_answer"
  obtain conn where g: "get_conn (TO_READ, ?a) (sample_servers ! 0) (files pr) =
      Returns (Ok conn, (files pr)(6 \<mapsto> Inet_socket 7))"
    "socket_fd (conn_sock conn) = 6" "c_string (addr_ip (conn_addr conn)) = Returns (inet_ntoa (1, 2, 3, 4))"
    using accept_copies_address [of "(1, 2, 3, 4)"] holds_c_string
    by (fastforce simp: get_conn_def fut_accept_conn_def acceptor_accept_conn_def)
  obtain v where v: "on_connection strerror (Sys_ok ()) (Sys_ok ()) sample_run sample_servers 0 (Ok conn)
      (handed 3 (Accepting 0) TO_READ sample_started) = Returns v"
    "running v = [(3, Accepting 0, TO_READ)]" "loop_exn v = None" "batch v = []" "deleted v = None"
    "stored v 6 = Some (Serving 0 conn (conn_start sample_run))" "watch v 6 = Some (Poll_in, when_readable 6)"
    by (simp add: sample_web_simps handed_def g(2) when_readable_def event_fd_mk event_type_mk interest_of_def)
  from run_accepts [OF web_start, of 3 0 TO_READ "web_init sample_started pr" ?a] sample_due g(1) v(1,2)
  obtain x where x: "web_run strerror file cx sample_servers infos (web_init sample_started pr) x"
    "events x = ran (3, Accepting 0, TO_READ) v" "accepted x = [(0, conn)]" "finished x = []"
    "files (proc x) = (files pr)(6 \<mapsto> Inet_socket 7)"
    using assms by (fastforce simp: web_init_def fresh_accept_def)
  from x(2) v(3-) have "loop_exn (events x) = None" "idle (events x)"
    "watch (events x) 6 = Some (Poll_in, when_readable 6)"
    "stored (events x) 6 = Some (Serving 0 conn (conn_start sample_run))"
    by (simp_all add: ran_def idle_def)
  with x(1,3-) g(2,3) show ?thesis by blast
qed

definition hang_up :: wakeup where
  "hang_up = Read_ready \<lparr>r_event = CLOSED, r_result = Sys_ok [], r_mem = \<lparr>before_chunk = CR, after_pending = []\<rparr>\<rparr>"

definition gone :: readiness where
  "gone = \<lparr>r_in = False, r_out = False, r_hup = True, r_err = False\<rparr>"

lemma sample_unused: "files sample_process 6 = None" "files sample_process 7 = None"
  by simp_all

lemma sample_fresh: "t 7 = None \<Longrightarrow> fresh_answers (heard (conn_start sample_run)) (t(6 \<mapsto> Inet_socket 7))"
  by (simp add: fresh_answers_def conn_start_def sample_run_def fresh_pipes_def fresh_pipe_def make_pipe_def)

lemma sample_hang_up:
  assumes "files pr 6 = None" "files pr 7 = None"
  shows "\<exists>x conn st. web_run strerror file cx sample_servers infos (web_init sample_started pr) x \<and>
     accepted x = [(0, conn)] \<and> finished x = [(0, conn, st)] \<and>
     stage st = Over (No_request (http_error_of_io CONNECTION_CLOSED))"
proof -
  let ?st = "conn_start sample_run :: unit conn_run"
  obtain x conn where x: "web_run strerror file cx sample_servers infos (web_init sample_started pr) x"
    "accepted x = [(0, conn)]" "finished x = []" "watch (events x) 6 = Some (Poll_in, when_readable 6)"
    "stored (events x) 6 = Some (Serving 0 conn ?st)" "loop_exn (events x) = None" "idle (events x)"
    "files (proc x) = (files pr)(6 \<mapsto> Inet_socket 7)"
    using sample_accept [OF assms(1)] by blast
  have due: "event_due 6 (Serving 0 conn ?st) (event_of hang_up) (events x)"
    using x(4-) by (auto simp: event_due_def hang_up_def asked_for_def epoll_events_def gone_def
      when_readable_def event_fd_mk intro!: exI [of _ gone])
  obtain st pr' where st: "conn_step file cx conn (infos 0) hang_up (?st, proc x) = (st, pr')"
    "stage st = Over (No_request (http_error_of_io CONNECTION_CLOSED))"
    by (simp add: conn_step_def conn_start_def hang_up_def get_request_step_def read_step_def read_part_def)
  have "running (handed 6 (Serving 0 conn ?st) (event_of hang_up) (events x)) =
      [(6, Serving 0 conn ?st, event_of hang_up)]" by (simp add: handed_def)
  from run_serves [OF x(1) due _ st(1) _ _ this] st(2) x(2,3,8) sample_fresh [of "files pr", OF assms(2)] show ?thesis
    by (fastforce simp: conn_start_def hang_up_def wait_next_def)
qed


text \<open>Or the client sends a whole request, for which the configuration has no location.\<close>

definition whole_request :: read_wakeup where
  "whole_request = chunk (request_head sample_request @ req_body sample_request)"

lemma whole_request_read:
  "http_get_request [whole_request] = Some (Returns (Ok sample_request))"
  "read_step RequestParser_call (\<lambda>p. Returns (request_create_entity p)) http_error_of_io whole_request RequestParser =
     Inr (Returns (Ok sample_request))"
proof -
  have "arrives (request_head sample_request) (req_body sample_request) [whole_request]"
    unfolding arrives_def
    by (intro exI [of _ "[request_head sample_request @ req_body sample_request]"] exI [of _ "[]"])
      (simp add: whole_request_def delivers_def chunk_def read_part_def socket_read_part_def tame_def sample_bytes)
  from get_request_arrives [OF sample_request_chunks(1) this]
  show got: "http_get_request [whole_request] = Some (Returns (Ok sample_request))" .
  then show "read_step RequestParser_call (\<lambda>p. Returns (request_create_entity p)) http_error_of_io whole_request RequestParser =
     Inr (Returns (Ok sample_request))"
    unfolding http_get_request_def read_entity_step by (simp split: sum.splits)
qed

lemma register_free:
  "watch s (event_fd ev) = None \<Longrightarrow> interest_of ev = Some i \<Longrightarrow>
     \<exists>t. register strerror (Sys_ok ()) ev h s = Returns t \<and> running t = running s \<and> stored t (event_fd ev) = Some h"
  by (auto simp: register_Returns)

lemma sample_replying:
  assumes "files pr 6 = None" "files pr 7 = None"
  shows "\<exists>x conn st. web_run strerror file cx sample_servers (\<lambda>_. [server_init]) (web_init sample_started pr) x \<and>
     stored (events x) 6 = Some (Serving 0 conn st) \<and>
     conn_view st = Replied (with_error_code (Status 500)) None []"
proof -
  let ?st = "conn_start sample_run :: unit conn_run" and ?w = "Read_ready whole_request"
  obtain x conn where x:
    "web_run strerror file cx sample_servers (\<lambda>_. [server_init]) (web_init sample_started pr) x"
    "socket_fd (conn_sock conn) = 6" "c_string (addr_ip (conn_addr conn)) = Returns (inet_ntoa (1, 2, 3, 4))"
    "watch (events x) 6 = Some (Poll_in, when_readable 6)" "stored (events x) 6 = Some (Serving 0 conn ?st)"
    "loop_exn (events x) = None" "idle (events x)" "files (proc x) = (files pr)(6 \<mapsto> Inet_socket 7)"
    using sample_accept [OF assms(1)] by blast
  have due: "event_due 6 (Serving 0 conn ?st) (event_of ?w) (events x)"
    using x(4-) by (auto simp: event_due_def whole_request_def chunk_def asked_for_def epoll_events_def readable_def
      when_readable_def event_fd_mk intro!: exI [of _ readable])
  have act: "handle_request file ip [server_init] sample_request = Returns (Send (with_error_code (Status 500)))" for ip
    by (simp add: handle_request_def get_location_def choose_server_def sample_request_def map_find_def server_init_def
      error_reply_def error_response_def status_from_def)
  obtain wr where wr: "start_write response_get_data response_state (ResponseSerializer (with_error_code (Status 500))) =
      Some wr"
    by (simp add: start_write_def ResponseSerializer_def response_state_def case_prod_beta)
  obtain st pr' where st: "conn_step file cx conn [server_init] ?w (?st, proc x) = (st, pr')"
    "stage st = Send_reply (with_error_code (Status 500)) wr" "to_client st = []"
    by (simp add: conn_step_def conn_start_def get_request_step_def whole_request_read on_request_def x(3) act
      begin_reply_def wr)
  let ?h = "handed 6 (Serving 0 conn ?st) (event_of ?w) (events x)"
  have "watch ?h (event_fd (when_writable 6)) = None" "interest_of (when_writable 6) = Some Poll_out"
    by (simp_all add: handed_def when_writable_def event_fd_mk event_type_mk interest_of_def)
  from register_free [OF this, of strerror "Serving 0 conn st"] obtain v where
    v: "wait_next strerror (Sys_ok ()) 0 conn st ?h = Returns v" "stored v 6 = Some (Serving 0 conn st)"
      "running v = running ?h"
    by (auto simp: wait_next_def st(2) x(2) when_writable_def event_fd_mk)
  have run: "running v = [(6, Serving 0 conn ?st, event_of ?w)]" by (simp add: v(3) handed_def)
  have "stored (ran e v) 6 = Some (Serving 0 conn st)" for e using v(2) by (simp add: ran_def)
  with run_serves [OF x(1) due _ st(1) _ v(1) run] st(2,3) x(8) sample_fresh [of "files pr", OF assms(2)] show ?thesis
    by (fastforce simp: conn_start_def conn_view_def)
qed

text \<open>
  Property C16: every reply of the running program has a source. Take any run of the whole program
  and any connection in it, waiting or over. If the client is being or has been sent something, then the
  program had read a request from that connection; the bytes are a prefix of the bytes of one
  response, all of them if the write succeeded; and that response is the one the configuration of the
  server that accepted the connection gives for the request and the client's address, or the 503 or the
  response read from the CGI program, or the 502 or the response read from the upstream server,
  whichever of the three the request was for. The program or upstream server asked on behalf of
  this client has been sent nothing but a prefix of the request made for it.
\<close>

theorem program_replies_have_a_source:
  assumes "epoll_create strerror answer = Returns l"
    and "start_pipelines strerror answers servers [0..<length servers] (loop_init l) = Returns s0"
    and "web_run strerror file cx servers infos (web_init s0 pr) x"
    and "stored (events x) f = Some (Serving i conn st) \<or> (i, conn, st) \<in> set (finished x)"
    and "conn_view st = Replied r w out"
  shows "\<exists>k req ip. out = take k (response_bytes r) \<and> (w = Some (Ok ()) \<longrightarrow> out = response_bytes r) \<and>
    http_get_request (request_reads (heard st)) = Some (Returns (Ok req)) \<and>
    c_string (addr_ip (conn_addr conn)) = Returns ip \<and>
    (case handle_request file ip (infos i) req of
       Returns (Send r') \<Rightarrow> r = r' \<and> to_peer st = []
     | Returns (Run_cgi path q) \<Rightarrow> (\<exists>j. to_peer st = take j (request_bytes q)) \<and>
         (r = with_error_code (Status 503) \<or> http_get_response (cgi_reads (heard st)) = Some (Returns (Ok r)))
     | Returns (Proxy host port q) \<Rightarrow> (\<exists>j. to_peer st = take j (request_bytes q)) \<and>
         (r = with_error_code (Status 502) \<or> http_get_response (upstream_reads (heard st)) = Some (Returns (Ok r)))
     | _ \<Rightarrow> False)"
proof -
  have "served file cx infos i conn st"
    using run_served [OF assms(1-3)] assms(4) by blast
  from served_heard [OF this] obtain pr0 pr1 where
    "serve_connection file (heard st) cx conn (infos i) pr0 = (Replied r w out, to_peer st, pr1)"
    using assms(5) by auto
  from reply_source [OF this] show ?thesis .
qed

theorem program_replies_have_a_source_witness:
  "\<exists>x conn st ip. web_run (\<lambda>_. []) (\<lambda>_. None) () sample_servers (\<lambda>_. [server_init])
       (web_init sample_started sample_process) x \<and>
     stored (events x) 6 = Some (Serving 0 conn st) \<and> conn_view st = Replied (with_error_code (Status 500)) None [] \<and>
     c_string (addr_ip (conn_addr conn)) = Returns ip \<and> http_get_request (request_reads (heard st)) \<noteq> None"
proof -
  obtain x conn st where x:
    "web_run (\<lambda>_. []) (\<lambda>_. None) () sample_servers (\<lambda>_. [server_init]) (web_init sample_started sample_process) x"
    "stored (events x) 6 = Some (Serving 0 conn st)" "conn_view st = Replied (with_error_code (Status 500)) None []"
    using sample_replying [OF sample_unused] by blast
  from program_replies_have_a_source [OF sample_created sample_start x(1) disjI1 [OF x(2)] x(3)] x show ?thesis
    by blast
qed

end
