(* ===== verification/Web_Descriptors.thy ===== *)
theory Web_Descriptors
  imports Web_Loop
begin

text \<open>
  The descriptors of the running program: which ones each waiting handler has captured, that they stay
  open and are nobody else's, and that therefore no handler is ever refused when it registers the next
  one. (Handlers are stored by descriptor alone, and registering a descriptor twice throws.)
\<close>

section \<open>Descriptors are kept apart\<close>

fun captures :: "'c http_server list \<Rightarrow> 'c handler \<Rightarrow> fd set" where
  "captures servers (Accepting i) = {server_fd servers i}"
| "captures servers (Serving i conn st) = handles conn (stage st)"

text \<open>Standard input is open, so that no new descriptor gets the number 0.\<close>

definition apart :: "'c http_server list \<Rightarrow> (fd \<Rightarrow> 'c handler option) \<Rightarrow> table \<Rightarrow> bool" where
  "apart servers hs t \<longleftrightarrow> t 0 \<noteq> None \<and>
     (\<forall>f h. hs f = Some h \<longrightarrow> f \<in> captures servers h \<and> captures servers h \<subseteq> dom t) \<and>
     (\<forall>f g h k. hs f = Some h \<longrightarrow> hs g = Some k \<longrightarrow> f \<noteq> g \<longrightarrow> captures servers h \<inter> captures servers k = {})"

text \<open>A set of descriptors that no waiting handler has captured.\<close>

definition free_of :: "'c http_server list \<Rightarrow> (fd \<Rightarrow> 'c handler option) \<Rightarrow> fd set \<Rightarrow> bool" where
  "free_of servers hs C \<longleftrightarrow> (\<forall>g k. hs g = Some k \<longrightarrow> C \<inter> captures servers k = {})"

lemma apart_take:
  assumes "apart servers hs t" "hs f = Some h"
  shows "apart servers (hs(f := None)) t" "free_of servers (hs(f := None)) (captures servers h)"
    "captures servers h \<subseteq> dom t"
  using assms unfolding apart_def free_of_def by (auto split: if_splits)

lemma apart_put:
  assumes "apart servers hs t" "f \<in> captures servers h" "captures servers h \<subseteq> dom t"
    "free_of servers hs (captures servers h)"
  shows "apart servers (hs(f \<mapsto> h)) t"
  using assms unfolding apart_def free_of_def by (simp add: Int_commute)

lemma apart_grows: "apart servers hs t \<Longrightarrow> dom t \<subseteq> dom t' \<Longrightarrow> apart servers hs t'"
  unfolding apart_def by blast

lemma free_mono: "free_of servers hs C \<Longrightarrow> D \<subseteq> C \<Longrightarrow> free_of servers hs D"
  unfolding free_of_def by blast

lemma free_fresh:
  "apart servers hs t \<Longrightarrow> free_of servers hs C \<Longrightarrow> free_of servers hs (C \<union> - dom t)"
  unfolding apart_def free_of_def by blast

lemma free_unused: "apart servers hs t \<Longrightarrow> free_of servers hs C \<Longrightarrow> n \<in> C \<Longrightarrow> hs n = None"
  unfolding apart_def free_of_def by (cases "hs n") (simp, blast)

subsection \<open>What a step of a connection does to its descriptors\<close>

lemma child_never_returns:
  "child_branch a path headers requests responses pr = Returns (e, pr') \<Longrightarrow> e \<noteq> Returned r"
  by (auto simp: child_branch_def exec_child_def bind_outcome_Returns_iff split: prod.splits if_splits)

lemma object_from_opens:
  assumes "object_from a cx path headers pr = Returns (Returned r, pr')" "fresh_pipes a (files pr)" "files pr 0 \<noteq> None"
  shows "dom (files pr) \<subseteq> dom (files pr') \<and>
    (case r of Err e \<Rightarrow> True
     | Ok ob \<Rightarrow> {peer_input (Program ob), peer_output (Program ob)} \<subseteq> dom (files pr') - dom (files pr))"
proof (cases "\<exists>n. first_pipe a = Sys_errno n \<or> second_pipe a = Sys_errno n")
  case True
  then obtain n where "first_pipe a = Sys_errno n \<or> second_pipe a = Sys_errno n" by blast
  from object_from_pipe_fails [OF assms(2,3) this, of cx path headers] assms(1) show ?thesis by auto
next
  case False
  then obtain r1 w1 k1 r2 w2 k2 where
    p: "first_pipe a = Sys_ok (r1, w1, k1)" "second_pipe a = Sys_ok (r2, w2, k2)"
    by (metis sys.exhaust prod_cases3)
  note start = object_from_pipes [OF p assms(2,3)]
  let ?pr2 = "pr\<lparr>files := (files pr)(r1 \<mapsto> Pipe_read k1, w1 \<mapsto> Pipe_write k1,
      r2 \<mapsto> Pipe_read k2, w2 \<mapsto> Pipe_write k2)\<rparr>"
  consider "fork_pid a = -1" | "fork_pid a = 0" | "fork_pid a \<noteq> -1" "fork_pid a \<noteq> 0" by blast
  then show ?thesis
  proof cases
    case 1
    with start(6) [of cx path headers] assms(1) show ?thesis by auto
  next
    case 2
    then have "child_branch a path headers (\<lparr>sender_fd = w1\<rparr>, \<lparr>receiver_fd = r1\<rparr>)
        (\<lparr>sender_fd = w2\<rparr>, \<lparr>receiver_fd = r2\<rparr>) ?pr2 = Returns (Returned r, pr')"
      using start(6) [of cx path headers] assms(1) by simp
    from child_never_returns [OF this] show ?thesis by blast
  next
    case 3
    have "files ?pr2 = (files pr)(r1 \<mapsto> Pipe_read k1, w1 \<mapsto> Pipe_write k1, r2 \<mapsto> Pipe_read k2, w2 \<mapsto> Pipe_write k2)"
      by simp
    from parent_branch_result [OF this start(1,4) assms(3) start(5), of cx] obtain ob pr1 where
      "parent_branch cx (\<lparr>sender_fd = w1\<rparr>, \<lparr>receiver_fd = r1\<rparr>) (\<lparr>sender_fd = w2\<rparr>, \<lparr>receiver_fd = r2\<rparr>) ?pr2 =
         (Returned (Ok ob), pr1)" "receiver_fd (async_receiver (from_cgi ob)) = r2"
      "sender_fd (async_sender (to_cgi ob)) = w1" "files pr1 = (files pr)(w1 \<mapsto> Pipe_write k1, r2 \<mapsto> Pipe_read k2)"
      by blast
    moreover from this(1) 3 start(6) [of cx path headers] assms(1) have "r = Ok ob" "pr' = pr1" by simp_all
    ultimately show ?thesis using start(2,3) by auto
  qed
qed

lemma client_from_opens:
  assumes "client_from socket connect ip port cx t = (r, t')" "case socket of Sys_ok (n, _) \<Rightarrow> t n = None | Sys_errno _ \<Rightarrow> True"
  shows "dom t \<subseteq> dom t' \<and> (case r of Err e \<Rightarrow> True | Ok c \<Rightarrow> {socket_fd (client_sock c)} \<subseteq> dom t' - dom t)"
  using assms by (auto simp: client_from_def conn_tcp_serv_def Let_def split: sys.splits prod.splits)

lemma begin_reply_handles: "handles conn (stage (begin_reply r st)) \<subseteq> {socket_fd (conn_sock conn)}"
  by (simp add: begin_reply_def split: outcome.split option.split)

lemma begin_exchange_handles:
  "handles conn (stage (begin_exchange peer q st)) \<subseteq> {socket_fd (conn_sock conn), peer_input peer, peer_output peer}"
  by (simp add: begin_exchange_def split: option.split)

text \<open>Where a step opens descriptors they were unused; it closes none.\<close>

definition opens_only :: "fd set \<Rightarrow> table \<Rightarrow> fd set \<Rightarrow> table \<Rightarrow> bool" where
  "opens_only C t C' t' \<longleftrightarrow> dom t \<subseteq> dom t' \<and> C' \<subseteq> C \<union> - dom t \<and> C' \<subseteq> C \<union> dom t'"

lemma opens_nothing: "C' \<subseteq> C \<Longrightarrow> opens_only C t C' t"
  by (auto simp: opens_only_def)

lemma on_request_opens:
  assumes "on_request file cx conn info req st pr = (st', pr')" "goes_on (stage st')"
    "fresh_answers (heard st) (files pr)" "files pr 0 \<noteq> None"
  shows "opens_only {socket_fd (conn_sock conn)} (files pr) (handles conn (stage st')) (files pr')"
proof -
  let ?act = "bind_outcome (c_string (addr_ip (conn_addr conn))) (\<lambda>client_ip. handle_request file client_ip info req)"
  show ?thesis
  proof (cases ?act)
    case (Returns act)
    show ?thesis
    proof (cases act)
      case (Send r)
      with Returns assms(1) have "st' = begin_reply (Returns r) st" "pr' = pr" by (simp_all add: on_request_def)
      with begin_reply_handles [of conn "Returns r" st] show ?thesis by (simp add: opens_nothing)
    next
      case (Run_cgi path q)
      let ?started = "object_from (cgi_answers (heard st)) cx path (req_headers q) pr"
      show ?thesis
      proof (cases ?started)
        case (Returns y)
        obtain e pr1 where y: "y = (e, pr1)" by fastforce
        show ?thesis
        proof (cases e)
          case (Returned r)
          have "fresh_pipes (cgi_answers (heard st)) (files pr)" using assms(3) by (simp add: fresh_answers_def)
          note o = object_from_opens [OF Returns [unfolded y Returned] this assms(4)]
          show ?thesis
          proof (cases r)
            case (Ok ob)
            with \<open>?act = Returns act\<close> Run_cgi Returns y Returned assms(1)
            have "st' = begin_exchange (Program ob) q st" "pr' = pr1" by (simp_all add: on_request_def)
            with o Ok begin_exchange_handles [of conn "Program ob" q st] show ?thesis
              by (auto simp: opens_only_def)
          next
            case (Err er)
            with \<open>?act = Returns act\<close> Run_cgi Returns y Returned assms(1)
            have "st' = begin_reply (cgi_reply (Err er)) st" "pr' = pr1" by (simp_all add: on_request_def)
            with o begin_reply_handles [of conn "cgi_reply (Err er)" st] show ?thesis
              by (auto simp: opens_only_def)
          qed
        qed (use \<open>?act = Returns act\<close> Run_cgi Returns y assms(1,2) in \<open>auto simp: on_request_def\<close>)
      qed (use \<open>?act = Returns act\<close> Run_cgi assms(1,2) in \<open>auto simp: on_request_def\<close>)
    next
      case (Proxy ip port q)
      obtain r t where c: "client_from (upstream_socket (heard st)) (upstream_connect (heard st)) ip port cx (files pr) = (r, t)"
        by fastforce
      have "case upstream_socket (heard st) of Sys_ok (n, _) \<Rightarrow> files pr n = None | Sys_errno _ \<Rightarrow> True"
        using assms(3) by (simp add: fresh_answers_def)
      note o = client_from_opens [OF c this]
      show ?thesis
      proof (cases r)
        case (Ok client)
        with Returns Proxy c assms(1) have "st' = begin_exchange (Upstream client) q st" "files pr' = t"
          by (auto simp: on_request_def)
        with o Ok begin_exchange_handles [of conn "Upstream client" q st] show ?thesis
          by (auto simp: opens_only_def)
      next
        case (Err er)
        with Returns Proxy c assms(1) have "st' = begin_reply (proxy_reply (Err er)) st" "files pr' = t"
          by (auto simp: on_request_def)
        with o begin_reply_handles [of conn "proxy_reply (Err er)" st] show ?thesis
          by (auto simp: opens_only_def)
      qed
    qed
  qed (use assms(1,2) in \<open>auto simp: on_request_def\<close>)
qed

lemma on_request_moves: "\<not> reading_request (stage (fst (on_request file cx conn info req st pr)))"
  by (simp add: on_request_def begin_reply_def begin_exchange_def
    split: outcome.split action.split from_end.split res.split prod.split option.split)

lemma conn_step_opens:
  assumes "conn_step file cx conn info w (st, pr) = (st', pr')" "goes_on (stage st')"
    "reading_request (stage st) \<and> \<not> reading_request (stage st') \<longrightarrow> fresh_answers (heard st) (files pr)" "files pr 0 \<noteq> None"
  shows "opens_only (handles conn (stage st)) (files pr) (handles conn (stage st')) (files pr')"
proof (cases "awaits (stage st) w")
  case False
  with assms(1) have "st' = st" "pr' = pr" by (cases "stage st"; cases w; simp add: conn_step_def)+
  then show ?thesis by (simp add: opens_nothing)
next
  case True
  show ?thesis
  proof (cases "stage st")
    case (Get_request p)
    with True obtain v where w: "w = Read_ready v" by auto
    let ?st = "st\<lparr>heard := (heard st)\<lparr>request_reads := request_reads (heard st) @ [v]\<rparr>\<rparr>"
    from assms(1) Get_request w have step: "get_request_step file cx conn info v p st pr = (st', pr')"
      by (simp add: conn_step_def)
    consider p' where "st' = ?st\<lparr>stage := Get_request p'\<rparr>" "pr' = pr"
      | x where "st' = ?st\<lparr>stage := Over x\<rparr>" "pr' = pr"
      | req where "on_request file cx conn info req ?st pr = (st', pr')"
      using step by (auto simp: get_request_step_def Let_def split: sum.splits outcome.splits res.splits)
    then show ?thesis
    proof cases
      case 3
      then have "\<not> reading_request (stage st')" using on_request_moves [of "file" cx conn info req ?st pr] by simp
      then have "fresh_answers (heard ?st) (files pr)" using assms(3) Get_request by (simp add: fresh_answers_def)
      from on_request_opens [OF 3 assms(2) this assms(4)] Get_request show ?thesis by simp
    qed (use Get_request in \<open>simp_all add: opens_nothing\<close>)
  next
    case (Send_on peer wr)
    with True obtain v where w: "w = Write_ready v" by auto
    with assms(1) Send_on have "st' = send_on_step v peer wr st" "pr' = pr" by (auto simp: conn_step_def)
    moreover have "handles conn (stage (send_on_step v peer wr st)) \<subseteq> handles conn (stage st)"
      using begin_reply_handles Send_on
      by (auto simp: send_on_step_def Let_def split: prod.splits sum.splits res.splits)
    ultimately show ?thesis by (simp add: opens_nothing)
  next
    case (Get_answer peer p)
    with True obtain v where w: "w = Read_ready v" by auto
    with assms(1) Get_answer have "st' = get_answer_step v peer p st" "pr' = pr" by (auto simp: conn_step_def)
    moreover have "handles conn (stage (get_answer_step v peer p st)) \<subseteq> handles conn (stage st)"
      using begin_reply_handles Get_answer by (auto simp: get_answer_step_def Let_def split: sum.splits)
    ultimately show ?thesis by (simp add: opens_nothing)
  next
    case (Send_reply r wr)
    with True obtain v where w: "w = Write_ready v" by auto
    with assms(1) Send_reply have "st' = send_reply_step v r wr st" "pr' = pr" by (auto simp: conn_step_def)
    moreover have "handles conn (stage (send_reply_step v r wr st)) \<subseteq> handles conn (stage st)"
      using Send_reply by (auto simp: send_reply_step_def Let_def split: prod.splits sum.splits)
    ultimately show ?thesis by (simp add: opens_nothing)
  qed (use True in simp)
qed

section \<open>Every step keeps them apart\<close>

lemma register_apart:
  assumes "register strerror answer ev h s = Returns u" "apart servers (stored s) t"
    "event_fd ev \<in> captures servers h" "captures servers h \<subseteq> dom t" "free_of servers (stored s) (captures servers h)"
  shows "apart servers (stored u) t" "stored u = (stored s)(event_fd ev \<mapsto> h)"
  using apart_put [OF assms(2-5)] register_tables(1) [OF assms(1)] by simp_all

lemma waits_captured: "waits_on conn st = Some ev \<Longrightarrow> event_fd ev \<in> handles conn st"
  by (cases st) (auto simp: when_readable_def when_writable_def event_fd_mk)

text \<open>What a new connection captures is its own descriptor, which was not in use.\<close>

lemma get_conn_opens:
  assumes "get_conn (ty, answer) server t = Returns (res, t')" "fresh_accept answer t"
  shows "dom t \<subseteq> dom t' \<and> (case res of Err e \<Rightarrow> True
    | Ok conn \<Rightarrow> t (socket_fd (conn_sock conn)) = None \<and> t' (socket_fd (conn_sock conn)) \<noteq> None)"
  using assms
  by (auto simp: get_conn_def fut_accept_conn_def acceptor_accept_conn_def fresh_accept_def
    bind_outcome_Returns_iff split: sys.splits if_splits prod.splits)

lemma taken_apart:
  assumes "hand_over strerror s (f, h, ty) u" "between s" "apart servers (stored s) t"
  shows "apart servers (stored u) t" "free_of servers (stored u) (captures servers h)"
    "captures servers h \<subseteq> dom t" "f \<in> captures servers h"
proof -
  note d = hand_over_is [OF assms(1,2)]
  then have h: "stored s f = Some h" "stored u = (stored s)(f := None)" by simp_all
  show "apart servers (stored u) t" "free_of servers (stored u) (captures servers h)" "captures servers h \<subseteq> dom t"
    using apart_take [OF assms(3) h(1)] h(2) by simp_all
  show "f \<in> captures servers h" using assms(3) h(1) by (simp add: apart_def)
qed

lemma web_step_apart:
  assumes "web_step strerror file cx servers infos x y" "web_inv servers (events x)"
    "apart servers (stored (events x)) (files (proc x))"
  shows "apart servers (stored (events y)) (files (proc y))"
  using assms(1)
proof (cases rule: web_step.cases)
  case (asks_kernel es u)
  then have "ctx u = ctx (events x)" by (auto elim: loop_step.cases)
  with assms(3) show ?thesis by (simp add: asks_kernel(1))
next
  case (accepts f i ty u answer res t again first e v w)
  have b: "between (events x)" using assms(2) by (simp add: web_inv_def)
  note u = taken_apart [OF accepts(2) b assms(3)]
  have o: "dom (files (proc x)) \<subseteq> dom t \<and> (case res of Err e \<Rightarrow> True
    | Ok conn \<Rightarrow> files (proc x) (socket_fd (conn_sock conn)) = None \<and> t (socket_fd (conn_sock conn)) \<noteq> None)"
    by (rule get_conn_opens [OF accepts(3,6)])
  obtain v1 where v1: "register strerror again (when_acceptable (server_fd servers i)) (Accepting i) u = Returns v1"
    using accepts(4) by (auto simp: on_connection_def server_pipeline_def bind_outcome_Returns_iff)
  have a1: "apart servers (stored v1) (files (proc x))"
    by (rule register_apart(1) [OF v1 u(1)]) (use u in \<open>simp_all add: acceptable_event\<close>)
  have "apart servers (stored v) t"
  proof (cases res)
    case (Ok conn)
    let ?n = "socket_fd (conn_sock conn)"
    from Ok accepts(4) v1 have r: "register strerror first (when_readable ?n) (Serving i conn (conn_start e)) v1 = Returns v"
      by (simp add: on_connection_def server_pipeline_def)
    have c: "captures servers (Serving i conn (conn_start e)) = {?n}" by (simp add: conn_start_def)
    have e: "free_of servers (stored v1) {}" by (simp add: free_of_def)
    have "{?n} \<subseteq> {} \<union> - dom (files (proc x))" using o Ok by auto
    from free_mono [OF free_fresh [OF a1 e] this] have "free_of servers (stored v1) {?n}" .
    with register_apart(1) [OF r apart_grows [OF a1, of t]] o Ok show ?thesis
      by (simp add: c domIff when_readable_def event_fd_mk del: captures.simps)
  next
    case (Err er)
    with accepts(4) v1 a1 o show ?thesis by (auto simp: on_connection_def server_pipeline_def intro: apart_grows)
  qed
  with run_tables [OF accepts(5)] show ?thesis by (simp add: accepts(1))
next
  case (serves f i conn st ty u w st' pr answer v z)
  have b: "between (events x)" using assms(2) by (simp add: web_inv_def)
  note u = taken_apart [OF serves(2) b assms(3), simplified]
  have "files (proc x) 0 \<noteq> None" using assms(3) by (simp add: apart_def)
  from conn_step_opens [OF serves(5,6,9) this]
  have o: "opens_only (handles conn (stage st)) (files (proc x)) (handles conn (stage st')) (files pr)" .
  then have grown: "dom (files (proc x)) \<subseteq> dom (files pr)" by (simp add: opens_only_def)
  have free: "free_of servers (stored u) (handles conn (stage st'))"
    by (rule free_mono [OF free_fresh [OF u(1,2)]]) (use o in \<open>simp add: opens_only_def\<close>)
  have "handles conn (stage st') \<subseteq> dom (files pr)" using o u(3) unfolding opens_only_def by blast
  note r = register_apart(1) [where h = "Serving i conn st'" and s = u, OF _ apart_grows [OF u(1) grown]]
  have "apart servers (stored v) (files pr)"
  proof (cases "waits_on conn (stage st')")
    case None
    with serves(7) u(1) grown show ?thesis by (auto simp: wait_next_def intro: apart_grows)
  next
    case (Some ev)
    with serves(7) have "register strerror answer ev (Serving i conn st') u = Returns v" by (simp add: wait_next_def)
    from r [OF this] waits_captured [OF Some] free \<open>handles conn (stage st') \<subseteq> dom (files pr)\<close>
    show ?thesis by simp
  qed
  with run_tables [OF serves(8)] show ?thesis by (simp add: serves(1))
next
  case (closes n)
  have "n \<notin> captures servers h" if "stored (events x) f = Some h" for f h
  proof (cases h)
    case (Accepting i)
    then have "i < length servers"
      using that assms(2) acceptingD(3) [of servers "{..<length servers}" "events x" f i] by (simp add: web_inv_def)
    with closes(3) Accepting show ?thesis by auto
  next
    case (Serving i conn st)
    with closes(4) that show ?thesis by auto
  qed
  with assms(3) closes(2) show ?thesis
    unfolding closes(1) apart_def by (auto simp: os_close_def) blast
qed

lemma web_run_apart:
  "web_run strerror file cx servers infos x0 x \<Longrightarrow> web_inv servers (events x0) \<Longrightarrow>
     apart servers (stored (events x0)) (files (proc x0)) \<Longrightarrow> apart servers (stored (events x)) (files (proc x))"
  by (induction rule: web_run.induct) (auto dest: web_step_apart web_run_inv)

lemma started_only:
  "start_pipelines strerror answers servers js s = Returns t \<Longrightarrow> \<forall>f h. stored s f = Some h \<longrightarrow> (\<exists>i. h = Accepting i) \<Longrightarrow>
     \<forall>f h. stored t f = Some h \<longrightarrow> (\<exists>i. h = Accepting i)"
proof (induction js arbitrary: s)
  case Nil
  then show ?case by simp
next
  case (Cons j js)
  then obtain u where u: "server_pipeline strerror (answers j) servers j s = Returns u"
      "start_pipelines strerror answers servers js u = Returns t"
    by (auto simp: bind_outcome_Returns_iff)
  have "\<forall>f h. stored u f = Some h \<longrightarrow> (\<exists>i. h = Accepting i)"
    using Cons.prems(2) register_tables(1) [OF u(1) [unfolded server_pipeline_def]] by auto
  from Cons.IH [OF u(2) this] show ?case .
qed

lemma started_apart:
  assumes "epoll_create strerror answer = Returns l"
    and "start_pipelines strerror answers servers [0..<length servers] (loop_init l) = Returns s0"
    and "t 0 \<noteq> None" "\<forall>i<length servers. t (server_fd servers i) \<noteq> None"
  shows "apart servers (stored s0) t"
proof -
  have acc: "accepting servers {..<length servers} s0"
    using started_inv [OF assms(1,2)] by (simp add: web_inv_def)
  have only: "\<exists>i. h = Accepting i" if "stored s0 f = Some h" for f h
    using started_only [OF assms(2)] that by (simp add: loop_init_def)
  have "h = Accepting i \<Longrightarrow> i < length servers \<and> f = server_fd servers i" if "stored s0 f = Some h" for f h i
    using acceptingD(3,4) [OF acc, of f i] that by simp
  with only have is_server: "\<exists>i<length servers. h = Accepting i \<and> f = server_fd servers i"
    if "stored s0 f = Some h" for f h using that by blast
  have "f \<in> captures servers h \<and> captures servers h \<subseteq> dom t" if "stored s0 f = Some h" for f h
    using is_server [OF that] assms(4) by auto
  moreover have "captures servers h \<inter> captures servers k = {}"
    if "stored s0 f = Some h" "stored s0 g = Some k" "f \<noteq> g" for f g h k
    using is_server [OF that(1)] is_server [OF that(2)] that(3) by auto
  ultimately show ?thesis using assms(3) unfolding apart_def by blast
qed

subsection \<open>No registration is refused\<close>

lemma register_possible:
  assumes "watch s (event_fd ev) = None" "interest_of ev = Some j"
  shows "\<exists>t. register strerror (Sys_ok ()) ev h s = Returns t"
  using register_free [OF assms, of strerror h] by blast

lemma watched_stored:
  assumes "loop_inv s" "deleted s = None" "stored s n = None"
  shows "watch s n = None"
proof -
  have "dom (stored s) = dom (watch s)" using assms(1,2) by (auto simp: loop_inv_def watch_ok_def window_def)
  with assms(3) show ?thesis by (metis domIff)
qed

lemma waits_interest: "waits_on conn st = Some ev \<Longrightarrow> \<exists>j. interest_of ev = Some j"
  by (cases st) (auto simp: when_readable_def when_writable_def interest_of_def event_type_mk)

lemma connection_registers:
  assumes "hand_over strerror (events x) (f, Serving i conn st, ty) u"
    "conn_step file cx conn (infos i) w (st, proc x) = (st', pr')" "goes_on (stage st')"
    "reading_request (stage st) \<and> \<not> reading_request (stage st') \<longrightarrow> fresh_answers (heard st) (files (proc x))"
    "apart servers (stored (events x)) (files (proc x))" "between (events x)"
  shows "\<exists>v. wait_next strerror (Sys_ok ()) i conn st' u = Returns v"
proof (cases "waits_on conn (stage st')")
  case None
  then show ?thesis by (simp add: wait_next_def)
next
  case (Some ev)
  note d = hand_over_is [OF assms(1,6)] and u = taken_apart [OF assms(1,6,5), simplified]
  have "files (proc x) 0 \<noteq> None" using assms(5) by (simp add: apart_def)
  from conn_step_opens [OF assms(2,3,4) this]
  have o: "handles conn (stage st') \<subseteq> handles conn (stage st) \<union> - dom (files (proc x))"
    by (simp add: opens_only_def)
  from free_unused [OF u(1) free_mono [OF free_fresh [OF u(1,2)] o] waits_captured [OF Some]] d
  have "watch u (event_fd ev) = None" using watched_stored [of u] by blast
  moreover obtain j where "interest_of ev = Some j" using waits_interest [OF Some] by blast
  ultimately show ?thesis
    using register_possible [of u ev j strerror "Serving i conn st'"] by (simp add: wait_next_def Some)
qed

lemma server_registers:
  assumes "hand_over strerror (events x) (f, Accepting i, ty) u"
    "get_conn (ty, a) (servers ! i) (files (proc x)) = Returns (res, t)" "fresh_accept a (files (proc x))"
    "apart servers (stored (events x)) (files (proc x))" "web_inv servers (events x)"
  shows "\<exists>v. on_connection strerror (Sys_ok ()) (Sys_ok ()) e servers i res u = Returns v"
proof -
  have b: "between (events x)" using assms(5) by (simp add: web_inv_def)
  note d = hand_over_is [OF assms(1) b] and u = taken_apart [OF assms(1) b assms(4)]
  have "stored u (server_fd servers i) = None" using free_unused [OF u(1,2)] by simp
  then have w: "watch u (server_fd servers i) = None" using d watched_stored [of u] by blast
  then obtain v1 where v1: "register strerror (Sys_ok ()) (when_acceptable (server_fd servers i)) (Accepting i) u = Returns v1"
    using register_possible [of u "when_acceptable (server_fd servers i)" Poll_in strerror "Accepting i"]
    by (auto simp: acceptable_event)
  show ?thesis
  proof (cases res)
    case (Err er)
    with v1 show ?thesis by (simp add: on_connection_def server_pipeline_def)
  next
    case (Ok conn)
    let ?n = "socket_fd (conn_sock conn)"
    have k1: "loop_inv v1" "deleted v1 = None" using register_keeps [OF v1] d by simp_all
    have a1: "apart servers (stored v1) (files (proc x))"
      by (rule register_apart(1) [OF v1 u(1)]) (use u in \<open>simp_all add: acceptable_event\<close>)
    have "files (proc x) ?n = None" using get_conn_opens [OF assms(2,3)] Ok by simp
    then have "stored v1 ?n = None"
      using a1 by (cases "stored v1 ?n") (auto simp: apart_def domIff)
    then have "watch v1 (event_fd (when_readable ?n)) = None"
      using watched_stored [OF k1] by (simp add: when_readable_def event_fd_mk)
    moreover have "interest_of (when_readable ?n) = Some Poll_in"
      by (simp add: when_readable_def interest_of_def event_type_mk)
    ultimately show ?thesis
      using register_possible [of v1 "when_readable ?n" Poll_in strerror "Serving i conn (conn_start e)"] v1
      by (auto simp: Ok on_connection_def server_pipeline_def)
  qed
qed

section \<open>Properties\<close>

text \<open>
  Property C5: descriptors are kept apart, and no registration is refused. Let standard input and
  the listening sockets be open when the loop is entered, and let the kernel hand out only descriptors
  that are not in use. Then in every run of the whole program every descriptor that a waiting handler has
  captured is open, and is captured by no other handler, be it of a connection, with its CGI
  program or upstream server, or of a server. And so no handler is refused when it asks for its next
  event, unless the kernel has no memory left: neither that of a connection, after any of its steps,
  nor that of a server, after any result of \<open>accept\<close>.
\<close>

theorem descriptors_kept_apart:
  assumes "epoll_create strerror answer = Returns l"
    and "start_pipelines strerror answers servers [0..<length servers] (loop_init l) = Returns s0"
    and "web_run strerror file cx servers infos (web_init s0 pr) x"
    and "files pr 0 \<noteq> None" "\<forall>i<length servers. files pr (server_fd servers i) \<noteq> None"
  shows "(\<forall>f h. stored (events x) f = Some h \<longrightarrow>
       f \<in> captures servers h \<and> (\<forall>n\<in>captures servers h. files (proc x) n \<noteq> None) \<and>
       (\<forall>g k. stored (events x) g = Some k \<and> f \<noteq> g \<longrightarrow> captures servers h \<inter> captures servers k = {})) \<and>
    (\<forall>f i conn st ty u w st' pr'. hand_over strerror (events x) (f, Serving i conn st, ty) u \<and>
       conn_step file cx conn (infos i) w (st, proc x) = (st', pr') \<and> goes_on (stage st') \<and>
       (reading_request (stage st) \<and> \<not> reading_request (stage st') \<longrightarrow> fresh_answers (heard st) (files (proc x))) \<longrightarrow>
       (\<exists>v. wait_next strerror (Sys_ok ()) i conn st' u = Returns v)) \<and>
    (\<forall>f i ty u a res t e. hand_over strerror (events x) (f, Accepting i, ty) u \<and>
       get_conn (ty, a) (servers ! i) (files (proc x)) = Returns (res, t) \<and> fresh_accept a (files (proc x)) \<longrightarrow>
       (\<exists>v. on_connection strerror (Sys_ok ()) (Sys_ok ()) e servers i res u = Returns v))"
proof -
  have inv: "web_inv servers (events x)"
    using web_run_inv [OF assms(3)] started_inv [OF assms(1,2)] by (simp add: web_init_def)
  then have b: "between (events x)" by (simp add: web_inv_def)
  have ap: "apart servers (stored (events x)) (files (proc x))"
    using web_run_apart [OF assms(3)] started_inv [OF assms(1,2)] started_apart [OF assms(1,2,4,5)]
    by (simp add: web_init_def)
  show ?thesis
  proof (intro conjI)
    show "\<forall>f h. stored (events x) f = Some h \<longrightarrow>
       f \<in> captures servers h \<and> (\<forall>n\<in>captures servers h. files (proc x) n \<noteq> None) \<and>
       (\<forall>g k. stored (events x) g = Some k \<and> f \<noteq> g \<longrightarrow> captures servers h \<inter> captures servers k = {})"
      using ap unfolding apart_def subset_iff domIff by blast
  next
    show "\<forall>f i conn st ty u w st' pr'. hand_over strerror (events x) (f, Serving i conn st, ty) u \<and>
       conn_step file cx conn (infos i) w (st, proc x) = (st', pr') \<and> goes_on (stage st') \<and>
       (reading_request (stage st) \<and> \<not> reading_request (stage st') \<longrightarrow> fresh_answers (heard st) (files (proc x))) \<longrightarrow>
       (\<exists>v. wait_next strerror (Sys_ok ()) i conn st' u = Returns v)"
      by (intro allI impI, elim conjE, rule connection_registers [OF _ _ _ _ ap b])
  next
    show "\<forall>f i ty u a res t e. hand_over strerror (events x) (f, Accepting i, ty) u \<and>
       get_conn (ty, a) (servers ! i) (files (proc x)) = Returns (res, t) \<and> fresh_accept a (files (proc x)) \<longrightarrow>
       (\<exists>v. on_connection strerror (Sys_ok ()) (Sys_ok ()) e servers i res u = Returns v)"
      by (intro allI impI, elim conjE, rule server_registers [OF _ _ _ ap inv])
  qed
qed

text \<open>One server and one client, standard input being open.\<close>

definition sample_open :: process where
  "sample_open = sample_process\<lparr>files := [0 \<mapsto> Opened 0, 3 \<mapsto> Inet_socket 1]\<rparr>"

theorem descriptors_kept_apart_witness:
  "\<exists>x conn. web_run (\<lambda>_. []) (\<lambda>_. None) () sample_servers (\<lambda>_. []) (web_init sample_started sample_open) x \<and>
     stored (events x) 6 = Some (Serving 0 conn (conn_start sample_run)) \<and>
     captures sample_servers (Serving 0 conn (conn_start sample_run)) = {6} \<and> files (proc x) 6 \<noteq> None"
proof -
  have "files sample_open 6 = None" by (simp add: sample_open_def)
  from sample_accept [OF this] obtain x conn where x:
    "web_run (\<lambda>_. []) (\<lambda>_. None) () sample_servers (\<lambda>_. []) (web_init sample_started sample_open) x"
    "stored (events x) 6 = Some (Serving 0 conn (conn_start sample_run))" "socket_fd (conn_sock conn) = 6"
    by blast
  have "files sample_open 0 \<noteq> None"
    "\<forall>i<length sample_servers. files sample_open (server_fd sample_servers i) \<noteq> None"
    by (simp_all add: sample_open_def sample_servers_def)
  from descriptors_kept_apart [OF sample_created sample_start x(1) this] x(2,3) show ?thesis
    by (intro exI [of _ x] exI [of _ conn]) (use x(1) in \<open>fastforce simp: conn_start_def\<close>)
qed

end
