(* ===== verification/Config_Print.thy ===== *)
theory Config_Print
  imports Config
begin

text \<open>
  Writing a server configuration down, and reading it back through the parser of
  \<open>serv-conf\<close> and the conversion of \<open>Config\<close>.
\<close>

section \<open>Printing a configuration\<close>

text \<open>Keys in the order of a \<open>std::map\<close>; a field that has its default is left out.\<close>

definition field :: "string \<Rightarrow> string list \<Rightarrow> node_map" where
  "field key vs = (if vs = [] then [] else [(key, [Node vs None])])"

definition single :: "string \<Rightarrow> string list" where
  "single v = (if v = [] then [] else [v])"

definition location_node :: "string \<times> location \<Rightarrow> conf_node" where
  "location_node e = (case e of (p, l) \<Rightarrow> Node [p] (Some
     (field ''accepted_method'' (sorted_list_of_set (accepted_methods l)) @
      field ''cgi'' (single (cgi_path l)) @
      field ''proxy_pass'' (single (proxy_pass l)) @
      field ''root'' (single (loc_root l)))))"

definition server_node :: "server \<Rightarrow> conf_node" where
  "server_node s = Node [] (Some
     ([(''listen'', [Node [srv_listen s] None]),
       (''location'', map location_node (locations s))] @
      field ''server_name'' (server_name s)))"

definition conf_tree :: "server list \<Rightarrow> node_map" where
  "conf_tree ss = [(''http'', [Node [] (Some [(''server'', map server_node ss)])])]"

text \<open>
  What can be written: words where the format wants words, and in every location a method (one
  without methods serves nothing, and a block must not be empty).
\<close>

definition location_ok :: "string \<times> location \<Rightarrow> bool" where
  "location_ok e = (case e of (p, l) \<Rightarrow> conf_word p \<and>
     finite (accepted_methods l) \<and> accepted_methods l \<noteq> {} \<and> (\<forall>m\<in>accepted_methods l. conf_word m) \<and>
     list_all conf_word (single (cgi_path l) @ single (proxy_pass l) @ single (loc_root l)))"

definition server_ok :: "server \<Rightarrow> bool" where
  "server_ok s = (conf_word (srv_listen s) \<and> list_all conf_word (server_name s) \<and>
     map_wf (locations s) \<and> locations s \<noteq> [] \<and> list_all location_ok (locations s))"

section \<open>Reading it back\<close>

lemma map_find_field:
  "map_find k (field k' vs) = (if k = k' \<and> vs \<noteq> [] then Some [Node vs None] else None)"
  by (simp add: field_def map_find_def)

lemma map_find_Cons: "map_find k ((k', v) # m) = (if k = k' then Some v else map_find k m)"
  by (simp add: map_find_def)

lemma map_find_append:
  "map_find k (m @ m') = (case map_find k m of Some v \<Rightarrow> Some v | None \<Rightarrow> map_find k m')"
  by (simp add: map_find_def map_add_def split: option.splits)

lemma location_fields:
  "get_operator_single_val ''root'' (location_node (p, l)) [] = Ok (loc_root l)"
  "get_operator_single_val ''proxy_pass'' (location_node (p, l)) [] = Ok (proxy_pass l)"
  "get_operator_single_val ''cgi'' (location_node (p, l)) [] = Ok (cgi_path l)"
  "get_operator_args ''accepted_method'' (location_node (p, l)) = Ok (sorted_list_of_set (accepted_methods l))"
  by (simp_all add: location_node_def is_operator_def get_operator_single_val_def
      get_operator_args_def get_by_key_def map_find_append map_find_field single_def)

lemma add_location_node:
  assumes "location_ok e"
  shows "add_location (location_node e) locs = Ok (map_insert (fst e) (snd e) locs)"
proof -
  obtain p l where e: "e = (p, l)" by (cases e)
  have l: "location_init\<lparr>loc_root := loc_root l, proxy_pass := proxy_pass l, cgi_path := cgi_path l,
      accepted_methods := accepted_methods l\<rparr> = l"
    by (cases l) (simp add: location_init_def)
  have "finite (accepted_methods l)" using assms by (simp add: location_ok_def e)
  moreover have "\<not> is_operator (location_node (p, l))" "get_args (location_node (p, l)) = [p]"
    by (simp_all add: location_node_def is_operator_def)
  ultimately show ?thesis by (simp add: e add_location_def location_fields l)
qed

lemma map_insert_last: "\<forall>k'\<in>fst ` set m. k' < k \<Longrightarrow> map_insert k v m = m @ [(k, v)]"
  by (induction m) auto

lemma fold_insert_sorted:
  "map_wf (m @ es) \<Longrightarrow> fold (\<lambda>e. map_insert (fst e) (snd e)) es m = m @ es"
proof (induction es arbitrary: m)
  case Nil
  then show ?case by simp
next
  case (Cons e es)
  then have "\<forall>k'\<in>fst ` set m. k' < fst e"
    by (auto simp: map_wf_def strict_sorted_iff sorted_wrt_append)
  from map_insert_last [OF this, of "snd e"] Cons.IH [of "m @ [e]"] Cons.prems show ?case by simp
qed

lemma add_locations:
  "list_all location_ok es \<Longrightarrow>
     fold_res add_location (map location_node es) m = Ok (fold (\<lambda>e. map_insert (fst e) (snd e)) es m)"
  by (induction es arbitrary: m) (simp_all add: add_location_node)

lemma server_fields:
  "get_operator_single_val ''listen'' (server_node s) ''80'' = Ok (srv_listen s)"
  "get_operator_args ''server_name'' (server_node s) = Ok (server_name s)"
  "get_locations (server_node s) = fold_res add_location (map location_node (locations s)) []"
  by (simp_all add: server_node_def get_operator_single_val_def get_operator_args_def get_locations_def
      get_by_key_def is_operator_def map_find_append map_find_field map_find_Cons)

lemma server_from_node:
  assumes "server_ok s"
  shows "server_from (server_node s) = Ok s"
proof -
  have "fold_res add_location (map location_node (locations s)) [] = Ok (locations s)"
    using assms add_locations [of "locations s" "[]"] fold_insert_sorted [of "[]" "locations s"]
    by (simp add: server_ok_def)
  moreover have r: "server_init\<lparr>srv_listen := srv_listen s, server_name := server_name s,
      locations := locations s\<rparr> = s"
    by (cases s) (simp add: server_init_def)
  ultimately show ?thesis by (simp add: server_from_def server_fields r)
qed

text \<open>The servers by their address, each with its blocks in order.\<close>

definition servers_map :: "server list \<Rightarrow> config" where
  "servers_map ss = fold (\<lambda>(k, s). map_push k s) (map (\<lambda>s. (srv_listen s, s)) ss) []"

lemma config_from_tree:
  assumes "ss \<noteq> []" "list_all server_ok ss"
  shows "config_from (ServConf (conf_tree ss)) = Ok (servers_map ss)"
proof -
  have "conf_get_by_key (ServConf (conf_tree ss)) ''http'' =
      Some [Node [] (Some [(''server'', map server_node ss)])]"
    by (simp add: conf_get_by_key_def conf_tree_def map_find_def)
  moreover have "server_nodes [Node [] (Some [(''server'', map server_node ss)])] = map server_node ss"
    by (simp add: server_nodes_def get_by_key_def map_find_def)
  moreover have "list_all2 (\<lambda>n s. server_from n = Ok s) (map server_node ss) ss"
    using assms(2) by (simp add: list_all2_map1 list_all_iff list.rel_refl_strong server_from_node)
  ultimately show ?thesis using assms(1) by (auto simp: config_from_Ok servers_map_def)
qed

text \<open>The tree is one the parser can build.\<close>

lemma field_wf: "list_all conf_word vs \<Longrightarrow> (k, ns) \<in> set (field k' vs) \<Longrightarrow> k = k' \<and> ns \<noteq> [] \<and> list_all node_wf ns"
  by (auto simp: field_def split: if_splits)

lemma location_node_wf:
  assumes "location_ok e"
  shows "node_wf (location_node e)"
proof -
  obtain p l where e: "e = (p, l)" by (cases e)
  have w: "conf_word p" "finite (accepted_methods l)" "accepted_methods l \<noteq> {}"
    "\<forall>m\<in>accepted_methods l. conf_word m" "cgi_path l \<noteq> [] \<longrightarrow> conf_word (cgi_path l)"
    "proxy_pass l \<noteq> [] \<longrightarrow> conf_word (proxy_pass l)" "loc_root l \<noteq> [] \<longrightarrow> conf_word (loc_root l)"
    using assms by (auto simp: location_ok_def e single_def)
  then have "list_all conf_word (sorted_list_of_set (accepted_methods l))"
    by (simp add: list_all_iff)
  moreover have k: "conf_word ''accepted_method''" "conf_word ''cgi''" "conf_word ''proxy_pass''" "conf_word ''root''"
    by (simp_all add: conf_word_def plain_def keychars_set)
  ultimately show ?thesis using w
    by (simp add: e location_node_def field_def single_def map_wf_Cons)
qed

lemma server_node_wf:
  assumes "server_ok s"
  shows "node_wf (server_node s)"
proof -
  have "list_all node_wf (map location_node (locations s))"
    using assms by (auto simp: server_ok_def list_all_iff location_node_wf)
  moreover have "conf_word ''listen''" "conf_word ''location''" "conf_word ''server_name''"
    by (simp_all add: conf_word_def plain_def keychars_set)
  ultimately show ?thesis
    using assms by (simp add: server_node_def server_ok_def field_def map_wf_Cons)
qed

lemma conf_tree_wf:
  assumes "ss \<noteq> []" "list_all server_ok ss"
  shows "nodes_wf (conf_tree ss)"
proof -
  have "list_all node_wf (map server_node ss)"
    using assms(2) by (auto simp: list_all_iff server_node_wf)
  moreover have "conf_word ''http''" "conf_word ''server''"
    by (simp_all add: conf_word_def plain_def keychars_set)
  ultimately show ?thesis
    using assms(1) by (simp add: nodes_wf_def conf_tree_def map_wf_Cons)
qed

text \<open>What the map has under an address.\<close>

lemma servers_map_at:
  "map_find l (servers_map ss) =
     (let us = filter (\<lambda>s. srv_listen s = l) ss in if us = [] then None else Some us)"
proof -
  have "map snd (filter (\<lambda>e. fst e = l) (map (\<lambda>s. (srv_listen s, s)) ss)) = filter (\<lambda>s. srv_listen s = l) ss"
    by (induction ss) auto
  then show ?thesis
    using push_all_find [of "[]" l "map (\<lambda>s. (srv_listen s, s)) ss"]
    by (simp add: servers_map_def map_find_def Let_def)
qed

lemma servers_map_wf: "map_wf (servers_map ss)"
  unfolding servers_map_def by (rule push_all_wf) simp

lemma map_find_set: "map_wf m \<Longrightarrow> map_find k m = Some v \<longleftrightarrow> (k, v) \<in> set m"
  by (simp add: map_find_def map_wf_def strict_sorted_iff)

section \<open>Properties\<close>


definition sample_block :: server where
  "sample_block = \<lparr>srv_listen = ''8080'', server_name = [''a.org'', ''b.org''],
     locations = [(''/'', \<lparr>accepted_methods = {''GET''}, loc_root = ''a.html'', proxy_pass = [], cgi_path = []\<rparr>)]\<rparr>"


end
