(* ===== verification/Move_Function.thy ===== *)
theory Move_Function
  imports Prelude
begin

text \<open>
  \<open>util/move_only_func.hpp\<close>: \<open>unique_function\<close>, the type of every callback and task. It derives from
  \<open>std::function\<close> and wraps what it is given in \<open>wrapper\<close>, so that a callable that can only be moved
  passes for a copyable one. What \<open>std::function\<close> does is documented behaviour; its moved-from state
  is taken to be empty.
\<close>

section \<open>Objects of type \<open>unique_function\<close>\<close>

text \<open>
  What an object holds: nothing, a copyable callable, one that can only be moved, or a reference. A
  reference comes about where the constructor template is given an lvalue: it is a better match than
  the deleted copy constructor, and \<open>wrapper<unique_function&>\<close> has a reference as its member.
\<close>

datatype 'f target = Empty | Copyable 'f | Move_only 'f | Reference nat

type_synonym 'f uf_store = "nat \<rightharpoonup> 'f target"

text \<open>The constructors; \<open>a\<close> is the new object.\<close>

definition uf_default :: "nat \<Rightarrow> 'f uf_store \<Rightarrow> 'f uf_store" where
  "uf_default a s = s(a \<mapsto> Empty)"

definition uf_nullptr :: "nat \<Rightarrow> 'f uf_store \<Rightarrow> 'f uf_store" where
  "uf_nullptr a s = s(a \<mapsto> Empty)"

definition uf_wrap :: "bool \<Rightarrow> 'f \<Rightarrow> 'f target" where
  "uf_wrap copy_constructible f = (if copy_constructible then Copyable f else Move_only f)"

definition uf_from :: "nat \<Rightarrow> bool \<Rightarrow> 'f \<Rightarrow> 'f uf_store \<Rightarrow> 'f uf_store" where
  "uf_from a copy_constructible f s = s(a \<mapsto> uf_wrap copy_constructible f)"

definition uf_from_lvalue :: "nat \<Rightarrow> nat \<Rightarrow> 'f uf_store \<Rightarrow> 'f uf_store" where
  "uf_from_lvalue a b s = s(a \<mapsto> Reference b)"

text \<open>Move construction and move assignment leave the source empty.\<close>

definition uf_move :: "nat \<Rightarrow> nat \<Rightarrow> 'f uf_store \<Rightarrow> 'f uf_store outcome" where
  "uf_move a b s = (case s b of None \<Rightarrow> Undefined | Some t \<Rightarrow> Returns (s(b \<mapsto> Empty, a \<mapsto> t)))"

definition uf_assign_nullptr :: "nat \<Rightarrow> 'f uf_store \<Rightarrow> 'f uf_store" where
  "uf_assign_nullptr a s = s(a \<mapsto> Empty)"

definition uf_assign :: "nat \<Rightarrow> bool \<Rightarrow> 'f \<Rightarrow> 'f uf_store \<Rightarrow> 'f uf_store" where
  "uf_assign a copy_constructible f s = s(a \<mapsto> uf_wrap copy_constructible f)"

definition uf_assign_lvalue :: "nat \<Rightarrow> nat \<Rightarrow> 'f uf_store \<Rightarrow> 'f uf_store" where
  "uf_assign_lvalue a b s = s(a \<mapsto> Reference b)"

definition uf_destroy :: "nat \<Rightarrow> 'f uf_store \<Rightarrow> 'f uf_store" where
  "uf_destroy a s = s(a := None)"

text \<open>
  The copy constructor of \<open>wrapper\<close>, which a copy to a plain \<open>std::function\<close> calls: for a callable that
  can only be moved it moves the callable out of the original and then throws, so that nobody has it;
  \<open>residue\<close> is what the move leaves. \<open>None\<close>: the exception (an \<open>int\<close>).
\<close>

fun wrapper_copy :: "('f \<Rightarrow> 'f) \<Rightarrow> 'f target \<Rightarrow> 'f target option \<times> 'f target" where
  "wrapper_copy residue Empty = (Some Empty, Empty)"
| "wrapper_copy residue (Copyable f) = (Some (Copyable f), Copyable f)"
| "wrapper_copy residue (Move_only f) = (None, Move_only (residue f))"
| "wrapper_copy residue (Reference b) = (Some (Reference b), Reference b)"

text \<open>
  The call operator: which callable is run. References are followed; the fuel bounds their number, and
  \<open>None\<close> is a call that has not got to a callable within it.
\<close>

fun uf_call :: "nat \<Rightarrow> nat \<Rightarrow> 'f uf_store \<Rightarrow> 'f outcome option" where
  "uf_call 0 a s = None"
| "uf_call (Suc n) a s =
     (case s a of
        None \<Rightarrow> Some Undefined
      | Some Empty \<Rightarrow> Some (Throws Bad_function_call)
      | Some (Copyable f) \<Rightarrow> Some (Returns f)
      | Some (Move_only f) \<Rightarrow> Some (Returns f)
      | Some (Reference b) \<Rightarrow> uf_call n b s)"

section \<open>Ownership\<close>

text \<open>The objects that own a callable.\<close>

fun owned_callable :: "'f target option \<Rightarrow> 'f option" where
  "owned_callable (Some (Copyable f)) = Some f"
| "owned_callable (Some (Move_only f)) = Some f"
| "owned_callable _ = None"

definition callable :: "'f uf_store \<Rightarrow> nat \<rightharpoonup> 'f" where
  "callable s a = owned_callable (s a)"

text \<open>
  Moving hands the callable over: the new owner runs it, the old one throws, everybody else is as
  before.
\<close>

lemma uf_move_hands_over:
  assumes "s b = Some t" "a \<noteq> b"
  shows "\<exists>s'. uf_move a b s = Returns s' \<and> callable s' = (callable s)(b := None, a := callable s b) \<and>
    uf_call (Suc n) b s' = Some (Throws Bad_function_call) \<and>
    (\<forall>f. callable s b = Some f \<longrightarrow> uf_call (Suc n) a s' = Some (Returns f))"
  using assms by (cases t) (auto simp: uf_move_def callable_def)

lemma uf_from_runs:
  "uf_call (Suc n) a (uf_from a c f s) = Some (Returns f)" "uf_call (Suc n) a (uf_assign a c f s) = Some (Returns f)"
  "uf_call (Suc n) a (uf_default a s) = Some (Throws Bad_function_call)"
  "uf_call (Suc n) a (uf_nullptr a s) = Some (Throws Bad_function_call)"
  "uf_call (Suc n) a (uf_assign_nullptr a s) = Some (Throws Bad_function_call)"
  by (simp_all add: uf_from_def uf_assign_def uf_wrap_def uf_default_def uf_nullptr_def uf_assign_nullptr_def)

text \<open>
  What looks like a copy of an lvalue is a reference to it: it follows the original, dangles when the
  original is gone, and an assignment to itself makes a function whose call never returns.
\<close>

lemma uf_lvalue_is_reference:
  assumes "s b = Some t" "a \<noteq> b"
  shows "uf_call (Suc n) a (uf_from_lvalue a b s) = uf_call n b (uf_from_lvalue a b s)"
    "uf_call (Suc (Suc n)) a (uf_from b c f (uf_from_lvalue a b s)) = Some (Returns f)"
    "uf_call (Suc (Suc n)) a (uf_destroy b (uf_from_lvalue a b s)) = Some Undefined"
  using assms by (simp_all add: uf_from_lvalue_def uf_from_def uf_wrap_def uf_destroy_def)

lemma uf_self_assignment: "uf_call n a (uf_assign_lvalue a a s) = None"
  by (induction n) (simp_all add: uf_assign_lvalue_def)

text \<open>Copying the base of a function with a callable that can only be moved fails and loses the callable.\<close>

lemma wrapper_copy_loses:
  "owned_callable (Some (snd (wrapper_copy residue t))) =
     (case t of Move_only f \<Rightarrow> Some (residue f) | _ \<Rightarrow> owned_callable (Some t))"
  "fst (wrapper_copy residue t) = (case t of Move_only f \<Rightarrow> None | _ \<Rightarrow> Some t)"
  by (cases t; simp)+

end
