(* ===== verification/Echo_Servers.thy ===== *)
theory Echo_Servers
  imports Fut_Io Descriptors
begin

text \<open>
  The three demonstration servers (\<open>echo-servs\<close>): each accepts clients, reads once from a client and
  writes what it read back. The first is written with handlers and the blocking operations of the
  socket, the second with futures, the third as one coroutine.
\<close>

section \<open>The servers\<close>

text \<open>\<open>async_main\<close>: without a listening socket the program ends.\<close>

definition echo_async_main ::
  "(fd \<times> nat) sys \<Rightarrow> (16 word \<Rightarrow> unit sys) \<Rightarrow> (nat \<Rightarrow> unit sys) \<Rightarrow> unit sys \<Rightarrow> 'c \<Rightarrow> table \<Rightarrow>
   'c acceptor option \<times> table" where
  "echo_async_main socket bind listen closed ctx t =
     (case local_with_port socket bind listen closed 8089 ctx t of
        (Err e, t) \<Rightarrow> (None, t)
      | (Ok acceptor, t) \<Rightarrow> (Some acceptor, t))"

text \<open>
  Each server keeps a log of what it has sent to which descriptor. The owner of a client's socket is
  captured by the handlers, or a variable of the loop of the coroutine: it is closed when the
  client has been handled.
\<close>

type_synonym echo_log = "(fd \<times> bytes) list"

subsection \<open>With handlers\<close>

datatype 'c echo1_handler = Echo1_accept | Echo1_read "'c socket" | Echo1_write "'c socket" bytes

text \<open>A handler gives the handlers that it registers. The types of the events do not matter.\<close>

definition echo1_accept ::
  "'c acceptor \<Rightarrow> accept_answer \<Rightarrow> table \<Rightarrow> ('c echo1_handler list \<times> table) outcome" where
  "echo1_accept acc answer t =
     bind_outcome (acceptor_accept_conn answer acc t) (\<lambda>(res, t).
       let registered = [Echo1_accept] in
       Returns (case res of
          Err e \<Rightarrow> (registered, t)
        | Ok (sock, _) \<Rightarrow> (registered @ [Echo1_read sock], t)))"

definition echo1_read ::
  "bytes sys list \<Rightarrow> 'c socket \<Rightarrow> table \<Rightarrow> ('c echo1_handler list \<times> table) option" where
  "echo1_read answers sock t =
     (case sock_read_vec answers of
        None \<Rightarrow> None
      | Some (Err e) \<Rightarrow> Some ([], snd (socket_close sock t))
      | Some (Ok data) \<Rightarrow> Some ([Echo1_write sock data], t))"

definition echo1_write ::
  "nat sys list \<Rightarrow> 'c socket \<Rightarrow> bytes \<Rightarrow> table \<Rightarrow> bytes \<times> table option" where
  "echo1_write answers sock data t =
     (case sock_write_all answers data 0 [] of
        (None, out) \<Rightarrow> (out, None)
      | (Some res, out) \<Rightarrow> (out, Some (snd (socket_close sock t))))"

text \<open>One client of the first server, with the answers of the system in the three handlers.\<close>

definition echo1_visit ::
  "'c acceptor \<Rightarrow> accept_answer \<Rightarrow> bytes sys list \<Rightarrow> nat sys list \<Rightarrow> table \<times> echo_log \<Rightarrow>
   (table \<times> echo_log) option outcome" where
  "echo1_visit acc answer reads writes s =
     (case s of (t, log) \<Rightarrow>
        bind_outcome (echo1_accept acc answer t) (\<lambda>(hs, t).
          case hs of
            [Echo1_accept, Echo1_read sock] \<Rightarrow>
              (case echo1_read reads sock t of
                 Some ([Echo1_write sock data], t) \<Rightarrow>
                   (case echo1_write writes sock data t of
                      (out, Some t) \<Rightarrow> Returns (Some (t, log @ [(socket_fd sock, out)]))
                    | _ \<Rightarrow> Returns None)
               | Some (_, t) \<Rightarrow> Returns (Some (t, log))
               | None \<Rightarrow> Returns None)
          | _ \<Rightarrow> Returns (Some (t, log))))"

subsection \<open>With futures\<close>

text \<open>What happens to one client: the event of the acceptor and the wake-ups of its socket.\<close>

record visit =
  v_accept :: "event_type \<times> accept_answer"
  v_reads :: "read_wakeup list"
  v_writes :: "write_wakeup list"

text \<open>\<open>None\<close>: the future is not complete. The next client is asked for in any case, first of all.\<close>

definition echo2_visit ::
  "'c acceptor \<Rightarrow> visit \<Rightarrow> table \<times> echo_log \<Rightarrow> (table \<times> echo_log) option outcome" where
  "echo2_visit acc v s =
     (case s of (t, log) \<Rightarrow>
        bind_outcome (fut_accept_conn (v_accept v) acc t) (\<lambda>(res, t).
          Returns (case res of
             Err e \<Rightarrow> Some (t, log)
           | Ok (sock, addr_info) \<Rightarrow>
              (case v_reads v of
                 [] \<Rightarrow> None
               | r # _ \<Rightarrow>
                  (case read_part r of
                     Err e \<Rightarrow> Some (snd (socket_close sock t), log)
                   | Ok d \<Rightarrow>
                      (case write_all (v_writes v) d 0 0 [] of
                         (None, out, _) \<Rightarrow> None
                       | (Some res, out, _) \<Rightarrow>
                           Some (snd (socket_close sock t), log @ [(socket_fd sock, out)])))))))"

subsection \<open>As a coroutine\<close>

text \<open>Where the coroutine is suspended, and the events.\<close>

datatype 'c echo3 = Await_accept | Await_read "'c socket" | Await_write "'c socket" bytes nat bytes

datatype echo_event = Accept_event "event_type \<times> accept_answer" | Read_event read_wakeup | Write_event write_wakeup

text \<open>Events of other kinds than the one awaited do not come: nothing is registered for them.\<close>

fun echo3_step ::
  "'c acceptor \<Rightarrow> echo_event \<Rightarrow> 'c echo3 \<times> table \<times> echo_log \<Rightarrow> ('c echo3 \<times> table \<times> echo_log) outcome" where
  "echo3_step acc (Accept_event w) (Await_accept, t, log) =
     bind_outcome (fut_accept_conn w acc t) (\<lambda>(res, t).
       Returns (case res of
          Err e \<Rightarrow> (Await_accept, t, log)
        | Ok (sock, _) \<Rightarrow> (Await_read sock, t, log)))"
| "echo3_step acc (Read_event r) (Await_read sock, t, log) =
     Returns (case read_part r of
        Err e \<Rightarrow> (Await_accept, snd (socket_close sock t), log)
      | Ok data \<Rightarrow> (Await_write sock data 0 [], t, log))"
| "echo3_step acc (Write_event w) (Await_write sock data from_pos out, t, log) =
     Returns (case write_part w (length data - from_pos) of
        Err e \<Rightarrow> (Await_accept, snd (socket_close sock t), log @ [(socket_fd sock, out)])
      | Ok n \<Rightarrow>
          let out = out @ take n (drop from_pos data) in
          if from_pos + n \<noteq> length data then (Await_write sock data (from_pos + n) out, t, log)
          else (Await_accept, snd (socket_close sock t), log @ [(socket_fd sock, out)]))"
| "echo3_step acc e s = Returns s"

fun echo3_run ::
  "'c acceptor \<Rightarrow> echo_event list \<Rightarrow> 'c echo3 \<times> table \<times> echo_log \<Rightarrow> ('c echo3 \<times> table \<times> echo_log) outcome" where
  "echo3_run acc [] s = Returns s"
| "echo3_run acc (e # es) s = bind_outcome (echo3_step acc e s) (echo3_run acc es)"

section \<open>They do the same\<close>

definition visit_events :: "visit \<Rightarrow> echo_event list" where
  "visit_events v = Accept_event (v_accept v) # map Read_event (v_reads v) @ map Write_event (v_writes v)"

text \<open>The wake-ups of a visit are those that were waited for, up to its end.\<close>

definition accepted_by :: "'c acceptor \<Rightarrow> visit \<Rightarrow> bool" where
  "accepted_by acc v \<longleftrightarrow>
     (\<exists>sock info t. fut_accept_conn (v_accept v) acc (\<lambda>_. None) = Returns (Ok (sock, info), t))"

definition whole_visit :: "'c acceptor \<Rightarrow> visit \<Rightarrow> bool" where
  "whole_visit acc v \<longleftrightarrow>
     (if accepted_by acc v then
        (case v_reads v of
           [r] \<Rightarrow>
             (case read_part r of
                Err e \<Rightarrow> v_writes v = []
              | Ok d \<Rightarrow> (case write_all (v_writes v) d 0 0 [] of (res, out, rest) \<Rightarrow> res \<noteq> None \<and> rest = []))
         | _ \<Rightarrow> False)
      else v_reads v = [] \<and> v_writes v = [])"

fun echo2_visits ::
  "'c acceptor \<Rightarrow> visit list \<Rightarrow> table \<times> echo_log \<Rightarrow> (table \<times> echo_log) option outcome" where
  "echo2_visits acc [] s = Returns (Some s)"
| "echo2_visits acc (v # vs) s =
     bind_outcome (echo2_visit acc v s) (\<lambda>s.
       case s of None \<Rightarrow> Returns None | Some s \<Rightarrow> echo2_visits acc vs s)"

text \<open>Accepting always returns, and what it returns does not depend on the table.\<close>

lemma accept_returns:
  "(\<exists>e. \<forall>t. fut_accept_conn w acc t = Returns (Err e, t)) \<or>
   (\<exists>sock info k. \<forall>t. fut_accept_conn w acc t = Returns (Ok (sock, info), t(socket_fd sock \<mapsto> Inet_socket k)))"
proof (cases "fst w = CLOSED \<or> fst w = ERROR")
  case True
  then show ?thesis by (auto simp: fut_accept_conn_def)
next
  case False
  show ?thesis
  proof (cases "snd w")
    case (Sys_errno n)
    with False show ?thesis by (simp add: fut_accept_conn_def acceptor_accept_conn_def)
  next
    case (Sys_ok x)
    then obtain s k a p where w: "snd w = Sys_ok (s, k, a, p)" by (metis prod_cases4)
    obtain ip rest where "strcpy (addr_ip in_addr_info_init) (inet_ntoa a) = Returns ip"
      using accept_copies_address by blast
    with False show ?thesis by (simp add: fut_accept_conn_def acceptor_accept_conn_def w) auto
  qed
qed

text \<open>The writes of a visit, one event at a time.\<close>

lemma echo3_writes:
  assumes "write_all ws d from_pos n out = (Some res, out', [])"
  shows "echo3_run acc (map Write_event ws @ es) (Await_write sock d from_pos out, t, log) =
    echo3_run acc es (Await_accept, snd (socket_close sock t), log @ [(socket_fd sock, out')])"
  using assms
proof (induction ws d from_pos n out rule: write_all.induct)
  case (1 d from_pos n out)
  then show ?case by simp
next
  case (2 w ws d from_pos n out)
  show ?case
  proof (cases "write_part w (length d - from_pos)")
    case (Ok k)
    with 2 show ?thesis by (auto simp: Let_def split: if_splits)
  next
    case (Err e)
    with 2 show ?thesis by (cases res) simp_all
  qed
qed

lemma echo3_visit:
  assumes "whole_visit acc v"
  shows "\<exists>s. echo2_visit acc v (t, log) = Returns (Some s) \<and>
    echo3_run acc (visit_events v @ es) (Await_accept, t, log) = echo3_run acc es (Await_accept, s)"
proof -
  from accept_returns [of "v_accept v" acc] show ?thesis
  proof (elim disjE exE)
    fix e assume e: "\<forall>t. fut_accept_conn (v_accept v) acc t = Returns (Err e, t)"
    then have "\<not> accepted_by acc v" by (simp add: accepted_by_def)
    with assms e show ?thesis by (simp add: whole_visit_def visit_events_def echo2_visit_def)
  next
    fix sock info k
    assume ok: "\<forall>t. fut_accept_conn (v_accept v) acc t = Returns (Ok (sock, info), t(socket_fd sock \<mapsto> Inet_socket k))"
    then have "accepted_by acc v" by (auto simp: accepted_by_def)
    with assms obtain r where r: "v_reads v = [r]" "case read_part r of
                Err e \<Rightarrow> v_writes v = []
              | Ok d \<Rightarrow> (case write_all (v_writes v) d 0 0 [] of (res, out, rest) \<Rightarrow> res \<noteq> None \<and> rest = [])"
      by (auto simp: whole_visit_def split: list.splits)
    show ?thesis
    proof (cases "read_part r")
      case (Err e)
      with ok r show ?thesis by (simp add: visit_events_def echo2_visit_def)
    next
      case (Ok d)
      with r(2) obtain res out where w: "write_all (v_writes v) d 0 0 [] = (Some res, out, [])" by auto
      show ?thesis using ok r(1) Ok w echo3_writes [OF w] by (simp add: visit_events_def echo2_visit_def)
    qed
  qed
qed

lemma echo3_visits:
  assumes "list_all (whole_visit acc) vs"
  shows "\<exists>s. echo2_visits acc vs (t, log) = Returns (Some s) \<and>
    echo3_run acc (concat (map visit_events vs)) (Await_accept, t, log) = Returns (Await_accept, s)"
  using assms
proof (induction vs arbitrary: t log)
  case Nil
  then show ?case by simp
next
  case (Cons v vs)
  from echo3_visit [of acc v t log "concat (map visit_events vs)"] Cons.prems obtain t' log' where
    "echo2_visit acc v (t, log) = Returns (Some (t', log'))"
    "echo3_run acc (visit_events v @ concat (map visit_events vs)) (Await_accept, t, log) =
      echo3_run acc (concat (map visit_events vs)) (Await_accept, t', log')" by auto
  with Cons.IH [of t' log'] Cons.prems show ?case by simp
qed

text \<open>The blocking write is the asynchronous one, given the same answers.\<close>

lemma write_all_blocking:
  "sock_write_all rs d pos out =
     (case write_all (map (\<lambda>r. (TO_WRITE, r)) rs) d pos n out of
        (res, out, _) \<Rightarrow> (map_option (\<lambda>r. map_res r (\<lambda>_. length d)) res, out))"
  by (induction rs arbitrary: pos n out) (simp_all add: write_part_def Let_def split: res.split)

text \<open>A client that causes no event but the ones asked for.\<close>

definition plain_visit :: "visit \<Rightarrow> bool" where
  "plain_visit v \<longleftrightarrow> fst (v_accept v) \<notin> {CLOSED, ERROR} \<and>
     list_all (\<lambda>r. r_event r \<notin> {CLOSED, ERROR}) (v_reads v) \<and> list_all (\<lambda>w. fst w = TO_WRITE) (v_writes v)"

lemma echo1_as_echo2:
  assumes "whole_visit acc v" "plain_visit v"
  shows "echo1_visit acc (snd (v_accept v)) (map r_result (v_reads v) @ [Sys_errno EAGAIN])
    (map snd (v_writes v)) s = echo2_visit acc v s"
proof -
  obtain t log where s: "s = (t, log)" by fastforce
  have acc: "acceptor_accept_conn (snd (v_accept v)) acc t = fut_accept_conn (v_accept v) acc t" for t
    using assms(2) by (simp add: plain_visit_def fut_accept_conn_def)
  from accept_returns [of "v_accept v" acc] show ?thesis
  proof (elim disjE exE)
    fix e assume "\<forall>t. fut_accept_conn (v_accept v) acc t = Returns (Err e, t)"
    then show ?thesis by (simp add: s echo1_visit_def echo2_visit_def echo1_accept_def acc)
  next
    fix sock info k
    assume ok: "\<forall>t. fut_accept_conn (v_accept v) acc t = Returns (Ok (sock, info), t(socket_fd sock \<mapsto> Inet_socket k))"
    then have "accepted_by acc v" by (auto simp: accepted_by_def)
    with assms(1) obtain r where r: "v_reads v = [r]" "case read_part r of
                Err e \<Rightarrow> v_writes v = []
              | Ok d \<Rightarrow> (case write_all (v_writes v) d 0 0 [] of (res, out, rest) \<Rightarrow> res \<noteq> None \<and> rest = [])"
      by (auto simp: whole_visit_def split: list.splits)
    have read: "read_part r = socket_read_part (r_result r)"
      using assms(2) r(1) by (simp add: plain_visit_def read_part_def)
    have ws: "map (\<lambda>r. (TO_WRITE, r)) (map snd (v_writes v)) = v_writes v"
      using assms(2) by (auto simp: plain_visit_def list_all_iff intro!: map_idI)
    show ?thesis
    proof (cases "read_part r")
      case (Err e)
      then have "socket_read_part (r_result r) = Err e" using read by simp
      with ok r Err show ?thesis
        by (simp add: s echo1_visit_def echo2_visit_def echo1_accept_def acc echo1_read_def sock_read_vec_def)
    next
      case (Ok d)
      with r(2) obtain res out where w: "write_all (v_writes v) d 0 0 [] = (Some res, out, [])" by auto
      have "sock_read_vec [r_result r, Sys_errno EAGAIN] = Some (Ok d)"
        using Ok read by (auto simp: sock_read_vec_def socket_read_part_def)
      with ok r Ok w write_all_blocking [of "map snd (v_writes v)" d 0 "[]" 0, unfolded ws] show ?thesis
        by (simp add: s echo1_visit_def echo2_visit_def echo1_accept_def acc echo1_read_def echo1_write_def)
    qed
  qed
qed

text \<open>What is logged for a client is a prefix of what was read from it.\<close>

lemma echo2_echoes:
  assumes "echo2_visit acc v (t, log) = Returns (Some (t', log'))"
  shows "log' = log \<or> (\<exists>sock r d k. log' = log @ [(sock, take k d)] \<and> r \<in> set (v_reads v) \<and> read_part r = Ok d)"
proof -
  from accept_returns [of "v_accept v" acc] show ?thesis
  proof (elim disjE exE)
    fix e assume "\<forall>t. fut_accept_conn (v_accept v) acc t = Returns (Err e, t)"
    with assms show ?thesis by (simp add: echo2_visit_def)
  next
    fix sock info k
    assume ok: "\<forall>t. fut_accept_conn (v_accept v) acc t = Returns (Ok (sock, info), t(socket_fd sock \<mapsto> Inet_socket k))"
    with assms obtain r rs where r: "v_reads v = r # rs" by (auto simp: echo2_visit_def split: list.splits)
    show ?thesis
    proof (cases "read_part r")
      case (Err e)
      with assms ok r show ?thesis by (simp add: echo2_visit_def)
    next
      case (Ok d)
      obtain res out ws where w: "write_all (v_writes v) d 0 0 [] = (res, out, ws)" by (metis prod_cases3)
      from write_all_sends [OF w] obtain n where "out = take n d" by auto
      with assms ok r Ok w have "log' = log @ [(socket_fd sock, take n d)]"
        by (auto simp: echo2_visit_def split: option.splits)
      with r Ok show ?thesis by auto
    qed
  qed
qed

text \<open>The clients of the first server, one after the other.\<close>

fun echo1_visits ::
  "'c acceptor \<Rightarrow> visit list \<Rightarrow> table \<times> echo_log \<Rightarrow> (table \<times> echo_log) option outcome" where
  "echo1_visits acc [] s = Returns (Some s)"
| "echo1_visits acc (v # vs) s =
     bind_outcome (echo1_visit acc (snd (v_accept v)) (map r_result (v_reads v) @ [Sys_errno EAGAIN])
         (map snd (v_writes v)) s) (\<lambda>s.
       case s of None \<Rightarrow> Returns None | Some s \<Rightarrow> echo1_visits acc vs s)"

lemma echo1_visits_as_echo2:
  "list_all (whole_visit acc) vs \<Longrightarrow> list_all plain_visit vs \<Longrightarrow> echo1_visits acc vs = echo2_visits acc vs"
proof (induction vs)
  case Nil
  show ?case by (simp add: fun_eq_iff)
next
  case (Cons v vs)
  then have e: "echo1_visits acc vs = echo2_visits acc vs" by simp
  show ?case by (rule ext) (use Cons.prems in \<open>simp add: e echo1_as_echo2\<close>)
qed

text \<open>An entry of the log is a prefix of what was read in one of the visits.\<close>

definition echoes :: "visit list \<Rightarrow> fd \<times> bytes \<Rightarrow> bool" where
  "echoes vs e \<longleftrightarrow> (\<exists>v\<in>set vs. \<exists>r\<in>set (v_reads v). \<exists>d k. read_part r = Ok d \<and> snd e = take k d)"

lemma echo2_visits_echo:
  assumes "echo2_visits acc vs (t, log) = Returns (Some (t', log'))"
  shows "\<exists>sent. log' = log @ sent \<and> list_all (echoes vs) sent"
  using assms
proof (induction vs arbitrary: t log)
  case Nil
  then show ?case by simp
next
  case (Cons v vs)
  then obtain t1 log1 where 1: "echo2_visit acc v (t, log) = Returns (Some (t1, log1))"
    "echo2_visits acc vs (t1, log1) = Returns (Some (t', log'))"
    by (auto simp: bind_outcome_Returns_iff split: option.splits)
  from Cons.IH [OF 1(2)] obtain sent where sent: "log' = log1 @ sent" "list_all (echoes vs) sent" by blast
  from sent(2) have later: "list_all (echoes (v # vs)) sent" by (auto simp: list_all_iff echoes_def)
  from echo2_echoes [OF 1(1)] show ?case
  proof (elim disjE exE conjE)
    assume "log1 = log"
    with sent later show ?case by blast
  next
    fix sock r d k
    assume r: "log1 = log @ [(sock, take k d)]" "r \<in> set (v_reads v)" "read_part r = Ok d"
    then have "echoes (v # vs) (sock, take k d)" unfolding echoes_def by fastforce
    with later show ?case by (intro exI [of _ "(sock, take k d) # sent"]) (simp add: sent(1) r(1))
  qed
qed

section \<open>Properties\<close>


text \<open>A client whose two bytes are read at once and written in two parts.\<close>

definition sample_visit :: visit where
  "sample_visit = \<lparr>v_accept = (TO_READ, Sys_ok (6, 7, (1, 2, 3, 4), 5000)),
     v_reads = [\<lparr>r_event = TO_READ, r_result = Sys_ok ''hi'', r_mem = \<lparr>before_chunk = CR, after_pending = []\<rparr>\<rparr>],
     v_writes = [(TO_WRITE, Sys_ok 1), (TO_WRITE, Sys_ok 5)]\<rparr>"

definition sample_acceptor :: "unit acceptor" where
  "sample_acceptor = \<lparr>acceptor_fd = 3, acceptor_context = ()\<rparr>"

lemma sample_accepted: "accepted_by sample_acceptor sample_visit"
  using accept_copies_address [of "(1, 2, 3, 4)"]
  by (auto simp: accepted_by_def sample_visit_def fut_accept_conn_def acceptor_accept_conn_def)

lemma sample_whole: "whole_visit sample_acceptor sample_visit" "plain_visit sample_visit"
  by (simp_all add: whole_visit_def sample_accepted)
    (simp_all add: sample_visit_def plain_visit_def read_part_def write_part_def socket_read_part_def
      socket_write_part_def)


end
