(* ===== verification/Deployment.thy ===== *)
theory Deployment
  imports Config_Print Server_Pipeline
begin

text \<open>
  The program from its configuration file to the bytes on a connection: start-up, routing and the
  request pipeline composed.
\<close>

section \<open>From a configuration text to a reply\<close>

text \<open>
  The block and the location that a configuration means for a request on the address \<open>l\<close>: the
  first block with that address that has the request's host among its names (the first one
  without a Host header), and of its locations that serve the request the longest.
\<close>

definition routes :: "server list \<Rightarrow> string \<Rightarrow> request \<Rightarrow> string \<times> location \<Rightarrow> bool" where
  "routes ss l q e \<longleftrightarrow>
     (let us = filter (\<lambda>s. srv_listen s = l) ss in
      us \<noteq> [] \<and>
      (case (case map_find ''Host'' (req_headers q) of None \<Rightarrow> Some (hd us)
          | Some h \<Rightarrow> find (\<lambda>s. h \<in> set (server_name s)) us) of
         None \<Rightarrow> False
       | Some s \<Rightarrow> e \<in> set (locations s) \<and> serves q e \<and>
           (\<forall>e' \<in> set (locations s). serves q e' \<longrightarrow> length (fst e') \<le> length (fst e))))"

lemma routes_location:
  assumes "routes ss l q (p, loc)" and "list_all server_ok ss"
  shows "get_location q (filter (\<lambda>s. srv_listen s = l) ss) = Returns (Some loc)"
proof -
  define us where "us = filter (\<lambda>s. srv_listen s = l) ss"
  have us: "us \<noteq> []" "\<forall>s \<in> set us. map_wf (locations s)"
    using assms by (auto simp: routes_def us_def Let_def list_all_iff server_ok_def)
  obtain s where s: "(case map_find ''Host'' (req_headers q) of None \<Rightarrow> Some (hd us)
        | Some h \<Rightarrow> find (\<lambda>s. h \<in> set (server_name s)) us) = Some s"
    and e: "(p, loc) \<in> set (locations s)" "serves q (p, loc)"
      "\<forall>e' \<in> set (locations s). serves q e' \<longrightarrow> length (fst e') \<le> length p"
    using assms(1) by (auto simp: routes_def us_def Let_def split: option.splits)
  note longest = get_location_longest [OF us, of q, unfolded s, simplified]
  obtain path loc' where g: "get_location q us = Returns (Some loc')" "(path, loc') \<in> set (locations s)"
      "serves q (path, loc')" "\<forall>e \<in> set (locations s). serves q e \<longrightarrow> e = (path, loc') \<or> length (fst e) < length path"
    using longest e(1,2) by (auto split: outcome.splits option.splits)
  have "length path \<le> length p" using e(3) g(2,3) by fastforce
  then have "(p, loc) = (path, loc')" using g(4) e(1,2) by fastforce
  with g(1) show ?thesis by (simp add: us_def)
qed

lemma start_servers_all:
  "\<forall>(l, info)\<in>set config. \<exists>u. create (fst (listen_address l)) (snd (listen_address l)) = Ok u \<Longrightarrow>
     start_servers create config started =
       Running (started @ map (\<lambda>(l, info). (fst (listen_address l), snd (listen_address l), info)) config)"
  by (induction create config started rule: start_servers.induct) (auto simp: Let_def split: prod.splits)

lemma start_up:
  assumes "ss \<noteq> []" and "list_all server_ok ss" and "list_all token_ok ts"
    and "filter (\<lambda>t. \<not> comment t) ts = print_nodes (conf_tree ss)"
    and "file conf = Some (render ts)"
    and "\<forall>s\<in>set ss. \<exists>u. create [] (port_of (srv_listen s)) = Ok u"
  shows "\<exists>servers. async_main file create [prog, conf] = Running servers \<and>
    (\<forall>s\<in>set ss. ([], port_of (srv_listen s), filter (\<lambda>u. srv_listen u = srv_listen s) ss) \<in> set servers)"
proof -
  have parsed: "serv_conf_from (render ts) = Ok (ServConf (conf_tree ss))"
    "config_from (ServConf (conf_tree ss)) = Ok (servers_map ss)"
    using print_parses [OF conf_tree_wf [OF assms(1,2)] assms(3,4)] config_from_tree [OF assms(1,2)] by blast+
  have at: "(l, us) \<in> set (servers_map ss) \<longleftrightarrow> us \<noteq> [] \<and> us = filter (\<lambda>u. srv_listen u = l) ss" for l us
    using servers_map_at [of l ss] servers_map_wf [of ss] map_find_set [of "servers_map ss" l us]
    by (auto simp: Let_def split: if_splits)
  have "\<forall>(l, info)\<in>set (servers_map ss). \<exists>u. create (fst (listen_address l)) (snd (listen_address l)) = Ok u"
    using at assms(6) by (fastforce simp: listen_address_def filter_empty_conv)
  from start_servers_all [OF this, of "[]"] have
    "async_main file create [prog, conf] = Running (map (\<lambda>(l, info). ([], port_of l, info)) (servers_map ss))"
    by (simp add: async_main_def assms(5) parsed listen_address_def)
  moreover have "(srv_listen s, filter (\<lambda>u. srv_listen u = srv_listen s) ss) \<in> set (servers_map ss)"
    if "s \<in> set ss" for s
    using that by (auto simp: at filter_empty_conv)
  ultimately show ?thesis by force
qed

text \<open>What a location means for a request: a file, a CGI program, or an upstream server.\<close>

definition means :: "(string \<Rightarrow> bytes option) \<Rightarrow> string \<Rightarrow> location \<Rightarrow> request \<Rightarrow> action \<Rightarrow> bool" where
  "means file client_ip loc q act \<longleftrightarrow>
     (case act of
        Send r \<Rightarrow> loc_root loc \<noteq> [] \<and> static_from file (loc_root loc) = Ok r
      | Run_cgi path q' \<Rightarrow> loc_root loc = [] \<and> cgi_path loc \<noteq> [] \<and> path = cgi_path loc \<and> q' = q
      | Proxy host port q' \<Rightarrow> loc_root loc = [] \<and> cgi_path loc = [] \<and> proxy_pass loc \<noteq> [] \<and>
          (host, port) = proxy_address (proxy_pass loc) \<and> q' = add_forwarded client_ip q)"

lemma means_handle:
  assumes "get_location q info = Returns (Some loc)" and "means file client_ip loc q act"
  shows "handle_request file client_ip info q = Returns act"
  using assms by (cases act) (auto simp: means_def handle_request_def Let_def split: prod.splits)

section \<open>Properties\<close>


text \<open>A block whose only location passes requests on to an upstream server, and its file.\<close>

definition deployed :: server where
  "deployed = sample_proxy\<lparr>srv_listen := ''8080''\<rparr>"

definition deployed_text :: "string list" where
  "deployed_text = [''http'', ''{'', ''# pass everything on'', ''server'', ''{'', ''listen'', ''8080'', '';'',
     ''location'', ''/'', ''{'', ''accepted_method'', ''PUT'', '';'', ''proxy_pass'', ''80'', '';'', ''}'', ''}'', ''}'']"

lemmas deployed_simps = deployed_def sample_proxy_def server_init_def location_init_def


end
