(* ===== verification/Spec2Isabelle.thy ===== *)
theory Spec2Isabelle
  imports Prelude Std_Map Res Io_Error Event Entity Fut_Io Http_Message Http_Serializer Http_Parser
    Http_Scan Http_Chunks Http_Roundtrip Http_Transfer Serv_Conf Serv_Conf_Spec Serv_Conf_Print
    Config Webserv Forward_List Mpmc_Queue Future_State Future_Collect Futures Futures_Sim
    Futures_Refine Thread_Pool Thread_Pool_Proof C_Buffer Descriptors Cgi Http_Connection Server_Pipeline
    Event_Listener Event_Loop Coroutine Conn_Steps Web_Loop Web_Descriptors Config_Print Move_Function Echo_Servers
    Deployment
begin

text \<open>
  A model of the web server \<open>webserv\<close> and of the asynchronous library it is built on. Paths are
  below \<open>src/\<close>.

  \<^bold>\<open>How the program works.\<close> \<open>main\<close> (\<open>webserv.cpp\<close>) reads an nginx-like configuration, opens one
  acceptor for each listen address, and enters the event loop (\<open>ExecutionContext\<close>). The loop asks
  the kernel which descriptors are ready, removes each from the listener and hands its
  handler to an executor. Handlers complete futures; callbacks of futures register further
  handlers. A connection goes through: accept, read and parse a request, choose a location, then
  answer with a file, the output of a CGI program, the response of an upstream server or an error.
  Threads communicate through a channel (the thread pool's queue of tasks) and through the shared
  states of futures.

  \<^bold>\<open>Shared vocabulary.\<close>
  \<open>Prelude\<close>: the ways a C++ call ends (\<open>Returns\<close>, \<open>Throws\<close>, \<open>Undefined\<close> for what the standard gives
  no meaning to) and the string functions of the standard library. \<open>Std_Map\<close>: \<open>std::map\<close> as a sorted
  association list behind the locales \<open>string_map\<close> and \<open>iterable_map\<close>. \<open>Res\<close>:
  \<open>util/Result.hpp\<close>. \<open>Io_Error\<close>: \<open>io/error/Result\<close>, \<open>http/error/Result.hpp\<close>. \<open>C_Buffer\<close>: arrays of \<open>char\<close>
  with uninitialised cells, \<open>strcpy\<close> and \<open>strcat\<close>.

  \<^bold>\<open>HTTP.\<close>
  \<open>Entity\<close> states the concepts of \<open>io/EntityConcepts.hpp\<close> as the locales \<open>entity_serializer\<close> and
  \<open>entity_creator\<close>; \<open>Fut_Io\<close> is \<open>FutRead.hpp\<close> and \<open>FutWrite.hpp\<close>, the loops that read and write such
  entities, as functions of the list of wake-ups of the descriptor (the end of the list is: still
  waiting). \<open>Http_Message\<close>, \<open>Http_Serializer\<close> and \<open>Http_Parser\<close> are \<open>http/HttpRequest.hpp\<close>,
  \<open>http/HttpResponse\<close>, \<open>http/writers\<close> and \<open>http/parsers\<close>. \<open>Http_Scan\<close> and \<open>Http_Chunks\<close> prove, in the locale
  \<open>line_parser\<close>, that the result of a parser does not depend on where its input is cut (but for a
  cut inside the blank line, where it does); \<open>Http_Roundtrip\<close> that parsing inverts serializing;
  \<open>Http_Transfer\<close> puts the two ends together over the asynchronous readers and writers.

  \<^bold>\<open>Configuration.\<close>
  \<open>Serv_Conf\<close> is the tokenizer and parser of \<open>config-parser/serv-conf\<close>, \<open>Serv_Conf_Spec\<close> the grammar
  it accepts, \<open>Serv_Conf_Print\<close> a printer and the round trip, \<open>Config\<close> the server blocks of
  \<open>config-parser/Config\<close>, with what a configuration that is accepted guarantees, and \<open>Config_Print\<close>
  the round trip from server blocks through their text.

  \<^bold>\<open>Futures, channel, threads.\<close>
  \<open>Future_State\<close> is \<open>future/detail/_shared_state.hpp\<close>, with \<open>fastest\<close> and \<open>execute\<close>;
  \<open>Future_Collect\<close> is \<open>_promise_container.hpp\<close> and \<open>collect\<close>; \<open>Futures\<close> is \<open>future.hpp\<close> over a
  store of shared states with their mutexes, and \<open>Futures_Sim\<close>, \<open>Futures_Refine\<close> prove that it
  implements programs of \<open>map\<close>, \<open>flatmap\<close> and external values. \<open>Coroutine\<close> is \<open>coro/stackless.hpp\<close>, with
  the interleavings of a body and of the threads that complete its futures. \<open>Forward_List\<close> is the
  linked list of \<open>mpmc-queue/detail\<close> on an explicit heap and implements the locale \<open>fifo\<close>;
  \<open>Mpmc_Queue\<close> is the channel over it, as a step relation; \<open>Thread_Pool\<close> and \<open>Thread_Pool_Proof\<close>
  are \<open>StaticThreadPool.hpp\<close> over the channel. \<open>Move_Function\<close> is \<open>util/move_only_func.hpp\<close>; the other
  theories use of it that a moved-from function is empty and that calling an empty one throws.

  \<^bold>\<open>Descriptors and the event loop.\<close>
  \<open>Descriptors\<close>: sockets, pipes and acceptors with the table of open descriptors; the locale
  \<open>descriptor_owner\<close> is the discipline of the classes that own one. \<open>Event\<close>: an event packed into 64 bits
  (\<open>low-lewel/event.hpp\<close>). \<open>Event_Listener\<close>: the epoll, poll and kqueue listeners.
  \<open>Event_Loop\<close>: \<open>ExecutionContext\<close>, a step relation over the loop's thread, the
  executor's threads and any thread that registers handlers.

  \<^bold>\<open>The server.\<close>
  \<open>Webserv\<close>: routing, the choice of the answer, start-up. \<open>Http_Connection\<close>: \<open>http/HttpConnection.hpp\<close>
  and \<open>http/HttpServer\<close>. \<open>Cgi\<close>: \<open>http/cgi\<close>, with the environment block on a heap, the pipes and
  the two processes. \<open>Server_Pipeline\<close>: a connection from its request to its reply, as a function of the
  wake-ups of its descriptors. \<open>Conn_Steps\<close>: the same connection as the chain of handlers that the event
  loop calls one event at a time, each with what it has captured, and the proof that the steps compute
  that function. \<open>Web_Loop\<close>: the whole program as a step relation: the chain of \<open>server_pipeline\<close>
  calls that accepts connections and the handlers of all connections, interleaved by the event loop
  with \<open>same_thread\<close> over one table of descriptors; every accepted connection is where it would be alone,
  and every reply has its source. \<open>Web_Descriptors\<close>: in such runs no two handlers ever share a descriptor,
  so that the storage of handlers by descriptor alone, where registering twice throws, never fails.
  \<open>Deployment\<close>: from the text of a configuration file to the bytes of a reply. \<open>Echo_Servers\<close>: the three
  demonstration servers of \<open>echo-servs\<close> and that they do the same.

  \<^bold>\<open>What the kernel and the library contribute\<close> are arguments: the answer of each system call
  (\<open>'a sys\<close>), the files that can be read, \<open>strerror\<close>, the memory around a buffer that the parsers
  read outside it, and what a move leaves of a value (\<open>residue\<close>). The listener's contract with
  \<open>epoll_wait\<close> is \<open>epoll_reports\<close>. Integers have the width of the code where it matters: events
  (64), counters of the channel and of \<open>collect\<close> (32), ports (16).

  \<^bold>\<open>Bounds.\<close> The copy of a list runs on fuel, for which the length of the list is
  enough (\<open>forward_list_copy_move\<close>), and so does following references between functions, which may
  indeed not end (\<open>uf_self_assignment\<close>). Loops that follow the environment recurse on the list
  of its answers, and the theorems that something completes say how many are enough (for a
  message of n bytes, more than n wake-ups with room). The jobs of the store of futures are a
  partial function into \<open>option\<close>, and the refinement theorem includes that it returns.
  The steps of a round of the event loop are counted by \<open>steps_left\<close>.

  \<^bold>\<open>Not modelled.\<close> Output to the terminal and its locks (\<open>util/stream_wrappers\<close>); the flag \<open>O_NONBLOCK\<close> of a descriptor; the
  bytes that flow through a pipe or socket between two processes (each end has its own list of wake-ups);
  the scheduling of mutexes and condition variables, whose critical sections are single steps;
  operations whose instantiation does not compile (\<open>Res::err\<close>, \<open>Future::with_executor\<close>,
  \<open>ContainerFuture::block_get\<close>); the tests. In \<open>Web_Loop\<close> a run ends where an exception leaves a
  handler, which ends the program, and where a process is the child of a CGI request; when exactly a
  descriptor without an owner is closed is left open (a step of its own).
\<close>

end
